(* ===== verification/Prelude.thy ===== *)
theory Prelude
  imports Main "HOL-Library.Word" "HOL-Library.Sublist" "HOL-Library.List_Lexorder"
    "HOL-Library.Char_ord"
begin

text \<open>
  Shared vocabulary of the development.

  \<^item> \<open>result\<close>: Rust's \<open>Result\<close>, with a third value \<open>Hang\<close> for an \<open>await\<close> that never
    completes (a stalled stream, an endless pagination).
  \<^item> State-passing computations \<open>'w \<Rightarrow> ('a, 'e) result \<times> 'w\<close> and their combinators: \<open>io_bind\<close> is
    Rust's \<open>?\<close>, \<open>io_catch\<close> a \<open>match\<close> on an awaited \<open>Result\<close>, \<open>io_mapM\<close> a \<open>for\<close> loop that
    leaves at the first error.
  \<^item> Rust's \<open>str\<close> operations on UTF-8 bytes (\<open>starts_with\<close>, \<open>ends_with\<close>, \<open>strip_prefix\<close>,
    \<open>split\<close>), with the lemmas every component uses.
\<close>

section \<open>Collections of lemmas\<close>

named_theorems io_defs \<open>definitions of the state-passing combinators\<close>

section \<open>Machine integers and bytes\<close>

type_synonym u8 = "8 word"
type_synonym u64 = "64 word"
type_synonym bytes = "u8 list"

section \<open>Results and state passing\<close>

datatype ('a, 'e) result = Ok 'a | Err 'e | Hang

type_synonym ('w, 'a, 'e) comp = "'w \<Rightarrow> ('a, 'e) result \<times> 'w"

definition res_bind :: "('a, 'e) result \<Rightarrow> ('a \<Rightarrow> ('b, 'e) result) \<Rightarrow> ('b, 'e) result" where
  "res_bind r f = (case r of Ok x \<Rightarrow> f x | Err e \<Rightarrow> Err e | Hang \<Rightarrow> Hang)"

fun res_mapM :: "('a \<Rightarrow> ('b, 'e) result) \<Rightarrow> 'a list \<Rightarrow> ('b list, 'e) result" where
  "res_mapM f [] = Ok []"
| "res_mapM f (x # xs) =
     res_bind (f x) (\<lambda>y. res_bind (res_mapM f xs) (\<lambda>ys. Ok (y # ys)))"

fun res_for :: "('a \<Rightarrow> (unit, 'e) result) \<Rightarrow> 'a list \<Rightarrow> (unit, 'e) result" where
  "res_for f [] = Ok ()"
| "res_for f (x # xs) = res_bind (f x) (\<lambda>_. res_for f xs)"

definition io_lift :: "('a, 'e) result \<Rightarrow> ('w, 'a, 'e) comp" where
  "io_lift r = (\<lambda>w. (r, w))"

definition io_ret :: "'a \<Rightarrow> ('w, 'a, 'e) comp" where
  "io_ret x = (\<lambda>w. (Ok x, w))"

definition io_err :: "'e \<Rightarrow> ('w, 'a, 'e) comp" where
  "io_err e = (\<lambda>w. (Err e, w))"

definition io_gets :: "('w \<Rightarrow> 'a) \<Rightarrow> ('w, 'a, 'e) comp" where
  "io_gets f = (\<lambda>w. (Ok (f w), w))"

definition io_modify :: "('w \<Rightarrow> 'w) \<Rightarrow> ('w, unit, 'e) comp" where
  "io_modify f = (\<lambda>w. (Ok (), f w))"

definition io_catch ::
  "('w, 'a, 'e) comp \<Rightarrow> ('a \<Rightarrow> ('w, 'b, 'f) comp) \<Rightarrow> ('e \<Rightarrow> ('w, 'b, 'f) comp) \<Rightarrow> ('w, 'b, 'f) comp"
where
  "io_catch m f g = (\<lambda>w. case m w of
       (Ok x, w') \<Rightarrow> f x w'
     | (Err e, w') \<Rightarrow> g e w'
     | (Hang, w') \<Rightarrow> (Hang, w'))"

definition io_bind ::
  "('w, 'a, 'e) comp \<Rightarrow> ('a \<Rightarrow> ('w, 'b, 'e) comp) \<Rightarrow> ('w, 'b, 'e) comp"
where
  "io_bind m f = io_catch m f io_err"

definition io_map_err :: "('e \<Rightarrow> 'f) \<Rightarrow> ('w, 'a, 'e) comp \<Rightarrow> ('w, 'a, 'f) comp" where
  "io_map_err g m = io_catch m io_ret (\<lambda>e. io_err (g e))"

text \<open>\<open>let _ = m.await\<close>: the outcome is dropped, the effect stays.\<close>

definition io_ignore :: "('w, 'a, 'e) comp \<Rightarrow> ('w, unit, 'f) comp" where
  "io_ignore m = io_catch m (\<lambda>_. io_ret ()) (\<lambda>_. io_ret ())"

fun io_mapM :: "('a \<Rightarrow> ('w, 'b, 'e) comp) \<Rightarrow> 'a list \<Rightarrow> ('w, 'b list, 'e) comp" where
  "io_mapM f [] = io_ret []"
| "io_mapM f (x # xs) =
     io_bind (f x) (\<lambda>y. io_bind (io_mapM f xs) (\<lambda>ys. io_ret (y # ys)))"

text \<open>An operation on the first component of a paired state (a store seen by a visitor).\<close>

definition io_fst :: "('w, 'a, 'e) comp \<Rightarrow> ('w \<times> 'v, 'a, 'e) comp" where
  "io_fst m = (\<lambda>(w, v). case m w of (r, w') \<Rightarrow> (r, (w', v)))"

lemmas io_simps [io_defs] = io_lift_def io_ret_def io_err_def io_gets_def io_modify_def
  io_catch_def io_bind_def io_map_err_def io_ignore_def io_fst_def

lemma res_bind_simps [simp]:
  "res_bind (Ok x) f = f x" "res_bind (Err e) f = Err e" "res_bind Hang f = Hang"
  by (simp_all add: res_bind_def)

lemma res_bind_Ok_iff: "res_bind r f = Ok y \<longleftrightarrow> (\<exists>x. r = Ok x \<and> f x = Ok y)"
  by (cases r) auto

lemma res_mapM_Ok: "(\<And>x. x \<in> set xs \<Longrightarrow> f x = Ok (g x)) \<Longrightarrow> res_mapM f xs = Ok (map g xs)"
  by (induction xs) auto

lemma res_mapM_Ok_iff:
  "res_mapM f xs = Ok ys \<longleftrightarrow> list_all2 (\<lambda>x y. f x = Ok y) xs ys"
  by (induction xs arbitrary: ys) (auto simp: res_bind_Ok_iff list_all2_Cons1)

lemma res_mapM_Err: "res_mapM f xs = Err e \<Longrightarrow> \<exists>x \<in> set xs. f x = Err e"
proof (induction xs)
  case (Cons x xs)
  then show ?case by (cases "f x"; cases "res_mapM f xs") auto
qed simp

lemma res_mapM_not_Hang: "(\<And>x. x \<in> set xs \<Longrightarrow> f x \<noteq> Hang) \<Longrightarrow> res_mapM f xs \<noteq> Hang"
proof (induction xs)
  case (Cons x xs)
  then show ?case by (cases "f x"; cases "res_mapM f xs") auto
qed simp

lemma res_for_Ok_iff: "res_for f xs = Ok () \<longleftrightarrow> (\<forall>x \<in> set xs. f x = Ok ())"
  by (induction xs) (auto simp: res_bind_Ok_iff)

lemma res_for_Err:
  "res_for f xs = Err e \<Longrightarrow> \<exists>x \<in> set xs. f x = Err e"
proof (induction xs)
  case Nil
  then show ?case by simp
next
  case (Cons x xs)
  then show ?case by (cases "f x") auto
qed

lemma res_for_not_Hang: "(\<And>x. x \<in> set xs \<Longrightarrow> f x \<noteq> Hang) \<Longrightarrow> res_for f xs \<noteq> Hang"
proof (induction xs)
  case (Cons x xs)
  then show ?case by (cases "f x") auto
qed simp

lemma res_for_first_Err:
  assumes "x \<in> set xs" "f x = Err e" "\<And>y. y \<in> set xs \<Longrightarrow> f y \<noteq> Hang"
  shows "\<exists>y \<in> set xs. \<exists>e'. f y = Err e' \<and> res_for f xs = Err e'"
  using assms
proof (induction xs)
  case Nil
  then show ?case by simp
next
  case (Cons y ys)
  then show ?case by (cases "f y") auto
qed

subsection \<open>How the combinators compute\<close>

lemma io_bind_eq:
  "io_bind m f w = (case m w of (Ok x, w') \<Rightarrow> f x w' | (Err e, w') \<Rightarrow> (Err e, w')
     | (Hang, w') \<Rightarrow> (Hang, w'))"
  by (simp add: io_bind_def io_catch_def io_err_def cong: prod.case_cong result.case_cong)

lemma io_bind_Ok [simp]: "m w = (Ok x, w') \<Longrightarrow> io_bind m f w = f x w'"
  by (simp add: io_bind_eq)

lemma io_bind_Err [simp]: "m w = (Err e, w') \<Longrightarrow> io_bind m f w = (Err e, w')"
  by (simp add: io_bind_eq)

lemma io_bind_Hang [simp]: "m w = (Hang, w') \<Longrightarrow> io_bind m f w = (Hang, w')"
  by (simp add: io_bind_eq)

lemma io_catch_Ok [simp]: "m w = (Ok x, w') \<Longrightarrow> io_catch m f g w = f x w'"
  by (simp add: io_catch_def)

lemma io_catch_Err [simp]: "m w = (Err e, w') \<Longrightarrow> io_catch m f g w = g e w'"
  by (simp add: io_catch_def)

lemma io_catch_Hang [simp]: "m w = (Hang, w') \<Longrightarrow> io_catch m f g w = (Hang, w')"
  by (simp add: io_catch_def)

lemma io_prim_simps [simp]:
  "io_ret x w = (Ok x, w)" "io_err e w = (Err e, w)" "io_lift r w = (r, w)"
  "io_gets f w = (Ok (f w), w)" "io_modify h w = (Ok (), h w)"
  by (simp_all add: io_ret_def io_err_def io_lift_def io_gets_def io_modify_def)

lemma io_bind_assoc: "io_bind (io_bind m f) g = io_bind m (\<lambda>x. io_bind (f x) g)"
  by (rule ext) (simp add: io_bind_eq split: prod.split result.split)

lemma io_bind_OkE:
  assumes "io_bind m f w = (Ok y, w')"
  obtains x w1 where "m w = (Ok x, w1)" "f x w1 = (Ok y, w')"
  using assms by (auto simp: io_bind_eq split: prod.splits result.splits)

lemma io_bindE:
  assumes "io_bind m f w = (r, w')"
  obtains (ok) x w1 where "m w = (Ok x, w1)" "f x w1 = (r, w')"
  | (err) e where "m w = (Err e, w')" "r = Err e"
  | (hang) "m w = (Hang, w')" "r = Hang"
  using assms by (auto simp: io_bind_eq split: prod.splits result.splits)

lemma io_catchE:
  assumes "io_catch m f g w = (r, w')"
  obtains (ok) x w1 where "m w = (Ok x, w1)" "f x w1 = (r, w')"
  | (err) e w1 where "m w = (Err e, w1)" "g e w1 = (r, w')"
  | (hang) "m w = (Hang, w')" "r = Hang"
  using assms by (auto simp: io_catch_def split: prod.splits result.splits)

lemma io_map_err_Ok [simp]: "m w = (Ok x, w') \<Longrightarrow> io_map_err g m w = (Ok x, w')"
  by (simp add: io_map_err_def)

lemma io_map_err_Err [simp]: "m w = (Err e, w') \<Longrightarrow> io_map_err g m w = (Err (g e), w')"
  by (simp add: io_map_err_def)

lemma io_map_err_Hang [simp]: "m w = (Hang, w') \<Longrightarrow> io_map_err g m w = (Hang, w')"
  by (simp add: io_map_err_def)

lemma io_map_err_eq:
  "io_map_err g m w = (case m w of (Ok x, w') \<Rightarrow> (Ok x, w') | (Err e, w') \<Rightarrow> (Err (g e), w')
     | (Hang, w') \<Rightarrow> (Hang, w'))"
  by (simp add: io_map_err_def io_catch_def io_ret_def io_err_def
      cong: prod.case_cong result.case_cong)

lemma io_map_err_OkD: "io_map_err g m w = (Ok x, w') \<Longrightarrow> m w = (Ok x, w')"
  by (auto simp: io_map_err_eq split: prod.splits result.splits)

lemma io_ignore_eq:
  "io_ignore m w = (case m w of (Hang, w') \<Rightarrow> (Hang, w') | (_, w') \<Rightarrow> (Ok (), w'))"
  by (simp add: io_ignore_def io_catch_def io_ret_def split: prod.split result.split)

lemma io_fst_eq [simp]:
  "io_fst m (w, v) = (case m w of (r, w') \<Rightarrow> (r, (w', v)))"
  by (simp add: io_fst_def)

lemma io_mapM_Ok_length: "io_mapM f xs w = (Ok ys, w') \<Longrightarrow> length ys = length xs"
  by (induction xs arbitrary: ys w) (auto elim!: io_bind_OkE)

text \<open>The loop rule: an invariant that every successful or failing step keeps.\<close>

lemma io_mapM_inv:
  assumes step: "\<And>x w r w'. x \<in> set xs \<Longrightarrow> I w \<Longrightarrow> f x w = (r, w') \<Longrightarrow> I w'"
    and "I w" and "io_mapM f xs w = (r, w')"
  shows "I w'"
  using assms
proof (induction xs arbitrary: w r)
  case Nil
  then show ?case by simp
next
  case (Cons x xs)
  from Cons.prems(3) show ?case
    unfolding io_mapM.simps
  proof (cases rule: io_bindE)
    case (ok y w1)
    then have "I w1" using Cons.prems(1,2) by (metis list.set_intros(1))
    with ok(2) show ?thesis
    proof (cases rule: io_bindE)
      case (ok ys w2)
      with \<open>I w1\<close> Cons show ?thesis by (metis io_prim_simps(1) list.set_intros(2) prod.inject)
    qed (use \<open>I w1\<close> Cons in \<open>metis list.set_intros(2)\<close>)+
  qed (use Cons.prems(1,2) in \<open>metis list.set_intros(1)\<close>)+
qed

subsection \<open>Computations that leave the state alone\<close>

definition read_only :: "('w, 'a, 'e) comp \<Rightarrow> bool" where
  "read_only m \<longleftrightarrow> (\<forall>w. snd (m w) = w)"

named_theorems read_only_intros \<open>how read-only computations are composed\<close>

lemma read_only_eq: "read_only m \<Longrightarrow> m w = (r, w') \<Longrightarrow> w' = w"
  unfolding read_only_def by (metis snd_conv)

lemma read_only_prims [read_only_intros]:
  "read_only (io_ret x)" "read_only (io_err e)" "read_only (io_lift r)" "read_only (io_gets h)"
  by (simp_all add: read_only_def)

lemma read_only_catch [read_only_intros]:
  assumes "read_only m" "\<And>x. read_only (f x)" "\<And>e. read_only (g e)"
  shows "read_only (io_catch m f g)"
proof -
  have "snd (io_catch m f g w) = w" for w
  proof -
    obtain r w1 where m: "m w = (r, w1)" by (cases "m w")
    then have "w1 = w" by (rule read_only_eq [OF assms(1)])
    then show ?thesis
      using m assms(2,3) unfolding read_only_def by (cases r) (simp_all add: io_catch_def)
  qed
  then show ?thesis by (simp add: read_only_def)
qed

lemma read_only_bind [read_only_intros]:
  "read_only m \<Longrightarrow> (\<And>x. read_only (f x)) \<Longrightarrow> read_only (io_bind m f)"
  unfolding io_bind_def by (intro read_only_intros)

lemma read_only_map_err [read_only_intros]: "read_only m \<Longrightarrow> read_only (io_map_err g m)"
  unfolding io_map_err_def by (intro read_only_intros)

lemma read_only_if [read_only_intros]:
  "(b \<Longrightarrow> read_only m) \<Longrightarrow> (\<not> b \<Longrightarrow> read_only n) \<Longrightarrow> read_only (if b then m else n)"
  by simp

section \<open>Strings\<close>

text \<open>
  A Rust \<open>String\<close> is its UTF-8 bytes, one \<open>char\<close> of HOL per byte. The separators the code
  searches for are ASCII, so searching the bytes is searching the code points, and the byte order
  used by \<open>sort\<close> is the order of \<open>str\<close>.
\<close>

definition starts_with :: "string \<Rightarrow> string \<Rightarrow> bool" where
  "starts_with s p \<longleftrightarrow> take (length p) s = p"

definition ends_with :: "string \<Rightarrow> string \<Rightarrow> bool" where
  "ends_with s q \<longleftrightarrow> length q \<le> length s \<and> drop (length s - length q) s = q"

definition strip_prefix :: "string \<Rightarrow> string \<Rightarrow> string option" where
  "strip_prefix p s = (if starts_with s p then Some (drop (length p) s) else None)"

fun split_on :: "char \<Rightarrow> string \<Rightarrow> string list" where
  "split_on c [] = [[]]"
| "split_on c (x # xs) =
     (if x = c then [] # split_on c xs
      else (case split_on c xs of [] \<Rightarrow> [[x]] | y # ys \<Rightarrow> (x # y) # ys))"

fun join_with :: "char \<Rightarrow> string list \<Rightarrow> string" where
  "join_with c [] = []"
| "join_with c [x] = x"
| "join_with c (x # y # ys) = x @ c # join_with c (y # ys)"

definition squoted :: "string \<Rightarrow> string" where
  "squoted s = CHR 0x27 # s @ [CHR 0x27]"

lemma starts_with_iff: "starts_with s p \<longleftrightarrow> (\<exists>t. s = p @ t)"
  unfolding starts_with_def by (metis append_eq_conv_conj append_take_drop_id)

lemma ends_with_iff: "ends_with s q \<longleftrightarrow> (\<exists>t. s = t @ q)"
proof
  assume "ends_with s q"
  then have "s = take (length s - length q) s @ q"
    unfolding ends_with_def by (metis append_take_drop_id)
  then show "\<exists>t. s = t @ q" ..
qed (auto simp: ends_with_def)

lemma starts_with_append [simp]: "starts_with (p @ s) p"
  by (simp add: starts_with_def)

lemma ends_with_append [simp]: "ends_with (s @ q) q"
  by (auto simp: ends_with_iff)

lemma starts_with_Nil [simp]: "starts_with s []"
  by (simp add: starts_with_def)

lemma ends_with_Nil [simp]: "ends_with s []"
  by (simp add: ends_with_def)

lemma strip_prefix_append [simp]: "strip_prefix p (p @ s) = Some s"
  by (simp add: strip_prefix_def)

lemma strip_prefix_Some_iff: "strip_prefix p s = Some t \<longleftrightarrow> s = p @ t"
  by (auto simp: strip_prefix_def starts_with_iff)

lemma strip_prefix_None_iff: "strip_prefix p s = None \<longleftrightarrow> \<not> starts_with s p"
  by (simp add: strip_prefix_def)

lemma split_on_not_Nil [simp]: "split_on c s \<noteq> []"
  by (induction s) (auto split: list.splits)

lemma join_with_Cons: "ys \<noteq> [] \<Longrightarrow> join_with c (x # ys) = x @ c # join_with c ys"
  by (cases ys) auto

lemma join_with_hd: "join_with c ((x # y) # ys) = x # join_with c (y # ys)"
  by (cases ys) auto

lemma join_split [simp]: "join_with c (split_on c s) = s"
proof (induction s)
  case Nil
  then show ?case by simp
next
  case (Cons x s)
  then show ?case
    by (cases "split_on c s") (auto simp: join_with_hd join_with_Cons)
qed

lemma split_on_no_sep: "c \<notin> set s \<Longrightarrow> split_on c s = [s]"
  by (induction s) auto

lemma split_on_append: "c \<notin> set a \<Longrightarrow> split_on c (a @ c # s) = a # split_on c s"
  by (induction a) auto

lemma split_join [simp]:
  "cs \<noteq> [] \<Longrightarrow> \<forall>x \<in> set cs. c \<notin> set x \<Longrightarrow> split_on c (join_with c cs) = cs"
  by (induction c cs rule: join_with.induct) (auto simp: split_on_no_sep split_on_append)

lemma split_on_sep_free: "x \<in> set (split_on c s) \<Longrightarrow> c \<notin> set x"
proof (induction s arbitrary: x)
  case Nil
  then show ?case by simp
next
  case (Cons y s)
  then show ?case by (cases "split_on c s") (auto split: if_splits)
qed

lemma split_on_split: "split_on c (a @ c # b) = split_on c a @ split_on c b"
proof (induction a)
  case Nil
  then show ?case by simp
next
  case (Cons x a)
  then show ?case by (cases "split_on c a") auto
qed

lemma split_on_last: "split_on c (a @ b) =
    butlast (split_on c a) @ split_on c (last (split_on c a) @ b)"
proof (induction a)
  case Nil
  then show ?case by simp
next
  case (Cons x a)
  then show ?case by (cases "split_on c a"; cases "split_on c (a @ b)") (auto split: if_splits)
qed

lemma split_on_inj: "split_on c a = split_on c b \<Longrightarrow> a = b"
  by (metis join_split)

section \<open>Valid UTF-8\<close>

text \<open>
  \<open>std::str::from_utf8\<close> on byte values: the well-formed sequences of one to four bytes, without
  overlong forms and surrogates. A Rust \<open>String\<close> satisfies it by construction; a file name need
  not.
\<close>

definition utf8_cont :: "nat \<Rightarrow> bool" where
  "utf8_cont b \<longleftrightarrow> 128 \<le> b \<and> b \<le> 191"

definition utf8_lead2 :: "nat \<Rightarrow> bool" where
  "utf8_lead2 a \<longleftrightarrow> 194 \<le> a \<and> a \<le> 223"

definition utf8_lead3 :: "nat \<Rightarrow> nat \<Rightarrow> bool" where
  "utf8_lead3 a b \<longleftrightarrow> 224 \<le> a \<and> a \<le> 239 \<and> utf8_cont b \<and>
     (a = 224 \<longrightarrow> 160 \<le> b) \<and> (a = 237 \<longrightarrow> b \<le> 159)"

definition utf8_lead4 :: "nat \<Rightarrow> nat \<Rightarrow> bool" where
  "utf8_lead4 a b \<longleftrightarrow> 240 \<le> a \<and> a \<le> 244 \<and> utf8_cont b \<and>
     (a = 240 \<longrightarrow> 144 \<le> b) \<and> (a = 244 \<longrightarrow> b \<le> 143)"

fun utf8_values :: "nat list \<Rightarrow> bool" where
  "utf8_values [] = True"
| "utf8_values [a] = (a < 128)"
| "utf8_values [a, b] = (if a < 128 then utf8_values [b] else utf8_lead2 a \<and> utf8_cont b)"
| "utf8_values [a, b, c] =
     (if a < 128 then utf8_values [b, c]
      else if utf8_lead2 a then utf8_cont b \<and> utf8_values [c]
      else utf8_lead3 a b \<and> utf8_cont c)"
| "utf8_values (a # b # c # d # xs) =
     (if a < 128 then utf8_values (b # c # d # xs)
      else if utf8_lead2 a then utf8_cont b \<and> utf8_values (c # d # xs)
      else if 224 \<le> a \<and> a \<le> 239 then utf8_lead3 a b \<and> utf8_cont c \<and> utf8_values (d # xs)
      else utf8_lead4 a b \<and> utf8_cont c \<and> utf8_cont d \<and> utf8_values xs)"

definition utf8 :: "string \<Rightarrow> bool" where
  "utf8 s \<longleftrightarrow> utf8_values (map of_char s)"

end
