(* ===== verification/Errors.thy ===== *)
theory Errors
  imports Prelude
begin

text \<open>
  The error values of the two crates: \<open>error.rs\<close> of \<open>xtax-blob-storage\<close> and the error enum of
  \<open>xtax-encryption\<close>, with their \<open>Display\<close> texts and \<open>From\<close> conversions.

  \<open>std::io::Error\<close> is its \<open>ErrorKind\<close> and its text. A \<open>Box<dyn Error>\<close> source is one of the error
  types the two crates put there; an error of a foreign type is its text. An AWS SDK error is the
  service's error code, if it has one, and its text.
\<close>

section \<open>Error values of the standard library and the SDK\<close>

datatype io_kind =
    KNotFound | KPermissionDenied | KAlreadyExists | KNotADirectory | KIsADirectory
  | KUnexpectedEof | KOther

datatype io_error = IoError (io_error_kind: io_kind) (io_error_text: string)

datatype sdk_error = SdkError (sdk_service_code: "string option") (sdk_text: string)

section \<open>Encryption errors\<close>

text \<open>The type parameter is the cause that an \<open>Operation\<close> carries, a boxed error (\<open>dyn_error\<close> below).\<close>

datatype 'source encryption_error =
    Operation string "'source option"
  | InvalidHeader string
  | EncIo io_error

datatype dyn_error =
    DynIo io_error
  | DynSdk sdk_error
  | DynElapsed
  | DynJoin string
  | DynEncryption "dyn_error encryption_error"
  | DynText string

fun display_encryption_error :: "'source encryption_error \<Rightarrow> string" where
  "display_encryption_error (Operation message source) =
     ''encryption operation failed: '' @ message"
| "display_encryption_error (InvalidHeader s) = ''invalid encryption header: '' @ s"
| "display_encryption_error (EncIo e) = io_error_text e"

section \<open>Blob storage errors\<close>

datatype per_key_error =
    PkNotFound
  | PkPermissionDenied string
  | PkUnknown string

record key_error =
  ke_key :: string
  ke_error :: per_key_error

record batch_error =
  succeeded :: "string list"
  errors :: "key_error list"

datatype blob_storage_error =
    NotFound string
  | AlreadyExists string
  | NotSupported string
  | BackendMisconfigured string
  | InvalidInput string
  | Storage string "dyn_error option"
  | Encryption string "dyn_error option"
  | PermissionDenied string
  | Batch batch_error

type_synonym 'a res = "('a, blob_storage_error) result"
type_synonym ('w, 'a) io = "('w, 'a, blob_storage_error) comp"

definition total_count :: "batch_error \<Rightarrow> nat" where
  "total_count b = length (succeeded b) + length (errors b)"

definition failed_count :: "batch_error \<Rightarrow> nat" where
  "failed_count b = length (errors b)"

subsection \<open>Display\<close>

fun show_nat :: "nat \<Rightarrow> string" where
  "show_nat n =
     (if n < 10 then [char_of (48 + n)] else show_nat (n div 10) @ [char_of (48 + n mod 10)])"

declare show_nat.simps [simp del]

fun display_per_key_error :: "per_key_error \<Rightarrow> string" where
  "display_per_key_error PkNotFound = ''not found''"
| "display_per_key_error (PkPermissionDenied msg) = ''permission denied: '' @ msg"
| "display_per_key_error (PkUnknown message) = ''unknown: '' @ message"

definition display_batch_error :: "batch_error \<Rightarrow> string" where
  "display_batch_error b =
     ''batch operation failed: '' @ show_nat (failed_count b) @ '' keys failed ('' @
     show_nat (length (succeeded b)) @ '' succeeded, '' @ show_nat (total_count b) @ '' total)''"

fun display_error :: "blob_storage_error \<Rightarrow> string" where
  "display_error (NotFound s) = ''blob not found: '' @ s"
| "display_error (AlreadyExists s) = ''blob already exists: '' @ s"
| "display_error (NotSupported s) = ''operation not supported: '' @ s"
| "display_error (BackendMisconfigured s) = ''backend misconfigured: '' @ s"
| "display_error (InvalidInput s) = ''invalid input: '' @ s"
| "display_error (Storage message source) = ''storage error: '' @ message"
| "display_error (Encryption message source) = ''encryption error: '' @ message"
| "display_error (PermissionDenied s) = ''permission denied: '' @ s"
| "display_error (Batch b) = ''batch error: '' @ display_batch_error b"

subsection \<open>Conversions\<close>

definition from_io_error :: "io_error \<Rightarrow> blob_storage_error" where
  "from_io_error e = Storage ''I/O error'' (Some (DynIo e))"

definition from_string :: "string \<Rightarrow> blob_storage_error" where
  "from_string msg = Storage msg None"

definition from_encryption_error :: "dyn_error encryption_error \<Rightarrow> blob_storage_error" where
  "from_encryption_error e = Encryption (display_encryption_error e) (Some (DynEncryption e))"

text \<open>\<open>?\<close> on a \<open>std::io::Result\<close> inside a function that returns the crate's \<open>Result\<close>.\<close>

definition io_q :: "('w, 'a, io_error) comp \<Rightarrow> ('w, 'a) io" where
  "io_q m = io_map_err from_io_error m"

lemma io_q_Ok [simp]: "m w = (Ok x, w') \<Longrightarrow> io_q m w = (Ok x, w')"
  by (simp add: io_q_def)

lemma io_q_Err [simp]: "m w = (Err e, w') \<Longrightarrow> io_q m w = (Err (from_io_error e), w')"
  by (simp add: io_q_def)

lemma io_q_eq:
  "io_q m w = (case m w of (Ok x, w') \<Rightarrow> (Ok x, w') | (Err e, w') \<Rightarrow> (Err (from_io_error e), w')
     | (Hang, w') \<Rightarrow> (Hang, w'))"
  by (simp add: io_q_def io_map_err_eq)

lemma read_only_io_q [read_only_intros]: "read_only m \<Longrightarrow> read_only (io_q m)"
  unfolding io_q_def by (rule read_only_map_err)

end
