(* ===== verification/Types.thy ===== *)
theory Types
  imports Errors
begin

text \<open>
  \<open>types.rs\<close> and the streams it carries.

  An \<open>AsyncRead\<close> is a \<open>reader\<close>: the chunks it will deliver, in order, and how it ends: with end of
  file, with an I/O error, or never (a stalled peer). How the bytes are cut into chunks is the
  producer's choice, so a theorem about a consumer holds for every chunking.
\<close>

section \<open>Streams\<close>

datatype stream_end = Eof | Fails io_error | Stalls

record reader =
  rd_chunks :: "bytes list"
  rd_end :: stream_end

definition reader_of :: "bytes \<Rightarrow> reader" where
  "reader_of bs = \<lparr>rd_chunks = [bs], rd_end = Eof\<rparr>"

definition failing_reader :: "io_error \<Rightarrow> reader" where
  "failing_reader e = \<lparr>rd_chunks = [], rd_end = Fails e\<rparr>"

definition rd_bytes :: "reader \<Rightarrow> bytes" where
  "rd_bytes r = concat (rd_chunks r)"

text \<open>Reading a stream to its end (\<open>tokio::io::copy\<close>, \<open>read_to_end\<close>).\<close>

definition read_all :: "reader \<Rightarrow> (bytes, io_error) result" where
  "read_all r = (case rd_end r of Eof \<Rightarrow> Ok (rd_bytes r) | Fails e \<Rightarrow> Err e | Stalls \<Rightarrow> Hang)"

text \<open>
  One \<open>read\<close> into a buffer with room for \<open>cap\<close> bytes: at most one chunk, never more than fits,
  and no bytes exactly at end of file (a delivered chunk is not empty).
\<close>

fun read_chunk :: "nat \<Rightarrow> bytes list \<Rightarrow> stream_end \<Rightarrow> (bytes, io_error) result \<times> bytes list" where
  "read_chunk cap [] e = (case e of Eof \<Rightarrow> (Ok [], []) | Fails x \<Rightarrow> (Err x, []) | Stalls \<Rightarrow> (Hang, []))"
| "read_chunk cap (c # cs) e =
     (if c = [] then read_chunk cap cs e
      else (Ok (take cap c), if length c \<le> cap then cs else drop cap c # cs))"

definition read_buf :: "nat \<Rightarrow> reader \<Rightarrow> (bytes, io_error) result \<times> reader" where
  "read_buf cap r =
     (case read_chunk cap (rd_chunks r) (rd_end r) of (x, cs) \<Rightarrow> (x, r\<lparr>rd_chunks := cs\<rparr>))"

lemma rd_bytes_reader_of [simp]: "rd_bytes (reader_of bs) = bs"
  by (simp add: rd_bytes_def reader_of_def)

lemma read_all_reader_of [simp]: "read_all (reader_of bs) = Ok bs"
  by (simp add: read_all_def rd_bytes_def reader_of_def)

lemma read_all_Ok_iff: "read_all r = Ok bs \<longleftrightarrow> rd_end r = Eof \<and> rd_bytes r = bs"
  by (auto simp: read_all_def split: stream_end.splits)

lemma read_chunk_Ok:
  "read_chunk cap cs e = (Ok x, cs') \<Longrightarrow> x @ concat cs' = concat cs \<and> length x \<le> cap"
  by (induction cap cs e rule: read_chunk.induct) (auto split: if_splits stream_end.splits)

lemma read_chunk_progress:
  "read_chunk cap cs e = (Ok x, cs') \<Longrightarrow> 0 < cap \<Longrightarrow> x = [] \<longleftrightarrow> concat cs = [] \<and> e = Eof"
proof (induction cap cs e rule: read_chunk.induct)
  case (1 cap e)
  then show ?case by (cases e) simp_all
next
  case (2 cap c cs e)
  then show ?case by (cases "c = []") (simp, auto)
qed

lemma read_chunk_Err:
  "read_chunk cap cs e = (Err x, cs') \<Longrightarrow> e = Fails x \<and> concat cs = []"
proof (induction cap cs e rule: read_chunk.induct)
  case (1 cap e)
  then show ?case by (cases e) simp_all
next
  case (2 cap c cs e)
  then show ?case by (cases "c = []") simp_all
qed

lemma read_chunk_Hang:
  "read_chunk cap cs e = (Hang, cs') \<Longrightarrow> e = Stalls \<and> concat cs = []"
proof (induction cap cs e rule: read_chunk.induct)
  case (1 cap e)
  then show ?case by (cases e) simp_all
next
  case (2 cap c cs e)
  then show ?case by (cases "c = []") simp_all
qed

lemma read_buf_Ok:
  assumes "read_buf cap r = (Ok x, r')"
  shows "rd_bytes r = x @ rd_bytes r'" "length x \<le> cap" "rd_end r' = rd_end r"
    "0 < cap \<Longrightarrow> x = [] \<longleftrightarrow> rd_bytes r = [] \<and> rd_end r = Eof"
  using assms read_chunk_Ok [of cap "rd_chunks r" "rd_end r"]
    read_chunk_progress [of cap "rd_chunks r" "rd_end r"]
  by (auto simp: read_buf_def rd_bytes_def split: prod.splits)

lemma read_buf_not_Ok:
  "read_buf cap r = (Err e, r') \<Longrightarrow> rd_end r = Fails e \<and> rd_bytes r = []"
  "read_buf cap r = (Hang, r') \<Longrightarrow> rd_end r = Stalls \<and> rd_bytes r = []"
  using read_chunk_Err [of cap "rd_chunks r" "rd_end r"]
    read_chunk_Hang [of cap "rd_chunks r" "rd_end r"]
  by (auto simp: read_buf_def rd_bytes_def split: prod.splits)

section \<open>Keys, inputs and metadata\<close>

type_synonym key = string

text \<open>A chrono \<open>DateTime<Utc>\<close>: nanoseconds since the Unix epoch, which is its default value.\<close>

type_synonym datetime = int

definition default_datetime :: datetime where
  "default_datetime = 0"

definition KEY_SEPARATOR :: char where
  "KEY_SEPARATOR = CHR ''/''"

record blob_input =
  bi_key :: key
  bi_data :: reader
  bi_size_hint :: "u64 option"

definition blob_input_new :: "key \<Rightarrow> reader \<Rightarrow> blob_input" where
  "blob_input_new k d = \<lparr>bi_key = k, bi_data = d, bi_size_hint = None\<rparr>"

definition blob_input_with_size :: "key \<Rightarrow> reader \<Rightarrow> u64 \<Rightarrow> blob_input" where
  "blob_input_with_size k d sz = \<lparr>bi_key = k, bi_data = d, bi_size_hint = Some sz\<rparr>"

record blob_meta =
  bm_key :: key
  stored_size :: u64
  modified_at :: datetime
  etag :: "string option"

text \<open>\<open>BlobMeta::for_key\<close>; \<open>now\<close> is the value of \<open>Utc::now()\<close> at the call.\<close>

definition blob_meta_for_key :: "datetime \<Rightarrow> key \<Rightarrow> blob_meta" where
  "blob_meta_for_key now k = \<lparr>bm_key = k, stored_size = 0, modified_at = now, etag = None\<rparr>"

record put_result =
  pr_blobs :: "blob_meta list"

definition put_result_single :: "blob_meta \<Rightarrow> put_result" where
  "put_result_single m = \<lparr>pr_blobs = [m]\<rparr>"

definition put_result_multiple :: "blob_meta list \<Rightarrow> put_result" where
  "put_result_multiple ms = \<lparr>pr_blobs = ms\<rparr>"

record cleanup_result =
  cr_deleted_count :: u64

record rekey_result =
  rekeyed_count :: u64

text \<open>\<open>len() as u64\<close>.\<close>

definition len64 :: "'a list \<Rightarrow> u64" where
  "len64 xs = of_nat (length xs)"

end
