(* ===== verification/Validate.thy ===== *)
theory Validate
  imports Types
begin

text \<open>
  \<open>validate.rs\<close>: the key validation that every store runs before it touches storage, branch by
  branch and with its messages. \<open>valid_key\<close> is the specification: a path of non-empty components,
  none of them \<open>.\<close> or \<open>..\<close>, without a backslash.
\<close>

definition backslash :: char where
  "backslash = CHR 0x5C"

text \<open>The loop over \<open>key.split('/')\<close>: the first bad component decides the error.\<close>

fun validate_components :: "key \<Rightarrow> string list \<Rightarrow> unit res" where
  "validate_components key [] = Ok ()"
| "validate_components key (component # rest) =
     (if component = [] then
        Err (InvalidInput (''blob key must not contain empty components: '' @ squoted key))
      else if component = ''..'' \<or> component = ''.'' then
        Err (InvalidInput (''blob key must not contain '' @ squoted ''..'' @ '' or '' @
          squoted ''.'' @ '' components: '' @ squoted key))
      else validate_components key rest)"

definition validate_blob_key :: "key \<Rightarrow> unit res" where
  "validate_blob_key key =
     (if key = [] then Err (InvalidInput ''blob key must not be empty'')
      else if starts_with key [KEY_SEPARATOR] then
        Err (InvalidInput (''blob key must not start with '' @ squoted ''/'' @ '': '' @ squoted key))
      else if ends_with key [KEY_SEPARATOR] then
        Err (InvalidInput (''blob key must not end with '' @ squoted ''/'' @ '': '' @ squoted key))
      else if backslash \<in> set key then
        Err (InvalidInput (''blob key must not contain backslash: '' @ squoted key))
      else validate_components key (split_on KEY_SEPARATOR key))"

section \<open>Specification\<close>

definition good_component :: "string \<Rightarrow> bool" where
  "good_component c \<longleftrightarrow> c \<noteq> [] \<and> c \<noteq> ''.'' \<and> c \<noteq> ''..''"

abbreviation key_parts :: "key \<Rightarrow> string list" where
  "key_parts \<equiv> split_on KEY_SEPARATOR"

definition valid_key :: "key \<Rightarrow> bool" where
  "valid_key k \<longleftrightarrow> list_all good_component (key_parts k) \<and> backslash \<notin> set k"

lemma validate_components_Ok_iff:
  "validate_components k cs = Ok () \<longleftrightarrow> list_all good_component cs"
  by (induction k cs rule: validate_components.induct) (auto simp: good_component_def)

lemma validate_components_cases:
  "validate_components k cs = Ok () \<or> (\<exists>m. validate_components k cs = Err (InvalidInput m))"
  by (induction k cs rule: validate_components.induct) auto

lemma key_parts_start: "starts_with k [KEY_SEPARATOR] \<Longrightarrow> [] \<in> set (key_parts k)"
  by (auto simp: starts_with_iff)

lemma key_parts_append_sep: "key_parts (a @ [KEY_SEPARATOR]) = key_parts a @ [[]]"
proof (induction a)
  case Nil
  then show ?case by simp
next
  case (Cons x a)
  then show ?case by (cases "key_parts a") auto
qed

lemma key_parts_end: "ends_with k [KEY_SEPARATOR] \<Longrightarrow> [] \<in> set (key_parts k)"
  by (auto simp: ends_with_iff key_parts_append_sep)

lemma validate_Ok_iff: "validate_blob_key k = Ok () \<longleftrightarrow> valid_key k"
proof (cases "k = [] \<or> starts_with k [KEY_SEPARATOR] \<or> ends_with k [KEY_SEPARATOR]")
  case True
  then have "[] \<in> set (key_parts k)"
    using key_parts_start key_parts_end by auto
  then have "\<not> valid_key k"
    by (auto simp: valid_key_def list_all_iff good_component_def)
  with True show ?thesis by (auto simp: validate_blob_key_def)
next
  case False
  then show ?thesis
    by (simp add: validate_blob_key_def valid_key_def validate_components_Ok_iff)
qed

lemma validate_cases:
  "validate_blob_key k = Ok () \<or> (\<exists>m. validate_blob_key k = Err (InvalidInput m))"
  using validate_components_cases by (simp add: validate_blob_key_def)

lemma validate_not_Hang [simp]: "validate_blob_key k \<noteq> Hang"
  using validate_cases [of k] by auto

lemma validate_valid [simp]: "valid_key k \<Longrightarrow> validate_blob_key k = Ok ()"
  by (simp add: validate_Ok_iff)

lemma validate_invalid: "\<not> valid_key k \<Longrightarrow> \<exists>m. validate_blob_key k = Err (InvalidInput m)"
  using validate_cases [of k] by (auto simp: validate_Ok_iff)

text \<open>The batch loop \<open>for blob in &blobs { validate_blob_key(..)?; }\<close>.\<close>

lemma validate_all_valid:
  "\<forall>x \<in> set xs. valid_key (f x) \<Longrightarrow> res_for (\<lambda>x. validate_blob_key (f x)) xs = Ok ()"
  by (simp add: res_for_Ok_iff)

lemma validate_all_invalid:
  assumes "x \<in> set xs" "\<not> valid_key (f x)"
  shows "\<exists>m. res_for (\<lambda>x. validate_blob_key (f x)) xs = Err (InvalidInput m)"
proof -
  obtain m where "validate_blob_key (f x) = Err (InvalidInput m)"
    using validate_invalid assms(2) by blast
  then obtain y e where "res_for (\<lambda>x. validate_blob_key (f x)) xs = Err e"
      "validate_blob_key (f y) = Err e"
    using res_for_first_Err [of x xs "\<lambda>x. validate_blob_key (f x)"] assms(1) by auto
  then show ?thesis using validate_cases [of "f y"] by auto
qed

lemma validate_all_cases:
  "res_for (\<lambda>x. validate_blob_key (f x)) xs = Ok () \<and> (\<forall>x \<in> set xs. valid_key (f x))
   \<or> (\<exists>m. res_for (\<lambda>x. validate_blob_key (f x)) xs = Err (InvalidInput m)) \<and>
     (\<exists>x \<in> set xs. \<not> valid_key (f x))"
  using validate_all_invalid [of _ xs f] validate_all_valid [of xs f] by blast

lemma valid_key_not_Nil: "valid_key k \<Longrightarrow> k \<noteq> []"
  by (auto simp: valid_key_def good_component_def)

lemma key_parts_free: "c \<in> set (key_parts k) \<Longrightarrow> KEY_SEPARATOR \<notin> set c"
  by (rule split_on_sep_free)

end
