(* ===== verification/List_Filter.thy ===== *)
theory List_Filter
  imports Types
begin

text \<open>
  \<open>list_filter.rs\<close>: the \<open>ListFilter\<close> trait as a record of its two methods, and the built-in filters
  as values of it. A filter's hint is \<^emph>\<open>sound\<close> when every key it matches starts with the hint; the
  backends rely on that when they narrow a listing, and every built-in filter has it.
\<close>

record list_filter =
  matches :: "key \<Rightarrow> blob_meta option \<Rightarrow> bool"
  prefix_hint :: "string option"

text \<open>The trait's default method.\<close>

definition default_prefix_hint :: "string option" where
  "default_prefix_hint = None"

definition suffix_filter :: "string \<Rightarrow> list_filter" where
  "suffix_filter suf =
     \<lparr>matches = (\<lambda>key meta. ends_with key suf), prefix_hint = default_prefix_hint\<rparr>"

definition prefix_filter :: "string \<Rightarrow> list_filter" where
  "prefix_filter p = \<lparr>matches = (\<lambda>key meta. starts_with key p), prefix_hint = Some p\<rparr>"

definition not_filter :: "list_filter \<Rightarrow> list_filter" where
  "not_filter f =
     \<lparr>matches = (\<lambda>key meta. \<not> matches f key meta), prefix_hint = default_prefix_hint\<rparr>"

definition exclude_suffix :: "string \<Rightarrow> list_filter" where
  "exclude_suffix suf = not_filter (suffix_filter suf)"

section \<open>Properties of filters\<close>

definition hint_sound :: "list_filter \<Rightarrow> bool" where
  "hint_sound f \<longleftrightarrow>
     (\<forall>p. prefix_hint f = Some p \<longrightarrow> (\<forall>k m. matches f k m \<longrightarrow> starts_with k p))"

definition meta_free :: "list_filter \<Rightarrow> bool" where
  "meta_free f \<longleftrightarrow> (\<forall>k m. matches f k m = matches f k None)"

lemma filter_simps [simp]:
  "matches (suffix_filter s) k m = ends_with k s"
  "matches (prefix_filter p) k m = starts_with k p"
  "matches (not_filter f) k m = (\<not> matches f k m)"
  "prefix_hint (suffix_filter s) = None"
  "prefix_hint (prefix_filter p) = Some p"
  "prefix_hint (not_filter f) = None"
  by (simp_all add: suffix_filter_def prefix_filter_def not_filter_def default_prefix_hint_def)

lemma built_in_hint_sound [simp]:
  "hint_sound (suffix_filter s)" "hint_sound (prefix_filter p)" "hint_sound (not_filter f)"
  by (simp_all add: hint_sound_def)

lemma built_in_meta_free [simp]:
  "meta_free (suffix_filter s)" "meta_free (prefix_filter p)"
  "meta_free f \<Longrightarrow> meta_free (not_filter f)"
  by (simp_all add: meta_free_def)

end
