(* ===== verification/Blob_Store.thy ===== *)
theory Blob_Store
  imports Validate List_Filter
begin

text \<open>
  \<open>blob_store.rs\<close> and \<open>visitor.rs\<close>: the \<open>BlobStore\<close> trait as a record of its methods over a world
  \<open>'w\<close> (all the state a store and its peers can reach), its three default methods, and the contract
  that the trait's documentation promises, as locales.

  A visitor is a state machine of its own: it runs on the world paired with its private state \<open>'v\<close>,
  because the visitors of this crate call back into the store they are walking over.
\<close>

section \<open>The trait\<close>

type_synonym ('w, 'v) visitor = "key \<Rightarrow> blob_meta option \<Rightarrow> ('w \<times> 'v, bool) io"

record ('w, 'v) blob_store =
  bs_put :: "blob_input list \<Rightarrow> ('w, put_result) io"
  bs_get :: "key \<Rightarrow> ('w, reader) io"
  bs_delete :: "key list \<Rightarrow> ('w, unit) io"
  bs_list :: "list_filter \<Rightarrow> ('w, key list) io"
  bs_exists :: "key \<Rightarrow> ('w, bool) io"
  bs_get_with_metadata :: "key \<Rightarrow> ('w, blob_meta \<times> reader) io"
  bs_visit :: "list_filter \<Rightarrow> ('w, 'v) visitor \<Rightarrow> ('w \<times> 'v, unit) io"
  bs_list_with_metadata :: "list_filter \<Rightarrow> ('w, blob_meta list) io"

section \<open>Default methods\<close>

text \<open>\<open>now\<close> reads the clock of the world, for \<open>Utc::now()\<close>.\<close>

definition default_get_with_metadata ::
  "('w \<Rightarrow> datetime) \<Rightarrow> (key \<Rightarrow> ('w, reader) io) \<Rightarrow> key \<Rightarrow> ('w, blob_meta \<times> reader) io"
where
  "default_get_with_metadata now get k =
     io_bind (get k) (\<lambda>reader. io_bind (io_gets now) (\<lambda>t.
       io_ret (\<lparr>bm_key = k, stored_size = 0, modified_at = t, etag = None\<rparr>, reader)))"

fun visit_keys :: "('w, 'v) visitor \<Rightarrow> key list \<Rightarrow> ('w \<times> 'v, unit) io" where
  "visit_keys vis [] = io_ret ()"
| "visit_keys vis (k # ks) =
     io_bind (vis k None) (\<lambda>continue. if continue then visit_keys vis ks else io_ret ())"

definition default_visit ::
  "(list_filter \<Rightarrow> ('w, key list) io) \<Rightarrow> list_filter \<Rightarrow> ('w, 'v) visitor \<Rightarrow> ('w \<times> 'v, unit) io"
where
  "default_visit lst f vis = io_bind (io_fst (lst f)) (\<lambda>keys. visit_keys vis keys)"

definition default_list_with_metadata ::
  "('w \<Rightarrow> datetime) \<Rightarrow> (list_filter \<Rightarrow> ('w, key list) io) \<Rightarrow> list_filter \<Rightarrow> ('w, blob_meta list) io"
where
  "default_list_with_metadata now lst f =
     io_bind (lst f) (\<lambda>keys. io_bind (io_gets now) (\<lambda>t.
       io_ret (map (\<lambda>k. \<lparr>bm_key = k, stored_size = 0, modified_at = t, etag = None\<rparr>) keys)))"

text \<open>A loop that collects into a local variable, started with \<open>v\<close>.\<close>

definition with_acc :: "('w \<times> 'v, unit) io \<Rightarrow> 'v \<Rightarrow> ('w, 'v) io" where
  "with_acc m v = (\<lambda>w. case m (w, v) of (r, (w', v')) \<Rightarrow> (res_bind r (\<lambda>_. Ok v'), w'))"

lemma with_acc_Ok:
  "with_acc m v w = (Ok y, w') \<longleftrightarrow> m (w, v) = (Ok (), (w', y))"
  by (auto simp: with_acc_def res_bind_Ok_iff split: prod.splits)

lemma with_acc_state: "snd (with_acc m v w) = fst (snd (m (w, v)))"
  by (simp add: with_acc_def split: prod.splits)

text \<open>Computations that leave the world alone, whatever they collect.\<close>

definition keeps_fst :: "('w \<times> 'v, 'a, 'e) comp \<Rightarrow> bool" where
  "keeps_fst m \<longleftrightarrow> (\<forall>w v. fst (snd (m (w, v))) = w)"

named_theorems keeps_intros \<open>how computations that keep the first component compose\<close>

lemma keeps_prims [keeps_intros]:
  "keeps_fst (io_ret x)" "keeps_fst (io_err e)" "keeps_fst (io_lift r)" "keeps_fst (io_gets h)"
  by (simp_all add: keeps_fst_def)

lemma keeps_bind [keeps_intros]:
  assumes "keeps_fst m" "\<And>x. keeps_fst (f x)"
  shows "keeps_fst (io_bind m f)"
  unfolding keeps_fst_def
proof (intro allI)
  fix w v
  obtain r w1 v1 where m: "m (w, v) = (r, (w1, v1))" by (metis prod_cases3)
  then have "w1 = w" using assms(1) unfolding keeps_fst_def by (metis fst_conv snd_conv)
  then show "fst (snd (io_bind m f (w, v))) = w"
    using m assms(2) unfolding keeps_fst_def by (cases r) simp_all
qed

lemma keeps_fst_read_only [keeps_intros]: "read_only m \<Longrightarrow> keeps_fst (io_fst m)"
  unfolding keeps_fst_def read_only_def by (metis (no_types, lifting) case_prod_beta fst_conv io_fst_eq snd_conv)

lemma keeps_if [keeps_intros]: "keeps_fst m \<Longrightarrow> keeps_fst n \<Longrightarrow> keeps_fst (if b then m else n)"
  by simp

lemma with_acc_read_only: "keeps_fst m \<Longrightarrow> read_only (with_acc m v)"
  by (simp add: keeps_fst_def read_only_def with_acc_state)

section \<open>What a batch of inputs stores\<close>

fun put_blobs :: "blob_input list \<Rightarrow> (key \<Rightarrow> bytes option) \<Rightarrow> key \<Rightarrow> bytes option" where
  "put_blobs [] m = m"
| "put_blobs (b # bs) m = put_blobs bs (m(bi_key b \<mapsto> rd_bytes (bi_data b)))"

lemma put_blobs_other: "k \<notin> bi_key ` set bs \<Longrightarrow> put_blobs bs m k = m k"
  by (induction bs arbitrary: m) auto

lemma dom_put_blobs: "dom (put_blobs bs m) = dom m \<union> bi_key ` set bs"
  by (induction bs arbitrary: m) auto

lemma put_blobs_append: "put_blobs (as @ bs) m = put_blobs bs (put_blobs as m)"
  by (induction as arbitrary: m) auto

lemma put_blobs_cong: "m k = m' k \<Longrightarrow> put_blobs bs m k = put_blobs bs m' k"
proof (induction bs arbitrary: m m')
  case (Cons b bs)
  show ?case unfolding put_blobs.simps by (rule Cons.IH) (simp add: Cons.prems)
qed simp

lemma put_blobs_missing: "m' k = None \<Longrightarrow> put_blobs bs m' k = put_blobs bs m k \<or> put_blobs bs m' k = None"
proof (induction bs arbitrary: m m')
  case (Cons b bs)
  show ?case
  proof (cases "k = bi_key b")
    case True
    show ?thesis unfolding put_blobs.simps by (intro disjI1 put_blobs_cong) (simp add: True)
  next
    case False
    show ?thesis unfolding put_blobs.simps by (rule Cons.IH) (simp add: False Cons.prems)
  qed
qed simp

section \<open>Loops over the keys of a store\<close>

text \<open>
  The proof rule for every loop that hands out keys (\<open>visit\<close> and the loops behind the listings).
  \<open>J vs w v\<close> is the client's loop invariant, where \<open>vs\<close> are the keys handed out so far; \<open>call c k\<close> is
  the loop's body for key \<open>k\<close> in a context \<open>c\<close> (a path, or the metadata); \<open>T\<close> is what holds when the
  body stops the loop, by its answer or by an error. The body is only ever called for a key that is
  stored, that matches, and that was not handed out before.
\<close>

definition loop_ok ::
  "('w \<Rightarrow> bool) \<Rightarrow> ('w \<Rightarrow> key \<Rightarrow> bytes option) \<Rightarrow> (key \<Rightarrow> bool) \<Rightarrow> (key \<Rightarrow> 'c \<Rightarrow> bool) \<Rightarrow>
   ('c \<Rightarrow> key \<Rightarrow> ('w \<times> 'v, bool) io) \<Rightarrow> (key list \<Rightarrow> 'w \<Rightarrow> 'v \<Rightarrow> bool) \<Rightarrow>
   (bool res \<Rightarrow> 'w \<Rightarrow> 'v \<Rightarrow> bool) \<Rightarrow> bool"
where
  "loop_ok Inv blobs P C call J T \<longleftrightarrow>
     (\<forall>vs w v. J vs w v \<longrightarrow> Inv w) \<and>
     (\<forall>vs w v k c x w' v'. J vs w v \<longrightarrow> k \<notin> set vs \<longrightarrow> blobs w k \<noteq> None \<longrightarrow> P k \<longrightarrow> C k c \<longrightarrow>
        call c k (w, v) = (x, (w', v')) \<longrightarrow>
        (if x = Ok True then J (vs @ [k]) w' v' else T x w' v'))"

text \<open>
  The matching keys that, by the invariant, stay in the store until they are handed out: the loop
  cannot miss them, whatever else the body adds or removes.
\<close>

definition tracked ::
  "('w \<Rightarrow> key \<Rightarrow> bytes option) \<Rightarrow> (key \<Rightarrow> bool) \<Rightarrow> (key list \<Rightarrow> 'w \<Rightarrow> 'v \<Rightarrow> bool) \<Rightarrow> key set"
where
  "tracked blobs P J = {k. P k \<and> (\<forall>vs w v. J vs w v \<longrightarrow> k \<notin> set vs \<longrightarrow> blobs w k \<noteq> None)}"

text \<open>What the rule gives at the end.\<close>

definition loop_end ::
  "('w \<Rightarrow> key \<Rightarrow> bytes option) \<Rightarrow> (key \<Rightarrow> bool) \<Rightarrow> (key list \<Rightarrow> 'w \<Rightarrow> 'v \<Rightarrow> bool) \<Rightarrow>
   (bool res \<Rightarrow> 'w \<Rightarrow> 'v \<Rightarrow> bool) \<Rightarrow> unit res \<Rightarrow> 'w \<Rightarrow> 'v \<Rightarrow> bool"
where
  "loop_end blobs P J T r w v \<longleftrightarrow>
     (\<exists>vs. J vs w v \<and> (r = Ok () \<longrightarrow> tracked blobs P J \<subseteq> set vs)) \<or>
     (\<exists>x. T x w v \<and> x \<noteq> Ok True \<and> r = res_bind x (\<lambda>_. Ok ()))"

lemma trackedD: "k \<in> tracked blobs P J \<Longrightarrow> J vs w v \<Longrightarrow> k \<notin> set vs \<Longrightarrow> blobs w k \<noteq> None \<and> P k"
  unfolding tracked_def by blast

lemma loop_okI [intro?]:
  assumes "\<And>vs w v. J vs w v \<Longrightarrow> Inv w"
    and "\<And>vs w v k c w' v'. J vs w v \<Longrightarrow> k \<notin> set vs \<Longrightarrow> blobs w k \<noteq> None \<Longrightarrow> P k \<Longrightarrow> C k c \<Longrightarrow>
      call c k (w, v) = (Ok True, (w', v')) \<Longrightarrow> J (vs @ [k]) w' v'"
    and "\<And>vs w v k c x w' v'. J vs w v \<Longrightarrow> k \<notin> set vs \<Longrightarrow> blobs w k \<noteq> None \<Longrightarrow> P k \<Longrightarrow> C k c \<Longrightarrow>
      call c k (w, v) = (x, (w', v')) \<Longrightarrow> x \<noteq> Ok True \<Longrightarrow> T x w' v'"
  shows "loop_ok Inv blobs P C call J T"
  unfolding loop_ok_def
proof (intro conjI allI impI)
  show "J vs w v \<Longrightarrow> Inv w" for vs w v by (rule assms(1))
  show "if x = Ok True then J (vs @ [k]) w' v' else T x w' v'"
    if "J vs w v" "k \<notin> set vs" "blobs w k \<noteq> None" "P k" "C k c" "call c k (w, v) = (x, (w', v'))"
    for vs w v k c x w' v'
    using assms(2) [OF that(1-5), of w' v'] assms(3) [OF that] that(6) by simp
qed

lemma loop_okD:
  assumes "loop_ok Inv blobs P C call J T" "J vs w v"
  shows "Inv w"
    and "k \<notin> set vs \<Longrightarrow> blobs w k \<noteq> None \<Longrightarrow> P k \<Longrightarrow> C k c \<Longrightarrow> call c k (w, v) = (x, (w', v')) \<Longrightarrow>
      (if x = Ok True then J (vs @ [k]) w' v' else T x w' v')"
  using assms unfolding loop_ok_def by blast+

lemma loop_end_const:
  assumes "loop_end blobs P (\<lambda>vs w v. I vs v \<and> w = start) (\<lambda>_ _ _. False) r w v"
  shows "w = start \<and> (r = Ok () \<longrightarrow> (\<exists>vs. I vs v \<and> (\<forall>k \<in> dom (blobs start). P k \<longrightarrow> k \<in> set vs)))"
  using assms by (auto simp: loop_end_def tracked_def)

abbreviation meta_for :: "key \<Rightarrow> blob_meta option \<Rightarrow> bool" where
  "meta_for k c \<equiv> (\<forall>b. c = Some b \<longrightarrow> bm_key b = k)"

section \<open>The contract\<close>

text \<open>
  \<open>blob_ops\<close> has the laws of every method but \<open>visit\<close>. \<open>blob_contract\<close> adds the loop rule for a store
  that looks at each key when it hands it out. A store that hands out a page of keys it has read
  before only satisfies the rule of \<open>steady_contract\<close>: for visitors that do not remove keys they have
  not been handed yet.

  \<open>blobs w\<close> is what the store holds in world \<open>w\<close>, as a map from keys to contents; \<open>inv\<close> is the
  store's invariant on the world; \<open>ok\<close> are the keys it accepts, \<open>text_ok\<close> the keys that the
  platform can hand out again as text, \<open>filter_ok\<close> the filters whose hint it can use.
  Everything is stated for the operation's own result, so a store that fails at any point satisfies
  it as long as it fails the way the trait promises.
\<close>

locale blob_ops =
  fixes st :: "('w, 'v) blob_store"
    and inv :: "'w \<Rightarrow> bool"
    and blobs :: "'w \<Rightarrow> key \<Rightarrow> bytes option"
    and ok :: "key \<Rightarrow> bool"
    and text_ok :: "key \<Rightarrow> bool"
    and filter_ok :: "list_filter \<Rightarrow> bool"
  assumes ok_valid: "ok k \<Longrightarrow> valid_key k"
    and put_invalid:
      "b \<in> set bs \<Longrightarrow> \<not> ok (bi_key b) \<Longrightarrow> \<exists>m. bs_put st bs w = (Err (InvalidInput m), w)"
    and put_done:
      "inv w \<Longrightarrow> \<forall>b \<in> set bs. text_ok (bi_key b) \<Longrightarrow> bs_put st bs w = (Ok res, w') \<Longrightarrow>
       inv w' \<and> blobs w' = put_blobs bs (blobs w) \<and> (\<forall>b \<in> set bs. rd_end (bi_data b) = Eof) \<and>
       map bm_key (pr_blobs res) = map bi_key bs"
    and put_frame:
      "inv w \<Longrightarrow> \<forall>b \<in> set bs. text_ok (bi_key b) \<Longrightarrow> bs_put st bs w = (pr, w') \<Longrightarrow>
       k \<notin> bi_key ` set bs \<Longrightarrow> blobs w' k = blobs w k"
    and get_found:
      "inv w \<Longrightarrow> ok k \<Longrightarrow> blobs w k = Some d \<Longrightarrow> bs_get st k w = (gr, w') \<Longrightarrow>
       \<exists>rd. gr = Ok rd \<and> read_all rd = Ok d"
    and get_sound:
      "inv w \<Longrightarrow> bs_get st k w = (Ok rd, w') \<Longrightarrow> read_all rd = Ok d \<Longrightarrow> blobs w k = Some d"
    and get_frame:
      "inv w \<Longrightarrow> bs_get st k w = (gr, w') \<Longrightarrow> inv w' \<and> blobs w' = blobs w"
    and exists_iff:
      "inv w \<Longrightarrow> ok k \<Longrightarrow> bs_exists st k w = (er, w') \<Longrightarrow> er = Ok (blobs w k \<noteq> None)"
    and exists_sound:
      "inv w \<Longrightarrow> bs_exists st k w = (Ok ex, w') \<Longrightarrow> ex = (blobs w k \<noteq> None)"
    and exists_frame:
      "inv w \<Longrightarrow> bs_exists st k w = (er, w') \<Longrightarrow> inv w' \<and> blobs w' = blobs w"
    and delete_invalid:
      "k \<in> set ks \<Longrightarrow> \<not> ok k \<Longrightarrow> \<exists>m. bs_delete st ks w = (Err (InvalidInput m), w)"
    and delete_done:
      "inv w \<Longrightarrow> bs_delete st ks w = (Ok (), w') \<Longrightarrow> blobs w' = (blobs w) |` (- set ks)"
    and delete_batch:
      "inv w \<Longrightarrow> bs_delete st ks w = (Err (Batch be), w') \<Longrightarrow>
       (\<forall>k \<in> set (succeeded be). k \<in> set ks \<and> blobs w' k = None) \<and>
       (\<forall>e \<in> set (errors be). ke_key e \<in> set ks) \<and>
       (\<forall>k \<in> set ks. k \<in> set (succeeded be) \<or> k \<in> ke_key ` set (errors be))"
    and delete_frame:
      "inv w \<Longrightarrow> bs_delete st ks w = (dr, w') \<Longrightarrow>
       inv w' \<and> (\<forall>k. blobs w' k = blobs w k \<or> k \<in> set ks \<and> blobs w' k = None)"
    and list_done:
      "inv w \<Longrightarrow> filter_ok f \<Longrightarrow> bs_list st f w = (Ok ks, w') \<Longrightarrow>
       sorted ks \<and> distinct ks \<and> set ks = {k \<in> dom (blobs w). matches f k None}"
    and list_frame:
      "inv w \<Longrightarrow> bs_list st f w = (lr, w') \<Longrightarrow> inv w' \<and> blobs w' = blobs w"
    and gwm_found:
      "inv w \<Longrightarrow> ok k \<Longrightarrow> blobs w k = Some d \<Longrightarrow> bs_get_with_metadata st k w = (mr, w') \<Longrightarrow>
       \<exists>m rd. mr = Ok (m, rd) \<and> bm_key m = k \<and> read_all rd = Ok d"
    and gwm_frame:
      "inv w \<Longrightarrow> bs_get_with_metadata st k w = (mr, w') \<Longrightarrow> inv w' \<and> blobs w' = blobs w"
    and lwm_done:
      "inv w \<Longrightarrow> filter_ok f \<Longrightarrow> meta_free f \<Longrightarrow> bs_list_with_metadata st f w = (Ok ms, w') \<Longrightarrow>
       sorted (map bm_key ms) \<and> distinct (map bm_key ms) \<and>
       bm_key ` set ms = {k \<in> dom (blobs w). matches f k None}"
    and lwm_frame:
      "inv w \<Longrightarrow> bs_list_with_metadata st f w = (nr, w') \<Longrightarrow> inv w' \<and> blobs w' = blobs w"
begin

text \<open>What a client of the trait may conclude.\<close>

lemma put_get_roundtrip:
  assumes "inv w" "\<forall>b \<in> set bs. text_ok (bi_key b)" "bs_put st bs w = (Ok res, w1)"
    and "put_blobs bs (blobs w) k = Some d" "ok k" "bs_get st k w1 = (r, w2)"
  shows "\<exists>rd. r = Ok rd \<and> read_all rd = Ok d"
  using get_found [of w1 k d r w2] put_done [OF assms(1-3)] assms(4-6) by simp

lemma put_lists_keys:
  assumes "inv w" "\<forall>b \<in> set bs. text_ok (bi_key b)" "bs_put st bs w = (Ok res, w1)"
    and "filter_ok f" "bs_list st f w1 = (Ok ks, w2)" "b \<in> set bs" "matches f (bi_key b) None"
  shows "bi_key b \<in> set ks"
proof -
  have "blobs w1 = put_blobs bs (blobs w)" "inv w1"
    using put_done [OF assms(1-3)] by auto
  moreover have "bi_key b \<in> dom (put_blobs bs (blobs w))"
    using assms(6) by (simp add: dom_put_blobs)
  ultimately show ?thesis
    using list_done [OF _ assms(4,5)] assms(7) by auto
qed

lemma delete_then_absent:
  assumes "inv w" "bs_delete st ks w = (Ok (), w1)" "k \<in> set ks" "ok k"
    and "bs_exists st k w1 = (r, w2)"
  shows "r = Ok False"
proof -
  have "inv w1" and "blobs w1 k = None"
    using delete_frame [OF assms(1,2)] delete_done [OF assms(1,2)] assms(3) by auto
  then show ?thesis using exists_iff [of w1 k r w2] assms(4,5) by simp
qed

lemma put_rejected_unchanged:
  "b \<in> set bs \<Longrightarrow> \<not> ok (bi_key b) \<Longrightarrow> snd (bs_put st bs w) = w"
  using put_invalid [of b bs w] by auto

end

text \<open>
  A client's loop invariant under which no key within the filter's hint disappears before it is
  handed out.
\<close>

definition hinted :: "list_filter \<Rightarrow> key \<Rightarrow> bool" where
  "hinted f k \<longleftrightarrow> (\<forall>p. prefix_hint f = Some p \<longrightarrow> starts_with k p)"

definition steady ::
  "(key \<Rightarrow> bool) \<Rightarrow> ('w \<Rightarrow> key \<Rightarrow> bytes option) \<Rightarrow> (key list \<Rightarrow> 'w \<Rightarrow> 'v \<Rightarrow> bool) \<Rightarrow> bool"
where
  "steady P blobs J \<longleftrightarrow>
     (\<forall>vs ks w v w' v' k. J vs w v \<longrightarrow> J (vs @ ks) w' v' \<longrightarrow> P k \<longrightarrow> k \<notin> set (vs @ ks) \<longrightarrow>
        blobs w k \<noteq> None \<longrightarrow> blobs w' k \<noteq> None)"

lemma steadyD:
  "steady P blobs J \<Longrightarrow> J vs w v \<Longrightarrow> J (vs @ ks) w' v' \<Longrightarrow> P k \<Longrightarrow> k \<notin> set (vs @ ks) \<Longrightarrow>
   blobs w k \<noteq> None \<Longrightarrow> blobs w' k \<noteq> None"
  unfolding steady_def by metis

locale steady_contract = blob_ops +
  assumes steady_visit_rule:
      "loop_ok inv blobs (\<lambda>k. matches f k None) meta_for (\<lambda>c k. vis k c) J T \<Longrightarrow>
       steady (hinted f) blobs J \<Longrightarrow>
       filter_ok f \<Longrightarrow> meta_free f \<Longrightarrow>
       J [] w v \<Longrightarrow> bs_visit st f vis (w, v) = (vr, (w', v')) \<Longrightarrow>
       loop_end blobs (\<lambda>k. matches f k None) J T vr w' v'"

locale blob_contract = blob_ops +
  assumes visit_rule:
      "loop_ok inv blobs (\<lambda>k. matches f k None) meta_for (\<lambda>c k. vis k c) J T \<Longrightarrow> filter_ok f \<Longrightarrow>
       meta_free f \<Longrightarrow>
       J [] w v \<Longrightarrow> bs_visit st f vis (w, v) = (vr, (w', v')) \<Longrightarrow>
       loop_end blobs (\<lambda>k. matches f k None) J T vr w' v'"

sublocale blob_contract \<subseteq> steady: steady_contract
  by unfold_locales (rule visit_rule)

context blob_contract
begin

lemma is_steady: "steady_contract st inv blobs ok text_ok filter_ok"
  by unfold_locales

end

text \<open>A store whose invariant also survives a failed write: what a layer above it can build on.\<close>

locale robust_ops = blob_ops +
  assumes put_inv:
    "inv w \<Longrightarrow> \<forall>b \<in> set bs. text_ok (bi_key b) \<Longrightarrow> bs_put st bs w = (r, w') \<Longrightarrow> inv w'"

locale robust_contract = robust_ops + blob_contract

end
