(* ===== verification/Prefix.thy ===== *)
theory Prefix
  imports Blob_Store
begin

text \<open>
  The prefix layer, \<open>prefix.rs\<close>: a store that prepends a prefix to every key on the way in and strips
  it on the way out. The locale \<open>prefix_layer\<close> shows that it meets the contract whenever the inner
  store does, with the blobs of the inner store read under the prefix.
\<close>

section \<open>The layer\<close>

definition combined_full :: "string \<Rightarrow> list_filter \<Rightarrow> string" where
  "combined_full store_prefix f =
     (let hint = (case prefix_hint f of Some h \<Rightarrow> h | None \<Rightarrow> []) in
      if hint = [] then store_prefix else store_prefix @ hint)"

definition combined_prefix_filter :: "string \<Rightarrow> list_filter \<Rightarrow> list_filter" where
  "combined_prefix_filter store_prefix f =
     \<lparr>matches = (\<lambda>key meta. starts_with key (combined_full store_prefix f)),
      prefix_hint = Some (combined_full store_prefix f)\<rparr>"

record ('w, 'v) prefix_blob_store =
  pbs_inner :: "('w, 'v) blob_store"
  pbs_prefix :: string

definition prefixed :: "string \<Rightarrow> key \<Rightarrow> key res" where
  "prefixed p key =
     res_bind (validate_blob_key key) (\<lambda>_.
     res_bind (validate_blob_key (p @ key)) (\<lambda>_. Ok (p @ key)))"

definition map_error :: "key \<Rightarrow> blob_storage_error \<Rightarrow> blob_storage_error" where
  "map_error logical_key err =
     (case err of NotFound _ \<Rightarrow> NotFound logical_key | other \<Rightarrow> other)"

definition strip_key_error :: "string \<Rightarrow> key_error \<Rightarrow> key_error" where
  "strip_key_error p ke =
     (case strip_prefix p (ke_key ke) of Some s \<Rightarrow> ke\<lparr>ke_key := s\<rparr> | None \<Rightarrow> ke)"

definition map_batch_error :: "string \<Rightarrow> blob_storage_error \<Rightarrow> blob_storage_error" where
  "map_batch_error p err =
     (case err of
        Batch b \<Rightarrow> Batch \<lparr>succeeded = List.map_filter (strip_prefix p) (succeeded b),
                         errors = map (strip_key_error p) (errors b)\<rparr>
      | other \<Rightarrow> other)"

definition strip_meta :: "string \<Rightarrow> blob_meta \<Rightarrow> blob_meta" where
  "strip_meta p m = (case strip_prefix p (bm_key m) of Some s \<Rightarrow> m\<lparr>bm_key := s\<rparr> | None \<Rightarrow> m)"

text \<open>\<open>PrefixVisitor::visit\<close>.\<close>

definition prefix_visitor ::
  "string \<Rightarrow> list_filter \<Rightarrow> ('w, 'v) visitor \<Rightarrow> ('w, 'v) visitor"
where
  "prefix_visitor p f inner key meta =
     (case strip_prefix p key of
        Some stripped \<Rightarrow>
          (let stripped_meta = map_option (\<lambda>m.
                 \<lparr>bm_key = (case strip_prefix p (bm_key m) of Some s \<Rightarrow> s | None \<Rightarrow> []),
                  stored_size = stored_size m, modified_at = modified_at m, etag = etag m\<rparr>) meta in
           if matches f stripped stripped_meta then inner stripped stripped_meta
           else io_ret True)
      | None \<Rightarrow> io_ret True)"

section \<open>The operations\<close>

definition prefix_put ::
  "('w, 'v) prefix_blob_store \<Rightarrow> blob_input list \<Rightarrow> ('w, put_result) io"
where
  "prefix_put self blobs =
     io_bind (io_lift (res_mapM (\<lambda>b. res_bind (prefixed (pbs_prefix self) (bi_key b)) (\<lambda>k.
        Ok \<lparr>bi_key = k, bi_data = bi_data b, bi_size_hint = bi_size_hint b\<rparr>)) blobs)) (\<lambda>pfx.
     io_bind (bs_put (pbs_inner self) pfx) (\<lambda>result.
     io_ret \<lparr>pr_blobs = map (strip_meta (pbs_prefix self)) (pr_blobs result)\<rparr>))"

definition prefix_get :: "('w, 'v) prefix_blob_store \<Rightarrow> key \<Rightarrow> ('w, reader) io" where
  "prefix_get self key =
     io_bind (io_lift (prefixed (pbs_prefix self) key)) (\<lambda>pfx.
     io_map_err (map_error key) (bs_get (pbs_inner self) pfx))"

definition prefix_delete :: "('w, 'v) prefix_blob_store \<Rightarrow> key list \<Rightarrow> ('w, unit) io" where
  "prefix_delete self keys =
     io_bind (io_lift (res_mapM (prefixed (pbs_prefix self)) keys)) (\<lambda>pfx.
     io_map_err (map_batch_error (pbs_prefix self)) (bs_delete (pbs_inner self) pfx))"

definition prefix_list :: "('w, 'v) prefix_blob_store \<Rightarrow> list_filter \<Rightarrow> ('w, key list) io" where
  "prefix_list self f =
     io_bind (bs_list (pbs_inner self) (combined_prefix_filter (pbs_prefix self) f)) (\<lambda>keys.
     io_ret (filter (\<lambda>k. matches f k None) (List.map_filter (strip_prefix (pbs_prefix self)) keys)))"

definition prefix_visit ::
  "('w, 'v) prefix_blob_store \<Rightarrow> list_filter \<Rightarrow> ('w, 'v) visitor \<Rightarrow> ('w \<times> 'v, unit) io"
where
  "prefix_visit self f vis =
     bs_visit (pbs_inner self) (combined_prefix_filter (pbs_prefix self) f)
       (prefix_visitor (pbs_prefix self) f vis)"

definition prefix_exists :: "('w, 'v) prefix_blob_store \<Rightarrow> key \<Rightarrow> ('w, bool) io" where
  "prefix_exists self key =
     io_bind (io_lift (prefixed (pbs_prefix self) key)) (\<lambda>pfx.
     io_map_err (map_error key) (bs_exists (pbs_inner self) pfx))"

definition prefix_get_with_metadata ::
  "('w, 'v) prefix_blob_store \<Rightarrow> key \<Rightarrow> ('w, blob_meta \<times> reader) io"
where
  "prefix_get_with_metadata self key =
     io_bind (io_lift (prefixed (pbs_prefix self) key)) (\<lambda>pfx.
     io_bind (io_map_err (map_error key) (bs_get_with_metadata (pbs_inner self) pfx)) (\<lambda>(meta, reader).
     io_ret (strip_meta (pbs_prefix self) meta, reader)))"

definition prefix_list_with_metadata ::
  "('w, 'v) prefix_blob_store \<Rightarrow> list_filter \<Rightarrow> ('w, blob_meta list) io"
where
  "prefix_list_with_metadata self f =
     io_bind (bs_list_with_metadata (pbs_inner self) (combined_prefix_filter (pbs_prefix self) f))
       (\<lambda>metas. io_ret (List.map_filter (\<lambda>meta.
          case strip_prefix (pbs_prefix self) (bm_key meta) of
            Some stripped \<Rightarrow>
              (let meta = meta\<lparr>bm_key := stripped\<rparr> in
               if matches f (bm_key meta) (Some meta) then Some meta else None)
          | None \<Rightarrow> None) metas))"

text \<open>\<open>impl BlobStore for PrefixBlobStore\<close>.\<close>

definition prefix_store :: "('w, 'v) blob_store \<Rightarrow> string \<Rightarrow> ('w, 'v) blob_store" where
  "prefix_store inner p =
     (let self = \<lparr>pbs_inner = inner, pbs_prefix = p\<rparr> in
      \<lparr>bs_put = prefix_put self, bs_get = prefix_get self, bs_delete = prefix_delete self,
       bs_list = prefix_list self, bs_exists = prefix_exists self,
       bs_get_with_metadata = prefix_get_with_metadata self,
       bs_visit = prefix_visit self,
       bs_list_with_metadata = prefix_list_with_metadata self\<rparr>)"

section \<open>Keys under a prefix\<close>

definition prefix_ok :: "string \<Rightarrow> (key \<Rightarrow> bool) \<Rightarrow> key \<Rightarrow> bool" where
  "prefix_ok p ok k \<longleftrightarrow> valid_key k \<and> ok (p @ k)"

definition prefix_blobs :: "string \<Rightarrow> ('w \<Rightarrow> key \<Rightarrow> bytes option) \<Rightarrow> 'w \<Rightarrow> key \<Rightarrow> bytes option" where
  "prefix_blobs p blobs w k = blobs w (p @ k)"

definition prefix_filter_ok :: "string \<Rightarrow> (list_filter \<Rightarrow> bool) \<Rightarrow> list_filter \<Rightarrow> bool" where
  "prefix_filter_ok p filter_ok f \<longleftrightarrow> hint_sound f \<and> filter_ok (combined_prefix_filter p f)"

lemma prefix_blobs_fun: "prefix_blobs p blobs w = (\<lambda>k. blobs w (p @ k))"
  by (simp add: prefix_blobs_def fun_eq_iff)

lemma prefixed_Ok: "prefixed p k = Ok x \<longleftrightarrow> valid_key k \<and> valid_key (p @ k) \<and> x = p @ k"
  by (auto simp: prefixed_def res_bind_Ok_iff validate_Ok_iff)

lemma prefixed_invalid: "\<not> (valid_key k \<and> valid_key (p @ k)) \<Longrightarrow> \<exists>m. prefixed p k = Err (InvalidInput m)"
  using validate_invalid [of k] validate_invalid [of "p @ k"]
  by (cases "valid_key k") (auto simp: prefixed_def)

lemma prefixed_not_Hang [simp]: "prefixed p k \<noteq> Hang"
  using prefixed_Ok prefixed_invalid by (metis result.distinct(4,6))

lemma combined_full_eq: "combined_full p f = p @ (case prefix_hint f of Some h \<Rightarrow> h | None \<Rightarrow> [])"
  by (simp add: combined_full_def Let_def)

lemma combined_matches:
  "matches (combined_prefix_filter p f) key m = starts_with key (combined_full p f)"
  "prefix_hint (combined_prefix_filter p f) = Some (combined_full p f)"
  by (simp_all add: combined_prefix_filter_def)

lemma combined_sound: "hint_sound (combined_prefix_filter p f)"
  by (simp add: hint_sound_def combined_matches)

lemma combined_meta_free: "meta_free (combined_prefix_filter p f)"
  by (simp add: meta_free_def combined_matches)

lemma combined_covers:
  assumes "hint_sound f" "matches f k m"
  shows "starts_with (p @ k) (combined_full p f)"
proof (cases "prefix_hint f")
  case None
  then show ?thesis by (simp add: combined_full_eq)
next
  case (Some h)
  then obtain t where "k = h @ t" using assms by (auto simp: hint_sound_def starts_with_iff)
  then show ?thesis using Some by (simp add: combined_full_eq flip: append_assoc)
qed

lemma combined_under:
  "starts_with key (combined_full p f) \<Longrightarrow> \<exists>k. key = p @ k"
  by (auto simp: combined_full_eq starts_with_iff)

lemma combined_hinted:
  "hinted (combined_prefix_filter p f) key \<Longrightarrow> \<exists>k. key = p @ k \<and> hinted f k"
  by (auto simp: hinted_def combined_matches combined_full_eq starts_with_iff split: option.splits)

lemma strip_meta_key: "bm_key m = p @ k \<Longrightarrow> bm_key (strip_meta p m) = k"
  by (simp add: strip_meta_def)

lemma lex_append_le: "p @ a \<le> p @ (b :: string) \<longleftrightarrow> a \<le> b"
  by (induction p) (auto simp: list_le_def list_less_def)

lemma strip_all:
  assumes "\<And>k. k \<in> set ks \<Longrightarrow> \<exists>t. k = p @ t"
  shows "ks = map ((@) p) (List.map_filter (strip_prefix p) ks)"
  using assms
proof (induction ks)
  case Nil
  then show ?case by (simp add: map_filter_def)
next
  case (Cons k ks)
  then obtain t where "k = p @ t" by auto
  then show ?case using Cons by (simp add: map_filter_def)
qed

lemma in_strip_all: "k \<in> set (List.map_filter (strip_prefix p) ks) \<longleftrightarrow> p @ k \<in> set ks"
proof (induction ks)
  case (Cons x ks)
  then show ?case
    by (cases "strip_prefix p x") (auto simp: map_filter_def strip_prefix_Some_iff strip_prefix_None_iff)
qed (simp add: map_filter_def)

lemma strip_key_error_key: "ke_key e = p @ k \<Longrightarrow> ke_key (strip_key_error p e) = k"
  by (simp add: strip_key_error_def)

lemma sorted_strip:
  "sorted (map ((@) p) ks) \<longleftrightarrow> sorted (ks :: string list)"
  by (induction ks) (auto simp: lex_append_le)

lemma prefixed_inputs:
  assumes "res_mapM (\<lambda>b. res_bind (prefixed p (bi_key b)) (\<lambda>k.
      Ok \<lparr>bi_key = k, bi_data = bi_data b, bi_size_hint = bi_size_hint b\<rparr>)) bs = Ok ps"
  shows "map bi_key ps = map ((@) p) (map bi_key bs)" "map bi_data ps = map bi_data bs"
    "\<forall>b \<in> set bs. valid_key (bi_key b) \<and> valid_key (p @ bi_key b)"
proof -
  have l: "list_all2 (\<lambda>b x. valid_key (bi_key b) \<and> valid_key (p @ bi_key b) \<and>
      bi_key x = p @ bi_key b \<and> bi_data x = bi_data b) bs ps"
    using assms by (auto simp: res_mapM_Ok_iff res_bind_Ok_iff prefixed_Ok elim!: list_all2_mono)
  then show "map bi_key ps = map ((@) p) (map bi_key bs)" "map bi_data ps = map bi_data bs"
    "\<forall>b \<in> set bs. valid_key (bi_key b) \<and> valid_key (p @ bi_key b)"
    by (induction rule: list_all2_induct) auto
qed

lemma prefixed_input_key:
  fixes ps bs :: "blob_input list"
  assumes "map bi_key ps = map ((@) p) (map bi_key bs)" "x \<in> set ps"
  obtains b where "b \<in> set bs" "bi_key x = p @ bi_key b"
proof -
  have "bi_key x \<in> set (map bi_key ps)" using assms(2) by simp
  then have "bi_key x \<in> (\<lambda>b. p @ bi_key b) ` set bs" unfolding assms(1) by (simp add: image_image)
  then show thesis using that by blast
qed

lemma put_blobs_prefix:
  assumes "map bi_key ps = map ((@) p) (map bi_key bs)" "map bi_data ps = map bi_data bs"
  shows "put_blobs ps m (p @ k) = put_blobs bs (\<lambda>k. m (p @ k)) k"
  using assms
proof (induction ps arbitrary: bs m)
  case Nil
  then show ?case by simp
next
  case (Cons x ps)
  then obtain b bs' where bs: "bs = b # bs'" "bi_key x = p @ bi_key b" "bi_data x = bi_data b"
      "map bi_key ps = map ((@) p) (map bi_key bs')" "map bi_data ps = map bi_data bs'"
    by (cases bs) auto
  have "(\<lambda>k. (m(p @ bi_key b \<mapsto> y)) (p @ k)) = (\<lambda>k. m (p @ k))(bi_key b \<mapsto> y)" for y by auto
  then show ?case using Cons.IH [OF bs(4,5)] bs(1-3) by simp
qed

lemma res_mapM_invalid:
  assumes "x \<in> set xs" "\<And>y. y \<in> set xs \<Longrightarrow> f y \<noteq> Hang"
    and "\<And>y e. y \<in> set xs \<Longrightarrow> f y = Err e \<Longrightarrow> \<exists>m. e = InvalidInput m" "\<And>y. f x \<noteq> Ok y"
  shows "\<exists>m. res_mapM f xs = Err (InvalidInput m)"
  using assms
proof (induction xs)
  case Nil
  then show ?case by simp
next
  case (Cons y xs)
  show ?case
  proof (cases "f y")
    case (Ok z)
    then have "x \<in> set xs" using Cons.prems(1,4) by auto
    then have "\<exists>m. res_mapM f xs = Err (InvalidInput m)"
      using Cons.IH Cons.prems(2-4) by (metis list.set_intros(2))
    then show ?thesis using Ok by auto
  next
    case (Err e)
    then show ?thesis using Cons.prems(3) [of y e] by auto
  next
    case Hang
    then show ?thesis using Cons.prems(2) by simp
  qed
qed

lemma prefixed_invalid_any:
  assumes "k \<in> set ks" "\<not> (valid_key k \<and> valid_key (p @ k))"
  shows "\<exists>m. res_mapM (prefixed p) ks = Err (InvalidInput m)"
proof (rule res_mapM_invalid [OF assms(1)])
  show "\<exists>m. e = InvalidInput m" if "prefixed p y = Err e" for y e
    using that prefixed_invalid [of y p] prefixed_Ok [of p y "p @ y"]
    by (cases "valid_key y \<and> valid_key (p @ y)") auto
qed (use assms(2) prefixed_Ok in auto)

lemma prefixed_all: "res_mapM (prefixed p) ks = Ok ps \<Longrightarrow>
   ps = map ((@) p) ks \<and> (\<forall>k \<in> set ks. valid_key k \<and> valid_key (p @ k))"
proof -
  assume "res_mapM (prefixed p) ks = Ok ps"
  then have "list_all2 (\<lambda>k x. valid_key k \<and> valid_key (p @ k) \<and> x = p @ k) ks ps"
    by (simp add: res_mapM_Ok_iff prefixed_Ok)
  then show ?thesis by (induction rule: list_all2_induct) auto
qed

section \<open>The contract, one operation at a time\<close>

text \<open>What the caller's visitor has been handed when the inner loop has handed out \<open>vs\<close>.\<close>

definition handed :: "string \<Rightarrow> list_filter \<Rightarrow> key list \<Rightarrow> key list" where
  "handed p f vs = filter (\<lambda>k. matches f k None) (List.map_filter (strip_prefix p) vs)"

lemma handed_append [simp]: "handed p f (vs @ ks) = handed p f vs @ handed p f ks"
  by (simp add: handed_def map_filter_def)

lemma handed_Nil [simp]: "handed p f [] = []"
  by (simp add: handed_def map_filter_def)

lemma handed_one [simp]: "handed p f [p @ k] = (if matches f k None then [k] else [])"
  by (simp add: handed_def map_filter_def)

lemma set_handed: "set (handed p f vs) = {k. p @ k \<in> set vs \<and> matches f k None}"
  by (force simp: handed_def map_filter_def strip_prefix_Some_iff split: option.splits)


locale prefix_layer = blob_ops st inv blobs ok text_ok filter_ok
  for st :: "('w, 'v) blob_store" and inv blobs ok text_ok filter_ok +
  fixes p :: string
begin

abbreviation this_store where
  "this_store \<equiv> \<lparr>pbs_inner = st, pbs_prefix = p\<rparr>"

abbreviation under where
  "under \<equiv> prefix_blobs p blobs"

lemma under_eq: "blobs w' = blobs w \<Longrightarrow> under w' = under w"
  by (simp add: prefix_blobs_def fun_eq_iff)

lemma prefix_put_invalid:
  assumes "b \<in> set bs" "\<not> prefix_ok p ok (bi_key b)"
  shows "\<exists>m. prefix_put this_store bs w = (Err (InvalidInput m), w)"
proof -
  let ?f = "\<lambda>b. res_bind (prefixed p (bi_key b)) (\<lambda>k.
      Ok \<lparr>bi_key = k, bi_data = bi_data b, bi_size_hint = bi_size_hint b\<rparr>)"
  have e: "\<exists>m. x = InvalidInput m" if "?f y = Err x" for y :: blob_input and x
    using that prefixed_invalid [of "bi_key y" p] prefixed_Ok [of p "bi_key y" "p @ bi_key y"]
    by (cases "valid_key (bi_key y) \<and> valid_key (p @ bi_key y)") auto
  have nh: "?f y \<noteq> Hang" for y :: blob_input by (cases "prefixed p (bi_key y)") auto
  show ?thesis
  proof (cases "res_mapM ?f bs")
    case (Ok ps)
    note ps = prefixed_inputs [OF Ok]
    then have "p @ bi_key b \<in> set (map bi_key ps)" using assms(1) by simp
    then obtain x where x: "x \<in> set ps" "bi_key x = p @ bi_key b" by (metis imageE set_map)
    then obtain m where "bs_put st ps w = (Err (InvalidInput m), w)"
      using put_invalid [of x ps w] assms ps(3) by (auto simp: prefix_ok_def)
    then show ?thesis using Ok by (simp add: prefix_put_def)
  next
    case (Err x)
    then obtain y where "y \<in> set bs" "?f y = Err x" using res_mapM_Err [OF Err] by blast
    then have "\<exists>m. x = InvalidInput m" by (intro e)
    then show ?thesis using Err by (auto simp: prefix_put_def)
  next
    case Hang
    moreover have "res_mapM ?f bs \<noteq> Hang" by (rule res_mapM_not_Hang) (rule nh)
    ultimately show ?thesis by simp
  qed
qed

lemma prefix_put_effect:
  assumes "inv w" "\<forall>b \<in> set bs. text_ok (p @ bi_key b)" "prefix_put this_store bs w = (r, w')"
  shows "((\<forall>ps r1 w1. inv w \<longrightarrow> (\<forall>b \<in> set ps. text_ok (bi_key b)) \<longrightarrow> bs_put st ps w = (r1, w1) \<longrightarrow> inv w1) \<longrightarrow>
      inv w') \<and> (\<forall>k. k \<notin> bi_key ` set bs \<longrightarrow> under w' k = under w k) \<and>
    (\<forall>res. r = Ok res \<longrightarrow> inv w' \<and> under w' = put_blobs bs (under w) \<and>
       (\<forall>b \<in> set bs. rd_end (bi_data b) = Eof) \<and> map bm_key (pr_blobs res) = map bi_key bs)"
proof -
  let ?f = "\<lambda>b. res_bind (prefixed p (bi_key b)) (\<lambda>k.
      Ok \<lparr>bi_key = k, bi_data = bi_data b, bi_size_hint = bi_size_hint b\<rparr>)"
  show ?thesis
  proof (cases "res_mapM ?f bs")
    case (Ok ps)
    note ps = prefixed_inputs [OF Ok]
    obtain r1 w1 where c: "bs_put st ps w = (r1, w1)" by (cases "bs_put st ps w")
    have "prefix_put this_store bs w =
        (res_bind r1 (\<lambda>res. Ok \<lparr>pr_blobs = map (strip_meta p) (pr_blobs res)\<rparr>), w1)"
      using Ok c by (cases r1) (simp_all add: prefix_put_def)
    then have r: "w' = w1" "r = res_bind r1 (\<lambda>res. Ok \<lparr>pr_blobs = map (strip_meta p) (pr_blobs res)\<rparr>)"
      using assms(3) by simp_all
    have t: "\<forall>x \<in> set ps. text_ok (bi_key x)"
    proof
      fix x assume "x \<in> set ps"
      then obtain b where "b \<in> set bs" "bi_key x = p @ bi_key b" by (rule prefixed_input_key [OF ps(1)])
      then show "text_ok (bi_key x)" using assms(2) by simp
    qed
    have fr: "under w' k = under w k" if "k \<notin> bi_key ` set bs" for k
    proof -
      have "p @ k \<notin> bi_key ` set ps"
      proof
        assume "p @ k \<in> bi_key ` set ps"
        then obtain x where x: "x \<in> set ps" "bi_key x = p @ k" by auto
        obtain b where "b \<in> set bs" "bi_key x = p @ bi_key b"
          by (rule prefixed_input_key [OF ps(1) x(1)])
        then show False using that x(2) by simp
      qed
      then show ?thesis using put_frame [OF assms(1) t c] r(1) by (simp add: prefix_blobs_def)
    qed
    show ?thesis
    proof (cases "\<exists>res. r1 = Ok res")
      case True
      then obtain res where res: "r1 = Ok res" by blast
      have d: "inv w1" "blobs w1 = put_blobs ps (blobs w)" "\<forall>b \<in> set ps. rd_end (bi_data b) = Eof"
          "map bm_key (pr_blobs res) = map bi_key ps"
        using put_done [OF assms(1) t, of res w1] c res by auto
      have "under w' = put_blobs bs (under w)"
        using put_blobs_prefix [OF ps(1,2)] d(2) r(1) by (simp add: prefix_blobs_fun)
      moreover have "rd_end (bi_data b) = Eof" if "b \<in> set bs" for b
      proof -
        have "bi_data b \<in> set (map bi_data ps)" using that ps(2) by simp
        then show ?thesis using d(3) by auto
      qed
      moreover have "map (\<lambda>m. bm_key (strip_meta p m)) (pr_blobs res) = map bi_key bs"
      proof -
        have "map bm_key (pr_blobs res) = map (\<lambda>b. p @ bi_key b) bs"
          using d(4) ps(1) by simp
        then have "list_all2 (\<lambda>m b. bm_key m = p @ bi_key b) (pr_blobs res) bs"
          by (simp add: list_eq_iff_nth_eq list_all2_conv_all_nth)
        then have "list_all2 (\<lambda>m b. bm_key (strip_meta p m) = bi_key b) (pr_blobs res) bs"
          by (rule list_all2_mono) (rule strip_meta_key)
        then show ?thesis by (induction rule: list_all2_induct) auto
      qed
      ultimately show ?thesis using fr d(1) r res by (auto simp: o_def)
    next
      case False
      then show ?thesis using fr r assms(1) t c by (cases r1) auto
    qed
  next
    case (Err e)
    then show ?thesis using assms by (auto simp: prefix_put_def)
  next
    case Hang
    then show ?thesis using assms by (auto simp: prefix_put_def)
  qed
qed

lemma prefix_get_cases:
  assumes "prefix_get this_store k w = (r, w')"
  obtains (invalid) m where "\<not> (valid_key k \<and> valid_key (p @ k))" "r = Err (InvalidInput m)" "w' = w"
  | (inner) r1 where "valid_key k" "bs_get st (p @ k) w = (r1, w')"
      "r = (case r1 of Ok x \<Rightarrow> Ok x | Err e \<Rightarrow> Err (map_error k e) | Hang \<Rightarrow> Hang)"
proof (cases "valid_key k \<and> valid_key (p @ k)")
  case True
  obtain r1 w1 where c: "bs_get st (p @ k) w = (r1, w1)" by (cases "bs_get st (p @ k) w")
  have "prefixed p k = Ok (p @ k)" using True by (simp add: prefixed_Ok)
  then show thesis using inner True assms c
    by (auto simp: prefix_get_def io_map_err_eq split: result.splits)
next
  case False
  then show thesis using invalid prefixed_invalid [OF False] assms by (auto simp: prefix_get_def)
qed

lemma prefix_exists_eq:
  assumes "inv w" "prefix_ok p ok k" "prefix_exists this_store k w = (r, w')"
  shows "r = Ok (under w k \<noteq> None)"
proof -
  have v: "prefixed p k = Ok (p @ k)"
    using assms(2) ok_valid by (auto simp: prefix_ok_def prefixed_Ok)
  obtain r1 w1 where c: "bs_exists st (p @ k) w = (r1, w1)" by (cases "bs_exists st (p @ k) w")
  have "r1 = Ok (blobs w (p @ k) \<noteq> None)"
    using exists_iff [OF assms(1) _ c] assms(2) by (simp add: prefix_ok_def)
  then show ?thesis
    using assms(3) v c by (auto simp: prefix_exists_def io_map_err_eq prefix_blobs_def)
qed

lemma prefix_exists_cases:
  assumes "prefix_exists this_store k w = (r, w')"
  obtains (invalid) m where "r = Err (InvalidInput m)" "w' = w"
  | (inner) r1 where "bs_exists st (p @ k) w = (r1, w')"
      "r = (case r1 of Ok x \<Rightarrow> Ok x | Err e \<Rightarrow> Err (map_error k e) | Hang \<Rightarrow> Hang)"
proof (cases "valid_key k \<and> valid_key (p @ k)")
  case True
  obtain r1 w1 where c: "bs_exists st (p @ k) w = (r1, w1)" by (cases "bs_exists st (p @ k) w")
  have "prefixed p k = Ok (p @ k)" using True by (simp add: prefixed_Ok)
  then show thesis using inner True assms c
    by (auto simp: prefix_exists_def io_map_err_eq split: result.splits)
next
  case False
  then show thesis using invalid prefixed_invalid [OF False] assms by (auto simp: prefix_exists_def)
qed

lemma prefix_delete_invalid:
  assumes "k \<in> set ks" "\<not> prefix_ok p ok k"
  shows "\<exists>m. prefix_delete this_store ks w = (Err (InvalidInput m), w)"
proof (cases "res_mapM (prefixed p) ks")
  case (Ok ps)
  note ps = prefixed_all [OF Ok]
  then obtain m where "bs_delete st ps w = (Err (InvalidInput m), w)"
    using delete_invalid [of "p @ k" ps w] assms by (auto simp: prefix_ok_def)
  then show ?thesis using Ok by (simp add: prefix_delete_def map_batch_error_def)
next
  case (Err e)
  have "\<exists>k \<in> set ks. \<not> (valid_key k \<and> valid_key (p @ k))"
  proof (rule ccontr)
    assume "\<not> ?thesis"
    then have "res_mapM (prefixed p) ks = Ok (map ((@) p) ks)"
      by (intro res_mapM_Ok) (auto simp: prefixed_Ok)
    then show False using Err by simp
  qed
  then obtain m where "res_mapM (prefixed p) ks = Err (InvalidInput m)"
    using prefixed_invalid_any by blast
  then show ?thesis by (simp add: prefix_delete_def)
next
  case Hang
  moreover have "res_mapM (prefixed p) ks \<noteq> Hang" by (rule res_mapM_not_Hang) simp
  ultimately show ?thesis by simp
qed

lemma prefix_delete_cases:
  assumes "prefix_delete this_store ks w = (r, w')"
  obtains (invalid) m where "r = Err (InvalidInput m)" "w' = w"
  | (inner) r1 where "bs_delete st (map ((@) p) ks) w = (r1, w')"
      "r = (case r1 of Ok x \<Rightarrow> Ok x | Err e \<Rightarrow> Err (map_batch_error p e) | Hang \<Rightarrow> Hang)"
proof (cases "\<exists>k \<in> set ks. \<not> prefix_ok p ok k")
  case True
  then show thesis using invalid prefix_delete_invalid assms by (metis Pair_inject)
next
  case False
  then have "res_mapM (prefixed p) ks = Ok (map ((@) p) ks)"
    using ok_valid by (intro res_mapM_Ok) (auto simp: prefixed_Ok prefix_ok_def)
  moreover obtain r1 w1 where "bs_delete st (map ((@) p) ks) w = (r1, w1)"
    by (cases "bs_delete st (map ((@) p) ks) w")
  ultimately show thesis using inner assms
    by (auto simp: prefix_delete_def io_map_err_eq split: result.splits)
qed

lemma prefix_gwm_cases:
  assumes "prefix_get_with_metadata this_store k w = (r, w')"
  obtains (invalid) m where "\<not> (valid_key k \<and> valid_key (p @ k))" "r = Err (InvalidInput m)" "w' = w"
  | (inner) r1 where "valid_key k" "bs_get_with_metadata st (p @ k) w = (r1, w')"
      "r = (case r1 of Ok (m, rd) \<Rightarrow> Ok (strip_meta p m, rd) | Err e \<Rightarrow> Err (map_error k e) | Hang \<Rightarrow> Hang)"
proof (cases "valid_key k \<and> valid_key (p @ k)")
  case True
  obtain r1 w1 where c: "bs_get_with_metadata st (p @ k) w = (r1, w1)"
    by (cases "bs_get_with_metadata st (p @ k) w")
  have "prefixed p k = Ok (p @ k)" using True by (simp add: prefixed_Ok)
  then show thesis using inner True assms c
    by (auto simp: prefix_get_with_metadata_def io_map_err_eq io_bind_eq split: result.splits)
next
  case False
  then show thesis using invalid prefixed_invalid [OF False] assms
    by (auto simp: prefix_get_with_metadata_def)
qed

lemma under_iff: "prefix_filter_ok p filter_ok f \<Longrightarrow> matches f k None \<Longrightarrow>
   starts_with (p @ k) (combined_full p f)"
  using combined_covers by (simp add: prefix_filter_ok_def)

lemma prefix_list_done:
  assumes "inv w" "prefix_filter_ok p filter_ok f" "prefix_list this_store f w = (Ok ks, w')"
  shows "sorted ks \<and> distinct ks \<and> set ks = {k \<in> dom (under w). matches f k None}"
proof -
  let ?f = "combined_prefix_filter p f"
  obtain xs where l: "bs_list st ?f w = (Ok xs, w')"
      and ks: "ks = filter (\<lambda>k. matches f k None) (List.map_filter (strip_prefix p) xs)"
    using assms(3) by (auto simp: prefix_list_def elim!: io_bind_OkE)
  have d: "sorted xs" "distinct xs" "set xs = {k \<in> dom (blobs w). starts_with k (combined_full p f)}"
    using list_done [OF assms(1) _ l] assms(2) by (auto simp: prefix_filter_ok_def combined_matches)
  have e: "xs = map ((@) p) (List.map_filter (strip_prefix p) xs)"
    using d(3) combined_under by (intro strip_all) blast
  define ys where "ys = List.map_filter (strip_prefix p) xs"
  have xs: "xs = map ((@) p) ys" using e by (simp add: ys_def)
  have "sorted ys" "distinct ys" using d(1,2) by (simp_all add: xs sorted_strip distinct_map)
  moreover have "set ks = {k \<in> dom (under w). matches f k None}"
  proof -
    have "k \<in> set ys \<longleftrightarrow> p @ k \<in> set xs" for k by (auto simp: xs)
    then have "k \<in> set ys \<longleftrightarrow> k \<in> dom (under w) \<and> starts_with (p @ k) (combined_full p f)" for k
      using d(3) by (auto simp: prefix_blobs_fun)
    then show ?thesis using under_iff [OF assms(2)] by (auto simp: ks ys_def)
  qed
  ultimately show ?thesis by (simp add: ks ys_def sorted_wrt_filter)
qed

lemma prefix_list_frame:
  assumes "inv w" "prefix_list this_store f w = (r, w')"
  shows "inv w' \<and> under w' = under w"
proof -
  obtain r1 w1 where c: "bs_list st (combined_prefix_filter p f) w = (r1, w1)"
    by (cases "bs_list st (combined_prefix_filter p f) w")
  then have "w' = w1" using assms(2) by (cases r1) (simp_all add: prefix_list_def)
  then show ?thesis using list_frame [OF assms(1) c] under_eq by blast
qed

lemma map_filter_metas:
  assumes "meta_free f" "\<forall>m \<in> set xs. \<exists>k. bm_key m = p @ k"
  shows "map bm_key (List.map_filter (\<lambda>meta. case strip_prefix p (bm_key meta) of
      Some stripped \<Rightarrow> (let meta = meta\<lparr>bm_key := stripped\<rparr> in
        if matches f (bm_key meta) (Some meta) then Some meta else None)
    | None \<Rightarrow> None) xs) =
    filter (\<lambda>k. matches f k None) (List.map_filter (strip_prefix p) (map bm_key xs))"
  using assms(2)
proof (induction xs)
  case Nil
  then show ?case by (simp add: map_filter_def)
next
  case (Cons m xs)
  then obtain k where "bm_key m = p @ k" by auto
  moreover have "matches f k (Some (m\<lparr>bm_key := k\<rparr>)) = matches f k None"
    using assms(1) unfolding meta_free_def by blast
  ultimately show ?case using Cons by (simp add: map_filter_def Let_def)
qed

lemma prefix_lwm_done:
  assumes "inv w" "prefix_filter_ok p filter_ok f" "meta_free f"
    and "prefix_list_with_metadata this_store f w = (Ok ms, w')"
  shows "sorted (map bm_key ms) \<and> distinct (map bm_key ms) \<and>
    bm_key ` set ms = {k \<in> dom (under w). matches f k None}"
proof -
  let ?f = "combined_prefix_filter p f"
  obtain xs where l: "bs_list_with_metadata st ?f w = (Ok xs, w')"
      and ms: "ms = List.map_filter (\<lambda>meta. case strip_prefix p (bm_key meta) of
          Some stripped \<Rightarrow> (let meta = meta\<lparr>bm_key := stripped\<rparr> in
            if matches f (bm_key meta) (Some meta) then Some meta else None)
        | None \<Rightarrow> None) xs"
    using assms(4) by (auto simp: prefix_list_with_metadata_def elim!: io_bind_OkE)
  have d: "sorted (map bm_key xs)" "distinct (map bm_key xs)"
      "bm_key ` set xs = {k \<in> dom (blobs w). starts_with k (combined_full p f)}"
    using lwm_done [OF assms(1) _ combined_meta_free l] assms(2)
    by (auto simp: prefix_filter_ok_def combined_matches)
  have un: "\<forall>m \<in> set xs. \<exists>k. bm_key m = p @ k"
    using d(3) combined_under [of _ p f] by (metis (mono_tags, lifting) imageI mem_Collect_eq)
  define ys where "ys = List.map_filter (strip_prefix p) (map bm_key xs)"
  have keys: "map bm_key xs = map ((@) p) ys"
    unfolding ys_def using un by (intro strip_all) auto
  have k: "map bm_key ms = filter (\<lambda>k. matches f k None) ys"
    unfolding ms ys_def by (rule map_filter_metas [OF assms(3) un])
  have "sorted ys" "distinct ys" using d(1,2) by (simp_all add: keys sorted_strip distinct_map)
  moreover have "bm_key ` set ms = {k \<in> dom (under w). matches f k None}"
  proof -
    have "k \<in> set ys \<longleftrightarrow> p @ k \<in> bm_key ` set xs" for k
      using arg_cong [OF keys, of set] by auto
    then have "k \<in> set ys \<longleftrightarrow> k \<in> dom (under w) \<and> starts_with (p @ k) (combined_full p f)" for k
      using d(3) by (auto simp: prefix_blobs_fun)
    moreover have "bm_key ` set ms = set (map bm_key ms)" by simp
    ultimately show ?thesis using under_iff [OF assms(2)] unfolding k by auto
  qed
  ultimately show ?thesis unfolding k by (simp add: sorted_wrt_filter)
qed

lemma prefix_lwm_frame:
  assumes "inv w" "prefix_list_with_metadata this_store f w = (r, w')"
  shows "inv w' \<and> under w' = under w"
proof -
  obtain r1 w1 where c: "bs_list_with_metadata st (combined_prefix_filter p f) w = (r1, w1)"
    by (cases "bs_list_with_metadata st (combined_prefix_filter p f) w")
  then have "w' = w1" using assms(2) by (cases r1) (simp_all add: prefix_list_with_metadata_def)
  then show ?thesis using lwm_frame [OF assms(1) c] under_eq by blast
qed

text \<open>The loop rule: the keys handed to the caller's visitor are the stripped keys of the inner loop.\<close>

lemma prefix_visitor_ok:
  assumes ok: "loop_ok inv under (\<lambda>k. matches f k None) meta_for (\<lambda>c k. vis k c) J T"
    and f: "meta_free f"
  shows "loop_ok inv blobs (\<lambda>k. starts_with k (combined_full p f)) meta_for
    (\<lambda>c k. prefix_visitor p f vis k c) (\<lambda>vs. J (handed p f vs)) T"
  unfolding loop_ok_def
proof (intro conjI allI impI)
  fix vs w v key c x w' v'
  assume J: "J (handed p f vs) w v"
    and n: "key \<notin> set vs" "blobs w key \<noteq> None" "starts_with key (combined_full p f)" "meta_for key c"
    and e: "prefix_visitor p f vis key c (w, v) = (x, w', v')"
  obtain k where k: "key = p @ k" using combined_under [OF n(3)] by blast
  define m where "m = map_option (\<lambda>m. \<lparr>bm_key = (case strip_prefix p (bm_key m) of Some s \<Rightarrow> s | None \<Rightarrow> []),
      stored_size = stored_size m, modified_at = modified_at m, etag = etag m\<rparr>) c"
  have m: "meta_for k m" using n(4) k by (auto simp: m_def)
  have mm: "matches f k m = matches f k None" using f unfolding meta_free_def by blast
  have vis: "prefix_visitor p f vis key c = (if matches f k None then vis k m else io_ret True)"
    by (simp add: prefix_visitor_def k Let_def mm flip: m_def)
  show "if x = Ok True then J (handed p f (vs @ [key])) w' v' else T x w' v'"
  proof (cases "matches f k None")
    case True
    have "k \<notin> set (handed p f vs)" using n(1) k by (simp add: set_handed)
    moreover have "under w k \<noteq> None" using n(2) k by (simp add: prefix_blobs_def)
    ultimately show ?thesis
      using loop_okD(2) [OF ok J _ _ True m] e vis True k by simp
  next
    case False
    then have "x = Ok True" "w' = w" "v' = v" using e vis by simp_all
    then show ?thesis using J k False by simp
  qed
next
  fix vs w v
  assume "J (handed p f vs) w v"
  then show "inv w" by (rule loop_okD(1) [OF ok])
qed

lemma prefix_loop_end:
  assumes f: "prefix_filter_ok p filter_ok f"
    and le: "loop_end blobs (\<lambda>k. starts_with k (combined_full p f)) (\<lambda>vs. J (handed p f vs)) T x w v"
  shows "loop_end under (\<lambda>k. matches f k None) J T x w v"
proof -
  let ?J = "\<lambda>vs. J (handed p f vs)"
  let ?P = "\<lambda>k. starts_with k (combined_full p f)"
  have tr: "p @ k \<in> tracked blobs ?P ?J" if "k \<in> tracked under (\<lambda>k. matches f k None) J" for k
    unfolding tracked_def
  proof (intro CollectI conjI allI impI)
    have m: "matches f k None" using that by (simp add: tracked_def)
    show "?P (p @ k)" by (rule under_iff [OF f m])
    fix vs w v
    assume "?J vs w v" "p @ k \<notin> set vs"
    then have "J (handed p f vs) w v" "k \<notin> set (handed p f vs)" by (simp_all add: set_handed)
    then show "blobs w (p @ k) \<noteq> None" using trackedD [OF that] by (auto simp: prefix_blobs_fun)
  qed
  from le show ?thesis
    unfolding loop_end_def
  proof (elim disjE exE conjE)
    fix vs
    assume "J (handed p f vs) w v" and t: "x = Ok () \<longrightarrow> tracked blobs ?P ?J \<subseteq> set vs"
    moreover have "k \<in> set (handed p f vs)" if "x = Ok ()" "k \<in> tracked under (\<lambda>k. matches f k None) J" for k
      using tr [OF that(2)] t that by (auto simp: tracked_def set_handed)
    ultimately show "(\<exists>vs. J vs w v \<and> (x = Ok () \<longrightarrow> tracked under (\<lambda>k. matches f k None) J \<subseteq> set vs)) \<or>
      (\<exists>y. T y w v \<and> y \<noteq> Ok True \<and> x = res_bind y (\<lambda>_. Ok ()))"
      by blast
  qed blast
qed

end

context prefix_layer
begin

text \<open>What lies outside the prefix is out of the layer's reach.\<close>

lemma outside_put:
  assumes "inv w" "\<forall>b \<in> set bs. text_ok (p @ bi_key b)" "prefix_put this_store bs w = (r, w')"
    and "\<not> starts_with k p"
  shows "blobs w' k = blobs w k"
proof (cases "res_mapM (\<lambda>b. res_bind (prefixed p (bi_key b)) (\<lambda>k.
      Ok \<lparr>bi_key = k, bi_data = bi_data b, bi_size_hint = bi_size_hint b\<rparr>)) bs")
  case (Ok ps)
  note ps = prefixed_inputs [OF Ok]
  obtain r1 w1 where c: "bs_put st ps w = (r1, w1)" by (cases "bs_put st ps w")
  have "w' = w1" using assms(3) Ok c by (cases r1) (simp_all add: prefix_put_def)
  have t: "\<forall>x \<in> set ps. text_ok (bi_key x)"
  proof
    fix x assume "x \<in> set ps"
    then obtain b where "b \<in> set bs" "bi_key x = p @ bi_key b" by (rule prefixed_input_key [OF ps(1)])
    then show "text_ok (bi_key x)" using assms(2) by simp
  qed
  have "k \<notin> bi_key ` set ps"
  proof
    assume "k \<in> bi_key ` set ps"
    then obtain x where x: "x \<in> set ps" "k = bi_key x" by auto
    obtain b where "b \<in> set bs" "bi_key x = p @ bi_key b"
      by (rule prefixed_input_key [OF ps(1) x(1)])
    then show False using assms(4) x(2) by simp
  qed
  then show ?thesis using put_frame [OF assms(1) t c] \<open>w' = w1\<close> by simp
qed (use assms(3) in \<open>auto simp: prefix_put_def\<close>)

lemma outside_delete:
  assumes "inv w" "prefix_delete this_store ks w = (r, w')" "\<not> starts_with k p"
  shows "blobs w' k = blobs w k"
  using assms(2)
proof (cases rule: prefix_delete_cases)
  case (inner r1)
  have "k \<notin> set (map ((@) p) ks)" using assms(3) by auto
  then show ?thesis using delete_frame [OF assms(1) inner(1)] by blast
qed simp

end

section \<open>The layer meets the contract\<close>

lemma prefix_store_simps [simp]:
  "bs_put (prefix_store st p) = prefix_put \<lparr>pbs_inner = st, pbs_prefix = p\<rparr>"
  "bs_get (prefix_store st p) = prefix_get \<lparr>pbs_inner = st, pbs_prefix = p\<rparr>"
  "bs_delete (prefix_store st p) = prefix_delete \<lparr>pbs_inner = st, pbs_prefix = p\<rparr>"
  "bs_list (prefix_store st p) = prefix_list \<lparr>pbs_inner = st, pbs_prefix = p\<rparr>"
  "bs_exists (prefix_store st p) = prefix_exists \<lparr>pbs_inner = st, pbs_prefix = p\<rparr>"
  "bs_get_with_metadata (prefix_store st p) = prefix_get_with_metadata \<lparr>pbs_inner = st, pbs_prefix = p\<rparr>"
  "bs_visit (prefix_store st p) = prefix_visit \<lparr>pbs_inner = st, pbs_prefix = p\<rparr>"
  "bs_list_with_metadata (prefix_store st p) = prefix_list_with_metadata \<lparr>pbs_inner = st, pbs_prefix = p\<rparr>"
  by (simp_all add: prefix_store_def Let_def)

sublocale prefix_layer \<subseteq> pre: blob_ops "prefix_store st p" inv "prefix_blobs p blobs"
  "prefix_ok p ok" "\<lambda>k. text_ok (p @ k)" "prefix_filter_ok p filter_ok"
proof (unfold_locales, unfold prefix_store_simps)
  fix k assume "prefix_ok p ok k" then show "valid_key k" by (simp add: prefix_ok_def)
next
  fix b :: blob_input and bs w
  assume "b \<in> set bs" "\<not> prefix_ok p ok (bi_key b)"
  then show "\<exists>m. prefix_put this_store bs w = (Err (InvalidInput m), w)" by (rule prefix_put_invalid)
next
  fix w and bs :: "blob_input list" and res w'
  assume "inv w" "\<forall>b \<in> set bs. text_ok (p @ bi_key b)" "prefix_put this_store bs w = (Ok res, w')"
  from prefix_put_effect [OF this]
  show "inv w' \<and> under w' = put_blobs bs (under w) \<and>
      (\<forall>b \<in> set bs. rd_end (bi_data b) = Eof) \<and> map bm_key (pr_blobs res) = map bi_key bs" by simp
next
  fix w and bs :: "blob_input list" and pr w' k
  assume "inv w" "\<forall>b \<in> set bs. text_ok (p @ bi_key b)" "prefix_put this_store bs w = (pr, w')"
    and "k \<notin> bi_key ` set bs"
  then show "under w' k = under w k" using prefix_put_effect by blast
next
  fix w k d gr w'
  assume a: "inv w" "prefix_ok p ok k" "under w k = Some d" "prefix_get this_store k w = (gr, w')"
  have v: "valid_key k" "valid_key (p @ k)" "ok (p @ k)"
    using a(2) ok_valid by (auto simp: prefix_ok_def)
  from a(4) show "\<exists>rd. gr = Ok rd \<and> read_all rd = Ok d"
  proof (cases rule: prefix_get_cases)
    case (inner r1)
    then show ?thesis using get_found [OF a(1) v(3) _ inner(2)] a(3) by (auto simp: prefix_blobs_def)
  qed (use v in simp)
next
  fix w k rd w' d
  assume a: "inv w" "prefix_get this_store k w = (Ok rd, w')" "read_all rd = Ok d"
  from a(2) show "under w k = Some d"
  proof (cases rule: prefix_get_cases)
    case (inner r1)
    then have "bs_get st (p @ k) w = (Ok rd, w')" by (cases r1) auto
    then show ?thesis using get_sound [OF a(1) _ a(3)] by (simp add: prefix_blobs_def)
  qed simp
next
  fix w k gr w'
  assume a: "inv w" "prefix_get this_store k w = (gr, w')"
  from a(2) show "inv w' \<and> under w' = under w"
  proof (cases rule: prefix_get_cases)
    case (inner r1)
    then show ?thesis using get_frame [OF a(1) inner(2)] under_eq by blast
  qed (use a in simp)
next
  fix w k er w'
  assume "inv w" "prefix_ok p ok k" "prefix_exists this_store k w = (er, w')"
  then show "er = Ok (under w k \<noteq> None)" by (rule prefix_exists_eq)
next
  fix w k b w'
  assume a: "inv w" "prefix_exists this_store k w = (Ok b, w')"
  from a(2) show "b = (under w k \<noteq> None)"
  proof (cases rule: prefix_exists_cases)
    case (inner r1)
    then have "bs_exists st (p @ k) w = (Ok b, w')" by (cases r1) simp_all
    then show ?thesis using exists_sound [OF a(1)] by (simp add: prefix_blobs_def)
  qed simp
next
  fix w k er w'
  assume a: "inv w" "prefix_exists this_store k w = (er, w')"
  from a(2) show "inv w' \<and> under w' = under w"
  proof (cases rule: prefix_exists_cases)
    case (inner r1)
    then show ?thesis using exists_frame [OF a(1) inner(1)] under_eq by blast
  qed (use a in simp)
next
  fix k ks w
  assume "k \<in> set ks" "\<not> prefix_ok p ok k"
  then show "\<exists>m. prefix_delete this_store ks w = (Err (InvalidInput m), w)"
    by (rule prefix_delete_invalid)
next
  fix w ks w'
  assume a: "inv w" "prefix_delete this_store ks w = (Ok (), w')"
  from a(2) show "under w' = (under w) |` (- set ks)"
  proof (cases rule: prefix_delete_cases)
    case (inner r1)
    have "r1 = Ok ()" using inner(2) by (cases r1) simp_all
    then have "bs_delete st (map ((@) p) ks) w = (Ok (), w')" using inner(1) by simp
    from delete_done [OF a(1) this] show ?thesis
      by (auto simp: prefix_blobs_fun restrict_map_def fun_eq_iff)
  qed simp
next
  fix w ks be w'
  assume a: "inv w" "prefix_delete this_store ks w = (Err (Batch be), w')"
  from a(2) show "(\<forall>k \<in> set (succeeded be). k \<in> set ks \<and> under w' k = None) \<and>
      (\<forall>e \<in> set (errors be). ke_key e \<in> set ks) \<and>
      (\<forall>k \<in> set ks. k \<in> set (succeeded be) \<or> k \<in> ke_key ` set (errors be))"
  proof (cases rule: prefix_delete_cases)
    case (inner r1)
    obtain b where b: "r1 = Err (Batch b)" and be:
        "be = \<lparr>succeeded = List.map_filter (strip_prefix p) (succeeded b),
               errors = map (strip_key_error p) (errors b)\<rparr>"
      using inner(2) by (cases r1) (auto simp: map_batch_error_def split: blob_storage_error.splits)
    have d: "\<forall>k \<in> set (succeeded b). k \<in> (@) p ` set ks \<and> blobs w' k = None"
        "\<forall>e \<in> set (errors b). ke_key e \<in> (@) p ` set ks"
        "\<forall>k \<in> set ks. p @ k \<in> set (succeeded b) \<or> p @ k \<in> ke_key ` set (errors b)"
      using delete_batch [OF a(1), of "map ((@) p) ks" b w'] inner(1) b by auto
    have "k \<in> set ks \<and> under w' k = None" if "k \<in> set (succeeded be)" for k
    proof -
      have "p @ k \<in> set (succeeded b)" using that by (simp add: be in_strip_all)
      then show ?thesis using d(1) by (auto simp: prefix_blobs_def)
    qed
    moreover have "ke_key e \<in> set ks" if e: "e \<in> set (errors be)" for e
    proof -
      obtain x where x: "x \<in> set (errors b)" "e = strip_key_error p x" using e be by auto
      then obtain k where "k \<in> set ks" "ke_key x = p @ k" using d(2) by auto
      then show ?thesis using x(2) strip_key_error_key by simp
    qed
    moreover have "k \<in> set (succeeded be) \<or> k \<in> ke_key ` set (errors be)" if k: "k \<in> set ks" for k
    proof (cases "p @ k \<in> set (succeeded b)")
      case False
      then obtain x where "x \<in> set (errors b)" "ke_key x = p @ k" using d(3) k by auto
      then show ?thesis using strip_key_error_key [of x p k] by (auto simp: be image_iff)
    qed (simp add: be in_strip_all)
    ultimately show ?thesis by blast
  qed simp
next
  fix w ks dr w'
  assume a: "inv w" "prefix_delete this_store ks w = (dr, w')"
  from a(2) show "inv w' \<and> (\<forall>k. under w' k = under w k \<or> k \<in> set ks \<and> under w' k = None)"
  proof (cases rule: prefix_delete_cases)
    case (inner r1)
    then show ?thesis using delete_frame [OF a(1) inner(1)] by (auto simp: prefix_blobs_def)
  qed (use a in simp)
next
  fix w f ks w'
  assume "inv w" "prefix_filter_ok p filter_ok f" "prefix_list this_store f w = (Ok ks, w')"
  then show "sorted ks \<and> distinct ks \<and> set ks = {k \<in> dom (under w). matches f k None}"
    by (rule prefix_list_done)
next
  fix w f lr w'
  assume "inv w" "prefix_list this_store f w = (lr, w')"
  then show "inv w' \<and> under w' = under w" by (rule prefix_list_frame)
next
  fix w k d mr w'
  assume a: "inv w" "prefix_ok p ok k" "under w k = Some d"
    "prefix_get_with_metadata this_store k w = (mr, w')"
  have v: "valid_key k" "valid_key (p @ k)" "ok (p @ k)"
    using a(2) ok_valid by (auto simp: prefix_ok_def)
  from a(4) show "\<exists>m rd. mr = Ok (m, rd) \<and> bm_key m = k \<and> read_all rd = Ok d"
  proof (cases rule: prefix_gwm_cases)
    case (inner r1)
    then show ?thesis using gwm_found [OF a(1) v(3) _ inner(2)] a(3)
      by (auto simp: prefix_blobs_def strip_meta_key)
  qed (use v in simp)
next
  fix w k mr w'
  assume a: "inv w" "prefix_get_with_metadata this_store k w = (mr, w')"
  from a(2) show "inv w' \<and> under w' = under w"
  proof (cases rule: prefix_gwm_cases)
    case (inner r1)
    then show ?thesis using gwm_frame [OF a(1) inner(2)] under_eq by blast
  qed (use a in simp)
next
  fix w f ms w'
  assume "inv w" "prefix_filter_ok p filter_ok f" "meta_free f"
    "prefix_list_with_metadata this_store f w = (Ok ms, w')"
  then show "sorted (map bm_key ms) \<and> distinct (map bm_key ms) \<and>
      bm_key ` set ms = {k \<in> dom (under w). matches f k None}"
    by (rule prefix_lwm_done)
next
  fix w f nr w'
  assume "inv w" "prefix_list_with_metadata this_store f w = (nr, w')"
  then show "inv w' \<and> under w' = under w" by (rule prefix_lwm_frame)
qed

text \<open>The loop rule, for the two kinds of store below.\<close>

locale prefix_visit_layer = prefix_layer + blob_contract

sublocale prefix_visit_layer \<subseteq> pre: blob_contract "prefix_store st p" inv "prefix_blobs p blobs"
  "prefix_ok p ok" "\<lambda>k. text_ok (p @ k)" "prefix_filter_ok p filter_ok"
proof (unfold_locales, unfold prefix_store_simps)
  fix f vis J T w v vr w' v'
  assume ok: "loop_ok inv under (\<lambda>k. matches f k None) meta_for (\<lambda>c k. vis k c) J T"
    and a: "prefix_filter_ok p filter_ok f" "meta_free f" "J [] w v"
    "prefix_visit this_store f vis (w, v) = (vr, w', v')"
  show "loop_end under (\<lambda>k. matches f k None) J T vr w' v'"
    using visit_rule [of "combined_prefix_filter p f" "prefix_visitor p f vis" "\<lambda>vs. J (handed p f vs)" T w v vr w' v']
      prefix_visitor_ok [OF ok a(2)] a(1,3,4) combined_meta_free
    by (intro prefix_loop_end a(1)) (simp add: prefix_filter_ok_def combined_matches prefix_visit_def)
qed

locale prefix_steady_layer = prefix_layer + steady_contract

sublocale prefix_steady_layer \<subseteq> pre: steady_contract "prefix_store st p" inv "prefix_blobs p blobs"
  "prefix_ok p ok" "\<lambda>k. text_ok (p @ k)" "prefix_filter_ok p filter_ok"
proof (unfold_locales, unfold prefix_store_simps)
  fix f vis J T w v vr w' v'
  assume ok: "loop_ok inv under (\<lambda>k. matches f k None) meta_for (\<lambda>c k. vis k c) J T"
    and st: "steady (hinted f) under J"
    and a: "prefix_filter_ok p filter_ok f" "meta_free f" "J [] w v"
    "prefix_visit this_store f vis (w, v) = (vr, w', v')"
  have "steady (hinted (combined_prefix_filter p f)) blobs (\<lambda>vs. J (handed p f vs))"
    unfolding steady_def
  proof (intro allI impI)
    fix vs ks w v w' v' and key
    assume J: "J (handed p f vs) w v" "J (handed p f (vs @ ks)) w' v'"
      and k: "hinted (combined_prefix_filter p f) key" "key \<notin> set (vs @ ks)" "blobs w key \<noteq> None"
    obtain j where e: "key = p @ j" "hinted f j" using combined_hinted [OF k(1)] by blast
    have "j \<notin> set (handed p f vs @ handed p f ks)" using k(2) e(1) by (simp add: set_handed)
    moreover have "under w j \<noteq> None" using k(3) e(1) by (simp add: prefix_blobs_fun)
    ultimately have "under w' j \<noteq> None" using steadyD [OF st J(1)] J(2) e(2) by simp
    then show "blobs w' key \<noteq> None" using e(1) by (simp add: prefix_blobs_fun)
  qed
  then show "loop_end under (\<lambda>k. matches f k None) J T vr w' v'"
    using steady_visit_rule [of "combined_prefix_filter p f" "prefix_visitor p f vis" "\<lambda>vs. J (handed p f vs)" T w v vr w' v']
      prefix_visitor_ok [OF ok a(2)] a(1,3,4) combined_meta_free
    by (intro prefix_loop_end a(1)) (simp add: prefix_filter_ok_def combined_matches prefix_visit_def)
qed

text \<open>Over a robust store the layer is robust.\<close>

locale robust_prefix_ops = prefix_layer + robust_ops

sublocale robust_prefix_ops \<subseteq> pre: robust_ops "prefix_store st p" inv "prefix_blobs p blobs"
  "prefix_ok p ok" "\<lambda>k. text_ok (p @ k)" "prefix_filter_ok p filter_ok"
proof (unfold_locales, unfold prefix_store_simps)
  fix w and bs :: "blob_input list" and r w'
  assume a: "inv w" "\<forall>b \<in> set bs. text_ok (p @ bi_key b)" "prefix_put this_store bs w = (r, w')"
  have "\<forall>ps r1 w1. inv w \<longrightarrow> (\<forall>b \<in> set ps. text_ok (bi_key b)) \<longrightarrow> bs_put st ps w = (r1, w1) \<longrightarrow> inv w1"
    using put_inv by blast
  then show "inv w'" using prefix_put_effect [OF a] by blast
qed

locale robust_prefix_layer = prefix_visit_layer + robust_contract

sublocale robust_prefix_layer \<subseteq> robust_prefix_ops
  by unfold_locales

sublocale robust_prefix_layer \<subseteq> rpre: robust_contract "prefix_store st p" inv "prefix_blobs p blobs"
  "prefix_ok p ok" "\<lambda>k. text_ok (p @ k)" "prefix_filter_ok p filter_ok"
  by unfold_locales

end
