(* ===== verification/Fs_Os.thy ===== *)
theory Fs_Os
  imports Types "HOL-Library.AList"
begin

text \<open>
  What the filesystem backend uses of the standard library: \<open>std::path\<close> on Unix, and the calls of
  \<open>std::fs\<close> (through \<open>tokio::fs\<close>) on a state \<open>fsys\<close>.

  A \<open>PathBuf\<close> is its text. The tree is a finite list of nodes addressed by their component lists;
  the order of the list is the order in which \<open>read_dir\<close> delivers entries. There are regular files
  and directories and no symbolic links. \<open>fs_fault\<close> makes any system call fail with any error, so
  that every error branch of the code is reachable; \<open>fs_flushed\<close> says how many bytes of an
  interrupted copy reached the file. Each call is one atomic step of one process.
\<close>

section \<open>Paths\<close>

type_synonym path = string
type_synonym place = "string list"

definition is_absolute :: "path \<Rightarrow> bool" where
  "is_absolute p \<longleftrightarrow> starts_with p [KEY_SEPARATOR]"

text \<open>\<open>PathBuf::push\<close>, \<open>Path::join\<close>.\<close>

definition path_join :: "path \<Rightarrow> path \<Rightarrow> path" where
  "path_join p q =
     (if is_absolute q then q
      else if p = [] \<or> ends_with p [KEY_SEPARATOR] then p @ q
      else p @ KEY_SEPARATOR # q)"

definition junk :: "string \<Rightarrow> bool" where
  "junk c \<longleftrightarrow> c = [] \<or> c = ''.''"

text \<open>\<open>Path::components\<close>: empty and current-directory components do not count.\<close>

definition path_comps :: "path \<Rightarrow> place" where
  "path_comps p = filter (\<lambda>c. \<not> junk c) (split_on KEY_SEPARATOR p)"

definition trim_end :: "string list \<Rightarrow> string list" where
  "trim_end cs = rev (dropWhile junk (rev cs))"

fun trim_parts :: "string list \<Rightarrow> string list" where
  "trim_parts [] = []"
| "trim_parts (c # cs) =
     (let r = trim_end cs in if r = [] then (if c = [] then [] else [c]) else c # r)"

text \<open>\<open>Path::parent\<close>: the text up to the last component but one.\<close>

definition path_parent :: "path \<Rightarrow> path option" where
  "path_parent p =
     (case trim_parts (split_on KEY_SEPARATOR p) of
        [] \<Rightarrow> None
      | c # cs \<Rightarrow>
          (let q = trim_parts (butlast (c # cs)) in
           Some (if q = [] then (if is_absolute p then [KEY_SEPARATOR] else [])
                 else join_with KEY_SEPARATOR q)))"

text \<open>
  \<open>Path::strip_prefix\<close>: the components of the base must lead; the rest is returned as it is
  written, trimmed at its two ends only.
\<close>

fun skip_comps :: "place \<Rightarrow> string list \<Rightarrow> string list option" where
  "skip_comps [] ps = Some ps"
| "skip_comps (b # bs) [] = None"
| "skip_comps (b # bs) (p # ps) =
     (if junk p then skip_comps (b # bs) ps
      else if p = b then skip_comps bs ps else None)"

definition path_strip_prefix :: "path \<Rightarrow> path \<Rightarrow> path option" where
  "path_strip_prefix p base =
     (if is_absolute p \<noteq> is_absolute base then None
      else map_option (\<lambda>ps. join_with KEY_SEPARATOR (trim_end (dropWhile junk ps)))
             (skip_comps (path_comps base) (split_on KEY_SEPARATOR p)))"

text \<open>\<open>{:?}\<close> of a path, for the characters that ASCII texts escape.\<close>

fun escape_debug :: "string \<Rightarrow> string" where
  "escape_debug [] = []"
| "escape_debug (c # s) =
     (if c = CHR 0x22 \<or> c = CHR 0x5C then [CHR 0x5C, c]
      else if c = CHR 0x0A then [CHR 0x5C, CHR ''n'']
      else if c = CHR 0x0D then [CHR 0x5C, CHR ''r'']
      else if c = CHR 0x09 then [CHR 0x5C, CHR ''t'']
      else if c = CHR 0x00 then [CHR 0x5C, CHR ''0'']
      else [c]) @ escape_debug s"

definition path_debug :: "path \<Rightarrow> string" where
  "path_debug p = CHR 0x22 # escape_debug p @ [CHR 0x22]"

section \<open>The state\<close>

type_synonym systime = int

datatype node = FileN (file_bytes: bytes) (file_mtime: "systime option") | DirN

datatype syscall =
    SysStat place | SysReadDir place | SysNext place nat | SysMkdir place
  | SysCreate place | SysWrite place | SysOpen place | SysUnlink place

record fsys =
  fs_nodes :: "(place \<times> node) list"
  fs_cwd :: place
  fs_fault :: "syscall \<Rightarrow> io_error option"
  fs_flushed :: "place \<Rightarrow> nat"
  fs_clock :: "systime option"
  fs_dir_stat :: "place \<Rightarrow> u64 \<times> systime option"

definition enoent :: io_error where
  "enoent = IoError KNotFound ''No such file or directory (os error 2)''"

definition eexist :: io_error where
  "eexist = IoError KAlreadyExists ''File exists (os error 17)''"

definition enotdir :: io_error where
  "enotdir = IoError KNotADirectory ''Not a directory (os error 20)''"

definition eisdir :: io_error where
  "eisdir = IoError KIsADirectory ''Is a directory (os error 21)''"

definition node_at :: "'z fsys_scheme \<Rightarrow> place \<Rightarrow> node option" where
  "node_at fs t = (if t = [] then Some DirN else map_of (fs_nodes fs) t)"

definition set_node :: "place \<Rightarrow> node \<Rightarrow> 'z fsys_scheme \<Rightarrow> 'z fsys_scheme" where
  "set_node t n fs = fs\<lparr>fs_nodes := AList.update t n (fs_nodes fs)\<rparr>"

definition del_node :: "place \<Rightarrow> 'z fsys_scheme \<Rightarrow> 'z fsys_scheme" where
  "del_node t fs = fs\<lparr>fs_nodes := AList.delete t (fs_nodes fs)\<rparr>"

definition target :: "'z fsys_scheme \<Rightarrow> path \<Rightarrow> place" where
  "target fs p = (if is_absolute p then path_comps p else fs_cwd fs @ path_comps p)"

text \<open>Name lookup, component by component: what is missing decides the error.\<close>

fun walk :: "'z fsys_scheme \<Rightarrow> place \<Rightarrow> place \<Rightarrow> (node, io_error) result" where
  "walk fs cur [] = (case node_at fs cur of Some n \<Rightarrow> Ok n | None \<Rightarrow> Err enoent)"
| "walk fs cur (c # cs) =
     (case node_at fs cur of
        Some DirN \<Rightarrow> walk fs (cur @ [c]) cs
      | Some (FileN _ _) \<Rightarrow> Err enotdir
      | None \<Rightarrow> Err enoent)"

definition resolve :: "'z fsys_scheme \<Rightarrow> path \<Rightarrow> (node, io_error) result" where
  "resolve fs p = res_bind (walk fs [] (target fs p)) (\<lambda>n.
     if ends_with p [KEY_SEPARATOR] \<and> n \<noteq> DirN then Err enotdir else Ok n)"

definition faulty :: "syscall \<Rightarrow> ('z fsys_scheme, 'a, io_error) comp \<Rightarrow> ('z fsys_scheme, 'a, io_error) comp"
where
  "faulty c m = (\<lambda>fs. case fs_fault fs c of Some e \<Rightarrow> (Err e, fs) | None \<Rightarrow> m fs)"

section \<open>System calls\<close>

record file_stat =
  st_is_dir :: bool
  st_len :: u64
  st_modified :: "systime option"

definition stat_of :: "'z fsys_scheme \<Rightarrow> place \<Rightarrow> node \<Rightarrow> file_stat" where
  "stat_of fs t n = (case n of
       FileN b m \<Rightarrow> \<lparr>st_is_dir = False, st_len = len64 b, st_modified = m\<rparr>
     | DirN \<Rightarrow> \<lparr>st_is_dir = True, st_len = fst (fs_dir_stat fs t),
                 st_modified = snd (fs_dir_stat fs t)\<rparr>)"

definition metadata :: "path \<Rightarrow> ('z fsys_scheme, file_stat, io_error) comp" where
  "metadata p = (\<lambda>fs. faulty (SysStat (target fs p))
     (\<lambda>fs. (res_bind (resolve fs p) (\<lambda>n. Ok (stat_of fs (target fs p) n)), fs)) fs)"

definition path_exists :: "path \<Rightarrow> 'z fsys_scheme \<Rightarrow> bool" where
  "path_exists p fs = (case fst (metadata p fs) of Ok _ \<Rightarrow> True | _ \<Rightarrow> False)"

definition path_is_file :: "path \<Rightarrow> 'z fsys_scheme \<Rightarrow> bool" where
  "path_is_file p fs = (case fst (metadata p fs) of Ok m \<Rightarrow> \<not> st_is_dir m | _ \<Rightarrow> False)"

definition path_is_dir :: "path \<Rightarrow> 'z fsys_scheme \<Rightarrow> bool" where
  "path_is_dir p fs = (case fst (metadata p fs) of Ok m \<Rightarrow> st_is_dir m | _ \<Rightarrow> False)"

definition child_names :: "'z fsys_scheme \<Rightarrow> place \<Rightarrow> string list" where
  "child_names fs t =
     map last (filter (\<lambda>p. p \<noteq> [] \<and> butlast p = t) (map fst (fs_nodes fs)))"

definition read_dir :: "path \<Rightarrow> ('z fsys_scheme, string list, io_error) comp" where
  "read_dir p = (\<lambda>fs. faulty (SysReadDir (target fs p))
     (\<lambda>fs. (res_bind (resolve fs p) (\<lambda>n.
        if n = DirN then Ok (child_names fs (target fs p)) else Err enotdir), fs)) fs)"

text \<open>\<open>next_entry\<close> on the open directory: it may fail at any entry.\<close>

definition next_entry :: "path \<Rightarrow> nat \<Rightarrow> ('z fsys_scheme, unit, io_error) comp" where
  "next_entry p i = (\<lambda>fs. faulty (SysNext (target fs p) i) (io_ret ()) fs)"

fun mkdirs :: "place \<Rightarrow> place \<Rightarrow> ('z fsys_scheme, unit, io_error) comp" where
  "mkdirs cur [] = io_ret ()"
| "mkdirs cur (c # cs) = (\<lambda>fs.
     (case node_at fs (cur @ [c]) of
        Some DirN \<Rightarrow> mkdirs (cur @ [c]) cs fs
      | Some (FileN _ _) \<Rightarrow> (Err (if cs = [] then eexist else enotdir), fs)
      | None \<Rightarrow> faulty (SysMkdir (cur @ [c]))
                  (\<lambda>fs. mkdirs (cur @ [c]) cs (set_node (cur @ [c]) DirN fs)) fs))"

definition create_dir_all :: "path \<Rightarrow> ('z fsys_scheme, unit, io_error) comp" where
  "create_dir_all p = (\<lambda>fs. if p = [] then (Ok (), fs) else mkdirs [] (target fs p) fs)"

text \<open>\<open>File::create\<close>: opens for writing, truncating what is there.\<close>

definition create_file :: "path \<Rightarrow> ('z fsys_scheme, unit, io_error) comp" where
  "create_file p = (\<lambda>fs. faulty (SysCreate (target fs p)) (\<lambda>fs.
     let t = target fs p in
     if t = [] \<or> ends_with p [KEY_SEPARATOR] then (Err eisdir, fs)
     else (case walk fs [] (butlast t) of
         Err e \<Rightarrow> (Err e, fs)
       | Hang \<Rightarrow> (Hang, fs)
       | Ok (FileN _ _) \<Rightarrow> (Err enotdir, fs)
       | Ok DirN \<Rightarrow>
           if node_at fs t = Some DirN then (Err eisdir, fs)
           else (Ok (), set_node t (FileN [] (fs_clock fs)) fs))) fs)"

text \<open>
  \<open>tokio::io::copy\<close> into the created file followed by \<open>flush\<close>. When the stream or the write fails
  part of the data has reached the file.
\<close>

definition copy_to_file :: "path \<Rightarrow> reader \<Rightarrow> ('z fsys_scheme, unit, io_error) comp" where
  "copy_to_file p rd = (\<lambda>fs.
     let t = target fs p;
         full = set_node t (FileN (rd_bytes rd) (fs_clock fs)) fs;
         part = set_node t (FileN (take (fs_flushed fs t) (rd_bytes rd)) (fs_clock fs)) fs in
     case fs_fault fs (SysWrite t) of
       Some e \<Rightarrow> (Err e, part)
     | None \<Rightarrow> (case rd_end rd of
         Eof \<Rightarrow> (Ok (), full)
       | Fails e \<Rightarrow> (Err e, part)
       | Stalls \<Rightarrow> (Hang, part)))"

text \<open>
  \<open>File::open\<close>. A directory can be opened for reading; it is the first read that fails.
\<close>

definition open_file :: "path \<Rightarrow> ('z fsys_scheme, reader, io_error) comp" where
  "open_file p = (\<lambda>fs. faulty (SysOpen (target fs p))
     (\<lambda>fs. (res_bind (resolve fs p) (\<lambda>n. Ok (case n of
         FileN b _ \<Rightarrow> reader_of b | DirN \<Rightarrow> failing_reader eisdir)), fs)) fs)"

definition remove_file :: "path \<Rightarrow> ('z fsys_scheme, unit, io_error) comp" where
  "remove_file p = (\<lambda>fs. faulty (SysUnlink (target fs p))
     (\<lambda>fs. case resolve fs p of
         Err e \<Rightarrow> (Err e, fs)
       | Hang \<Rightarrow> (Hang, fs)
       | Ok DirN \<Rightarrow> (Err eisdir, fs)
       | Ok (FileN _ _) \<Rightarrow> (Ok (), del_node (target fs p) fs)) fs)"

end
