(* ===== verification/Fs_Store.thy ===== *)
theory Fs_Store
  imports Blob_Store Fs_Os
begin

text \<open>
  The filesystem backend: \<open>fs.rs\<close> and \<open>fs/store.rs\<close>, operation by operation, on the state of
  \<open>Fs_Os\<close>. The three listing loops of the source (\<open>list\<close>, \<open>visit\<close>, \<open>list_with_metadata\<close>) share
  their directory walk and differ in what they do with a matching file; here the walk is
  \<open>walk_dirs\<close>/\<open>walk_entries\<close> and the difference its argument. The walk runs on fuel, because a
  visitor may create directories as fast as the loop visits them; running out of fuel is \<open>Hang\<close>.
\<close>

section \<open>The backend and its construction\<close>

text \<open>
  \<open>chrono\<close> is not part of the repository: \<open>fbs_from_timestamp\<close> is its
  \<open>DateTime::from_timestamp\<close>, from seconds and nanoseconds.
\<close>

record fs_blob_store =
  fbs_root :: path
  fbs_from_timestamp :: "int \<Rightarrow> nat \<Rightarrow> datetime option"

text \<open>\<open>SystemTime\<close> is in nanoseconds around the Unix epoch; \<open>as_secs() as i64\<close> reinterprets a \<open>u64\<close>.\<close>

definition system_time_to_utc :: "(int \<Rightarrow> nat \<Rightarrow> datetime option) \<Rightarrow> systime \<Rightarrow> datetime" where
  "system_time_to_utc from_timestamp t =
     (let duration = max 0 t;
          secs = sint (word_of_int (duration div 1000000000) :: u64);
          nanos = nat (duration mod 1000000000) in
      case from_timestamp secs nanos of Some d \<Rightarrow> d | None \<Rightarrow> default_datetime)"

definition modified_utc :: "fs_blob_store \<Rightarrow> file_stat \<Rightarrow> datetime" where
  "modified_utc self m =
     (case map_option (system_time_to_utc (fbs_from_timestamp self)) (st_modified m) of
        Some d \<Rightarrow> d | None \<Rightarrow> default_datetime)"

definition normalise_root :: "path \<Rightarrow> path" where
  "normalise_root root =
     (if \<not> ends_with root [KEY_SEPARATOR] then path_join root [] else root)"

definition fs_new ::
  "(int \<Rightarrow> nat \<Rightarrow> datetime option) \<Rightarrow> path \<Rightarrow> ('z fsys_scheme, fs_blob_store) io"
where
  "fs_new from_timestamp r =
     (let root = normalise_root r in
      io_bind
        (io_map_err (\<lambda>e. Storage (''cannot create root '' @ squoted (path_debug root)) (Some (DynIo e)))
           (create_dir_all root))
        (\<lambda>_. io_ret \<lparr>fbs_root = root, fbs_from_timestamp = from_timestamp\<rparr>))"

definition key_to_path :: "fs_blob_store \<Rightarrow> key \<Rightarrow> path res" where
  "key_to_path self key =
     res_bind (validate_blob_key key) (\<lambda>_.
       Ok (foldl path_join (fbs_root self) (split_on KEY_SEPARATOR key)))"

definition ensure_root :: "fs_blob_store \<Rightarrow> ('z fsys_scheme, unit) io" where
  "ensure_root self =
     io_catch (metadata (fbs_root self))
       (\<lambda>m. if st_is_dir m then io_ret ()
            else io_err (BackendMisconfigured
              (''FS root '' @ squoted (path_debug (fbs_root self)) @ '' is not a directory'')))
       (\<lambda>e. if io_error_kind e = KNotFound
            then io_err (BackendMisconfigured
              (''FS root directory '' @ squoted (path_debug (fbs_root self)) @ '' does not exist''))
            else io_err (Storage
              (''cannot stat FS root '' @ squoted (path_debug (fbs_root self))) (Some (DynIo e))))"

definition meta_of_stat :: "fs_blob_store \<Rightarrow> key \<Rightarrow> file_stat \<Rightarrow> blob_meta" where
  "meta_of_stat self key m =
     \<lparr>bm_key = key, stored_size = st_len m, modified_at = modified_utc self m, etag = None\<rparr>"

definition file_meta :: "fs_blob_store \<Rightarrow> key \<Rightarrow> ('z fsys_scheme, blob_meta) io" where
  "file_meta self key =
     io_bind (io_lift (key_to_path self key)) (\<lambda>path.
       io_catch (metadata path)
         (\<lambda>m. io_ret (meta_of_stat self key m))
         (\<lambda>e. if io_error_kind e = KNotFound then io_err (NotFound key)
              else io_err (Storage (''stat failed for '' @ squoted key) (Some (DynIo e)))))"

section \<open>Helpers of the store\<close>

definition map_io_error_to_per_key :: "io_error \<Rightarrow> per_key_error" where
  "map_io_error_to_per_key e =
     (if io_error_kind e = KPermissionDenied then PkPermissionDenied (io_error_text e)
      else PkUnknown (io_error_text e))"

definition validate_prefix_hint :: "string \<Rightarrow> unit res" where
  "validate_prefix_hint hint =
     (if starts_with hint ''/'' then
        Err (InvalidInput (''prefix hint must not be absolute: '' @ squoted hint))
      else if backslash \<in> set hint then
        Err (InvalidInput (''prefix hint must not contain backslash: '' @ squoted hint))
      else res_for (\<lambda>component.
        if component = ''..'' \<or> component = ''.'' then
          Err (InvalidInput (''prefix hint must not contain '' @ squoted ''..'' @ '' or '' @
            squoted ''.'' @ '' components: '' @ squoted hint))
        else Ok ()) (split_on KEY_SEPARATOR hint))"

definition dir_exists :: "path \<Rightarrow> ('z fsys_scheme, bool) io" where
  "dir_exists p =
     io_catch (metadata p)
       (\<lambda>m. io_ret (st_is_dir m))
       (\<lambda>e. if io_error_kind e = KNotFound then io_ret False else io_err (from_io_error e))"

definition prefix_subdir :: "path \<Rightarrow> list_filter \<Rightarrow> path res" where
  "prefix_subdir root f =
     (case prefix_hint f of
        Some hint \<Rightarrow>
          res_bind (validate_prefix_hint hint) (\<lambda>_.
            let full = path_join root hint in
            if \<not> ends_with full [KEY_SEPARATOR] then
              (case path_parent full of Some parent \<Rightarrow> Ok parent | None \<Rightarrow> Ok full)
            else Ok full)
      | None \<Rightarrow> Ok root)"

section \<open>Put, get, delete, exists\<close>

definition fs_put_one :: "fs_blob_store \<Rightarrow> blob_input \<Rightarrow> ('z fsys_scheme, blob_meta) io" where
  "fs_put_one self blob =
     io_bind (io_lift (key_to_path self (bi_key blob))) (\<lambda>path.
     io_bind (case path_parent path of
                Some parent \<Rightarrow> io_q (create_dir_all parent)
              | None \<Rightarrow> io_ret ()) (\<lambda>_.
     io_bind (io_q (create_file path)) (\<lambda>_.
     io_bind (io_q (copy_to_file path (bi_data blob))) (\<lambda>_.
     io_bind (io_q (metadata path)) (\<lambda>m.
     io_ret (meta_of_stat self (bi_key blob) m))))))"

definition fs_put :: "fs_blob_store \<Rightarrow> blob_input list \<Rightarrow> ('z fsys_scheme, put_result) io" where
  "fs_put self blobs =
     io_bind (io_lift (res_for (\<lambda>b. validate_blob_key (bi_key b)) blobs)) (\<lambda>_.
     io_bind (ensure_root self) (\<lambda>_.
     io_bind (io_mapM (fs_put_one self) blobs) (\<lambda>metas.
     io_ret (put_result_multiple metas))))"

definition fs_get :: "fs_blob_store \<Rightarrow> key \<Rightarrow> ('z fsys_scheme, reader) io" where
  "fs_get self key =
     io_bind (ensure_root self) (\<lambda>_.
     io_bind (io_lift (key_to_path self key)) (\<lambda>path.
     io_bind (io_gets (path_exists path)) (\<lambda>ex.
     if \<not> ex then io_err (NotFound key)
     else io_q (open_file path))))"

text \<open>The per-key loop of \<open>delete\<close>: every key is processed, failures are collected.\<close>

fun fs_delete_keys ::
  "fs_blob_store \<Rightarrow> key list \<Rightarrow> key list \<Rightarrow> key_error list \<Rightarrow>
   ('z fsys_scheme, key list \<times> key_error list) io"
where
  "fs_delete_keys self [] succ errs = io_ret (succ, errs)"
| "fs_delete_keys self (k # ks) succ errs =
     io_bind (io_lift (key_to_path self k)) (\<lambda>path.
       io_catch (remove_file path)
         (\<lambda>_. fs_delete_keys self ks (succ @ [k]) errs)
         (\<lambda>e. if io_error_kind e = KNotFound
              then fs_delete_keys self ks (succ @ [k]) errs
              else fs_delete_keys self ks succ
                     (errs @ [\<lparr>ke_key = k, ke_error = map_io_error_to_per_key e\<rparr>])))"

definition fs_delete :: "fs_blob_store \<Rightarrow> key list \<Rightarrow> ('z fsys_scheme, unit) io" where
  "fs_delete self keys =
     io_bind (io_lift (res_for validate_blob_key keys)) (\<lambda>_.
     io_bind (ensure_root self) (\<lambda>_.
     io_bind (fs_delete_keys self keys [] []) (\<lambda>(succ, errs).
     if errs = [] then io_ret ()
     else io_err (Batch \<lparr>succeeded = succ, errors = errs\<rparr>))))"

definition fs_exists :: "fs_blob_store \<Rightarrow> key \<Rightarrow> ('z fsys_scheme, bool) io" where
  "fs_exists self key =
     io_bind (ensure_root self) (\<lambda>_.
     io_bind (io_lift (key_to_path self key)) (\<lambda>path.
     io_gets (path_is_file path)))"

definition fs_get_with_metadata ::
  "fs_blob_store \<Rightarrow> key \<Rightarrow> ('z fsys_scheme, blob_meta \<times> reader) io"
where
  "fs_get_with_metadata self key =
     io_bind (ensure_root self) (\<lambda>_.
     io_bind (file_meta self key) (\<lambda>meta.
     io_bind (fs_get self key) (\<lambda>reader.
     io_ret (meta, reader))))"

section \<open>Walking the tree\<close>

text \<open>
  What the loops do with a matching file: an action on the path and the key, on the state of the
  filesystem and the loop's own accumulator; it returns whether to go on.
\<close>

type_synonym ('z, 'v) action = "path \<Rightarrow> key \<Rightarrow> ('z fsys_scheme \<times> 'v, bool) io"

text \<open>
  One entry: whether the action stopped the walk, and the directory to queue, if the entry is one.
\<close>

definition walk_entry ::
  "fs_blob_store \<Rightarrow> list_filter \<Rightarrow> ('z, 'v) action \<Rightarrow> path \<Rightarrow> ('z fsys_scheme \<times> 'v, bool \<times> path list) io"
where
  "walk_entry self f act path =
     io_bind (io_gets (\<lambda>s. path_is_file path (fst s))) (\<lambda>isf.
       if isf then
         (case path_strip_prefix path (fbs_root self) of
            None \<Rightarrow> io_ret (False, [])
          | Some key \<Rightarrow>
              if \<not> utf8 key then
                io_err (InvalidInput (''non-UTF-8 path: '' @ path_debug key))
              else if matches f key None then
                io_bind (act path key) (\<lambda>continue. io_ret (\<not> continue, []))
              else io_ret (False, []))
       else
         io_bind (io_gets (\<lambda>s. path_is_dir path (fst s)))
           (\<lambda>isd. io_ret (False, if isd then [path] else [])))"

text \<open>The entries of one directory, from the \<open>i\<close>-th, with the directories queued so far.\<close>

fun walk_entries ::
  "fs_blob_store \<Rightarrow> list_filter \<Rightarrow> ('z, 'v) action \<Rightarrow> path \<Rightarrow> nat \<Rightarrow> string list \<Rightarrow> path list \<Rightarrow>
   ('z fsys_scheme \<times> 'v, bool \<times> path list) io"
where
  "walk_entries self f act dir i [] dirs =
     io_bind (io_fst (io_q (next_entry dir i))) (\<lambda>_. io_ret (False, dirs))"
| "walk_entries self f act dir i (name # names) dirs =
     io_bind (io_fst (io_q (next_entry dir i))) (\<lambda>_.
     io_bind (walk_entry self f act (path_join dir name)) (\<lambda>(stop, sub).
       if stop then io_ret (True, dirs)
       else walk_entries self f act dir (Suc i) names (dirs @ sub)))"

text \<open>The breadth-first loop over the queue of directories.\<close>

fun walk_dirs ::
  "nat \<Rightarrow> fs_blob_store \<Rightarrow> list_filter \<Rightarrow> ('z, 'v) action \<Rightarrow> path list \<Rightarrow>
   ('z fsys_scheme \<times> 'v, unit) io"
where
  "walk_dirs n self f act [] = io_ret ()"
| "walk_dirs 0 self f act (d # ds) = io_lift Hang"
| "walk_dirs (Suc n) self f act (d # ds) =
     io_bind (io_fst (dir_exists d)) (\<lambda>ex.
     if \<not> ex then walk_dirs n self f act ds
     else io_bind (io_fst (io_q (read_dir d))) (\<lambda>names.
       io_bind (walk_entries self f act d 0 names []) (\<lambda>(stop, dirs).
         if stop then io_ret () else walk_dirs n self f act (ds @ dirs))))"

definition walk_tree ::
  "nat \<Rightarrow> fs_blob_store \<Rightarrow> list_filter \<Rightarrow> ('z, 'v) action \<Rightarrow> ('z fsys_scheme \<times> 'v, unit) io"
where
  "walk_tree fuel self f act =
     io_bind (io_fst (ensure_root self)) (\<lambda>_.
     io_bind (io_lift (prefix_subdir (fbs_root self) f)) (\<lambda>start.
     walk_dirs fuel self f act [start]))"

section \<open>List, list with metadata, visit\<close>

definition push_key :: "('z, key list) action" where
  "push_key path key = (\<lambda>(w, keys). (Ok True, (w, keys @ [key])))"

definition fs_list :: "nat \<Rightarrow> fs_blob_store \<Rightarrow> list_filter \<Rightarrow> ('z fsys_scheme, key list) io" where
  "fs_list fuel self f =
     io_bind (with_acc (walk_tree fuel self f push_key) []) (\<lambda>keys. io_ret (sort keys))"

definition entry_meta :: "fs_blob_store \<Rightarrow> path \<Rightarrow> key \<Rightarrow> ('z fsys_scheme, blob_meta) io" where
  "entry_meta self path key =
     io_bind (io_map_err (\<lambda>e. Storage (''stat failed for '' @ squoted key) (Some (DynIo e)))
                (metadata path))
       (\<lambda>m. io_ret (meta_of_stat self key m))"

definition push_meta :: "fs_blob_store \<Rightarrow> ('z, blob_meta list) action" where
  "push_meta self path key =
     io_bind (io_fst (entry_meta self path key)) (\<lambda>m (w, metas).
       (Ok True, (w, metas @ [m])))"

definition fs_list_with_metadata ::
  "nat \<Rightarrow> fs_blob_store \<Rightarrow> list_filter \<Rightarrow> ('z fsys_scheme, blob_meta list) io"
where
  "fs_list_with_metadata fuel self f =
     io_bind (with_acc (walk_tree fuel self f (push_meta self)) [])
       (\<lambda>metas. io_ret (sort_key bm_key metas))"

definition visit_entry :: "fs_blob_store \<Rightarrow> ('z fsys_scheme, 'v) visitor \<Rightarrow> ('z, 'v) action" where
  "visit_entry self vis path key =
     io_bind (io_fst (entry_meta self path key)) (\<lambda>m. vis key (Some m))"

definition fs_visit ::
  "nat \<Rightarrow> fs_blob_store \<Rightarrow> list_filter \<Rightarrow> ('z fsys_scheme, 'v) visitor \<Rightarrow> ('z fsys_scheme \<times> 'v, unit) io"
where
  "fs_visit fuel self f vis = walk_tree fuel self f (visit_entry self vis)"

text \<open>\<open>impl BlobStore for FsBlobStore\<close>.\<close>

definition fs_store :: "nat \<Rightarrow> fs_blob_store \<Rightarrow> ('z fsys_scheme, 'v) blob_store" where
  "fs_store fuel self =
     \<lparr>bs_put = fs_put self, bs_get = fs_get self, bs_delete = fs_delete self,
      bs_list = fs_list fuel self, bs_exists = fs_exists self,
      bs_get_with_metadata = fs_get_with_metadata self,
      bs_visit = fs_visit fuel self,
      bs_list_with_metadata = fs_list_with_metadata fuel self\<rparr>"

end
