(* ===== verification/Fs_Paths.thy ===== *)
theory Fs_Paths
  imports Fs_Store
begin

text \<open>
  Facts about path texts: which components a path has, what \<open>parent\<close> and \<open>strip_prefix\<close> return, and
  the relation \<open>canon r rel d\<close>: the text \<open>d\<close> names the directory \<open>rel\<close> below the root \<open>r\<close> and is
  written so that the keys of its entries come out without empty components.
\<close>

definition name_ok :: "string \<Rightarrow> bool" where
  "name_ok c \<longleftrightarrow> good_component c \<and> KEY_SEPARATOR \<notin> set c"

lemma junk_Nil [simp]: "junk []"
  by (simp add: junk_def)

lemma name_ok_not_junk: "name_ok c \<Longrightarrow> \<not> junk c"
  by (auto simp: name_ok_def good_component_def junk_def)

lemma name_ok_not_abs: "name_ok c \<Longrightarrow> \<not> is_absolute c"
  by (cases c) (auto simp: name_ok_def is_absolute_def starts_with_def good_component_def)

lemma name_ok_free: "name_ok c \<Longrightarrow> KEY_SEPARATOR \<notin> set c"
  by (simp add: name_ok_def)

lemma names_not_Nil: "list_all name_ok cs \<Longrightarrow> [] \<notin> set cs"
  by (auto simp: list_all_iff name_ok_def good_component_def)

lemma filter_names [simp]: "list_all name_ok cs \<Longrightarrow> filter (\<lambda>c. \<not> junk c) cs = cs"
  by (auto simp: list_all_iff name_ok_not_junk intro: filter_True)

lemma split_names:
  "list_all name_ok cs \<Longrightarrow> cs \<noteq> [] \<Longrightarrow> split_on KEY_SEPARATOR (join_with KEY_SEPARATOR cs) = cs"
  by (rule split_join) (auto simp: list_all_iff name_ok_def)

lemma valid_key_names: "valid_key k \<Longrightarrow> list_all name_ok (key_parts k)"
  by (auto simp: valid_key_def list_all_iff name_ok_def dest: key_parts_free)

section \<open>Components\<close>

lemma path_comps_sep: "path_comps (a @ KEY_SEPARATOR # b) = path_comps a @ path_comps b"
  by (simp add: path_comps_def split_on_split)

lemma path_comps_Nil [simp]: "path_comps [] = []"
  by (simp add: path_comps_def junk_def)

lemma path_comps_dir:
  assumes "ends_with r [KEY_SEPARATOR]"
  shows "path_comps (r @ q) = path_comps r @ path_comps q"
proof -
  obtain a where "r = a @ [KEY_SEPARATOR]"
    using assms by (auto simp: ends_with_iff)
  then show ?thesis
    using path_comps_sep [of a q] path_comps_sep [of a "[]"] by simp
qed

lemma path_comps_name: "name_ok c \<Longrightarrow> path_comps c = [c]"
  by (simp add: path_comps_def split_on_no_sep name_ok_free name_ok_not_junk)

lemma path_comps_join:
  "name_ok c \<Longrightarrow> path_comps (path_join p c) = path_comps p @ [c]"
  by (auto simp: path_join_def name_ok_not_abs path_comps_name path_comps_dir path_comps_sep)

lemma is_absolute_append: "is_absolute p \<Longrightarrow> is_absolute (p @ q)"
  by (auto simp: is_absolute_def starts_with_iff)

lemma is_absolute_not_Nil: "is_absolute p \<Longrightarrow> p \<noteq> []"
  by (auto simp: is_absolute_def starts_with_def)

lemma is_absolute_join: "is_absolute p \<Longrightarrow> name_ok c \<Longrightarrow> is_absolute (path_join p c)"
  by (auto simp: path_join_def name_ok_not_abs is_absolute_append)

lemma ends_with_name: "name_ok c \<Longrightarrow> \<not> ends_with (p @ c) [KEY_SEPARATOR]"
  by (auto simp: ends_with_iff name_ok_def good_component_def append_eq_append_conv2
      append_eq_Cons_conv)

lemma not_slash_join: "name_ok c \<Longrightarrow> \<not> ends_with (path_join p c) [KEY_SEPARATOR]"
  using ends_with_name [of c p] ends_with_name [of c "p @ [KEY_SEPARATOR]"]
  by (auto simp: path_join_def name_ok_not_abs)

section \<open>Canonical directory texts\<close>

definition root_ok :: "path \<Rightarrow> bool" where
  "root_ok r \<longleftrightarrow> is_absolute r \<and> ends_with r [KEY_SEPARATOR] \<and> list_all name_ok (path_comps r)"

definition canon :: "path \<Rightarrow> place \<Rightarrow> path \<Rightarrow> bool" where
  "canon r rel d \<longleftrightarrow> is_absolute d \<and>
     (\<exists>xs. filter (\<lambda>c. \<not> junk c) xs = path_comps r \<and>
        (split_on KEY_SEPARATOR d = xs @ rel \<or> split_on KEY_SEPARATOR d = xs @ rel @ [[]]))"

lemma canon_absolute: "canon r rel d \<Longrightarrow> is_absolute d"
  by (simp add: canon_def)

lemma canon_comps: "canon r rel d \<Longrightarrow> list_all name_ok rel \<Longrightarrow> path_comps d = path_comps r @ rel"
  unfolding canon_def path_comps_def [of d] by (auto simp: junk_def [of "[]"])

lemma ends_sep_split:
  "ends_with d [KEY_SEPARATOR] \<Longrightarrow>
   \<exists>ys. split_on KEY_SEPARATOR d = ys @ [[]] \<and>
        split_on KEY_SEPARATOR (d @ c) = ys @ split_on KEY_SEPARATOR c"
  by (auto simp: ends_with_iff split_on_split)

lemma canon_join:
  assumes "canon r rel d" "name_ok c" "list_all name_ok rel"
  shows "canon r (rel @ [c]) (path_join d c)"
proof -
  obtain xs where xs: "filter (\<lambda>c. \<not> junk c) xs = path_comps r"
    and d: "split_on KEY_SEPARATOR d = xs @ rel \<or> split_on KEY_SEPARATOR d = xs @ rel @ [[]]"
    and abs: "is_absolute d"
    using assms(1) by (auto simp: canon_def)
  have c: "split_on KEY_SEPARATOR c = [c]"
    using assms(2) by (simp add: split_on_no_sep name_ok_free)
  have "\<exists>ys. filter (\<lambda>c. \<not> junk c) ys = path_comps r \<and>
      split_on KEY_SEPARATOR (path_join d c) = ys @ rel @ [c]"
  proof (cases "ends_with d [KEY_SEPARATOR]")
    case False
    then have j: "path_join d c = d @ KEY_SEPARATOR # c"
      using abs assms(2) by (simp add: path_join_def name_ok_not_abs is_absolute_not_Nil)
    from d show ?thesis
    proof
      assume "split_on KEY_SEPARATOR d = xs @ rel"
      then show ?thesis using j xs c by (auto simp: split_on_split)
    next
      assume sp: "split_on KEY_SEPARATOR d = xs @ rel @ [[]]"
      then have "d = join_with KEY_SEPARATOR ((xs @ rel) @ [[]])"
        using join_split [of KEY_SEPARATOR d] by simp
      moreover have "ends_with (join_with KEY_SEPARATOR (zs @ [[]])) [KEY_SEPARATOR]"
        if "zs \<noteq> []" for zs
        using that by (induction zs rule: induct_list012) (auto simp: ends_with_iff join_with_Cons)
      ultimately have "xs @ rel = []" using False by blast
      then show ?thesis using sp abs by (auto simp: is_absolute_def starts_with_iff)
    qed
  next
    case True
    then obtain ys where ys: "split_on KEY_SEPARATOR d = ys @ [[]]"
        "split_on KEY_SEPARATOR (d @ c) = ys @ [c]"
      using ends_sep_split [of d c] c by auto
    have j: "path_join d c = d @ c"
      using True assms(2) by (simp add: path_join_def name_ok_not_abs)
    from d show ?thesis
    proof
      assume sp: "split_on KEY_SEPARATOR d = xs @ rel"
      have "rel = []"
      proof (rule ccontr)
        assume "rel \<noteq> []"
        then have "last rel = []" using sp ys by (metis last_append last_snoc)
        then show False using \<open>rel \<noteq> []\<close> assms(3) names_not_Nil last_in_set by metis
      qed
      then have "xs = ys @ [[]]" using sp ys by simp
      then show ?thesis using ys j xs \<open>rel = []\<close> by (auto simp: junk_def)
    next
      assume "split_on KEY_SEPARATOR d = xs @ rel @ [[]]"
      then have "ys = xs @ rel" using ys by simp
      then show ?thesis using ys j xs by auto
    qed
  qed
  then show ?thesis
    using is_absolute_join [OF abs assms(2)] by (auto simp: canon_def)
qed

lemma canon_root: "root_ok r \<Longrightarrow> canon r [] r"
  unfolding canon_def root_ok_def path_comps_def by auto

lemma canon_names:
  "canon r rel d \<Longrightarrow> list_all name_ok rel \<Longrightarrow> list_all name_ok cs \<Longrightarrow>
   canon r (rel @ cs) (foldl path_join d cs)"
proof (induction cs arbitrary: rel d)
  case Nil
  then show ?case by simp
next
  case (Cons c cs)
  then show ?case using canon_join [of r rel d c] Cons.IH [of "rel @ [c]" "path_join d c"] by simp
qed

lemma not_slash_names:
  "list_all name_ok cs \<Longrightarrow> cs \<noteq> [] \<Longrightarrow> \<not> ends_with (foldl path_join d cs) [KEY_SEPARATOR]"
  by (induction cs arbitrary: d rule: rev_induct) (auto simp: not_slash_join)

lemma skip_comps_filter:
  "\<exists>ps. skip_comps (filter (\<lambda>c. \<not> junk c) xs) (xs @ ys) = Some ps \<and>
        dropWhile junk ps = dropWhile junk ys"
proof (induction xs)
  case Nil
  then show ?case by simp
next
  case (Cons x xs)
  show ?case
  proof (cases "junk x")
    case True
    show ?thesis
    proof (cases "filter (\<lambda>c. \<not> junk c) xs")
      case Nil
      then have "dropWhile junk ((x # xs) @ ys) = dropWhile junk ys"
        using True by (simp add: filter_empty_conv dropWhile_append2)
      then show ?thesis using True Nil by simp
    next
      case (Cons b bs)
      then show ?thesis using True Cons.IH by simp
    qed
  next
    case False
    then show ?thesis using Cons.IH by simp
  qed
qed

lemma trim_end_names: "list_all name_ok cs \<Longrightarrow> trim_end cs = cs"
  by (cases cs rule: rev_cases) (auto simp: trim_end_def name_ok_not_junk)

lemma trim_end_snoc_Nil: "trim_end (cs @ [[]]) = trim_end cs"
  by (simp add: trim_end_def junk_def)

lemma canon_strip:
  assumes "canon r rel d" "root_ok r" "list_all name_ok rel" "rel \<noteq> []"
  shows "path_strip_prefix d r = Some (join_with KEY_SEPARATOR rel)"
proof -
  obtain xs ts where xs: "filter (\<lambda>c. \<not> junk c) xs = path_comps r"
    and d: "split_on KEY_SEPARATOR d = xs @ rel @ ts" and ts: "ts = [] \<or> ts = [[]]"
    using assms(1) unfolding canon_def by (metis append_Nil2)
  obtain ps where ps: "skip_comps (path_comps r) (split_on KEY_SEPARATOR d) = Some ps"
      "dropWhile junk ps = dropWhile junk (rel @ ts)"
    using skip_comps_filter [of xs "rel @ ts"] xs d by auto
  have "dropWhile junk (rel @ ts) = rel @ ts"
    using assms(3,4) by (cases rel) (auto simp: name_ok_not_junk)
  then have "trim_end (dropWhile junk ps) = rel"
    using ps(2) ts trim_end_names [OF assms(3)] by (auto simp: trim_end_snoc_Nil)
  then show ?thesis
    using ps(1) canon_absolute [OF assms(1)] assms(2)
    by (simp add: path_strip_prefix_def root_ok_def)
qed

section \<open>Parents\<close>

lemma trim_end_filter: "filter (\<lambda>c. \<not> junk c) (trim_end cs) = filter (\<lambda>c. \<not> junk c) cs"
proof -
  have "filter (\<lambda>c. \<not> junk c) (dropWhile junk ys) = filter (\<lambda>c. \<not> junk c) ys" for ys
    by (induction ys) auto
  from this [of "rev cs"] show ?thesis by (simp add: trim_end_def flip: rev_filter)
qed

lemma trim_end_last: "trim_end cs \<noteq> [] \<Longrightarrow> \<not> junk (last (trim_end cs))"
  using hd_dropWhile [of junk "rev cs"] by (simp add: trim_end_def last_rev)

lemma trim_end_Nil_iff: "trim_end cs = [] \<longleftrightarrow> list_all junk cs"
  by (auto simp: trim_end_def dropWhile_eq_Nil_conv list_all_iff)

lemma trim_end_sep_free: "x \<in> set (trim_end cs) \<Longrightarrow> x \<in> set cs"
  by (auto simp: trim_end_def dest: set_dropWhileD)

lemma absolute_split: "is_absolute p \<Longrightarrow> \<exists>cs. split_on KEY_SEPARATOR p = [] # cs \<and> cs \<noteq> []"
  by (auto simp: is_absolute_def starts_with_iff)

text \<open>The parent of an absolute path that is not the filesystem's root.\<close>

lemma path_parent_absolute:
  assumes "is_absolute p" "split_on KEY_SEPARATOR p = [] # cs" "trim_end cs \<noteq> []"
  shows "path_parent p = Some
     (if trim_end (butlast (trim_end cs)) = [] then [KEY_SEPARATOR]
      else join_with KEY_SEPARATOR ([] # trim_end (butlast (trim_end cs))))"
  using assms by (simp add: path_parent_def Let_def)

lemma path_parent_comps:
  assumes "is_absolute p" "path_comps p \<noteq> []"
  shows "\<exists>q. path_parent p = Some q \<and> is_absolute q \<and> path_comps q = butlast (path_comps p)"
proof -
  obtain cs where cs: "split_on KEY_SEPARATOR p = [] # cs" "cs \<noteq> []"
    using absolute_split [OF assms(1)] by auto
  define t where "t = trim_end cs"
  define u where "u = trim_end (butlast t)"
  have comps: "path_comps p = filter (\<lambda>c. \<not> junk c) t"
    using trim_end_filter [of cs] by (simp add: path_comps_def cs t_def junk_def [of "[]"])
  with assms(2) have "t \<noteq> []" by auto
  then have last: "\<not> junk (last t)" using trim_end_last by (auto simp: t_def)
  have "filter (\<lambda>c. \<not> junk c) u = filter (\<lambda>c. \<not> junk c) (butlast t)"
    by (simp add: u_def trim_end_filter)
  also have "\<dots> = butlast (filter (\<lambda>c. \<not> junk c) t)"
    using \<open>t \<noteq> []\<close> last by (cases t rule: rev_cases) auto
  finally have fu: "filter (\<lambda>c. \<not> junk c) u = butlast (path_comps p)"
    by (simp add: comps)
  have par: "path_parent p = Some (if u = [] then [KEY_SEPARATOR]
      else join_with KEY_SEPARATOR ([] # u))"
    using path_parent_absolute [OF assms(1) cs(1)] \<open>t \<noteq> []\<close> by (simp add: t_def u_def)
  show ?thesis
  proof (cases "u = []")
    case True
    then show ?thesis
      using par fu by (auto simp: is_absolute_def starts_with_def path_comps_def junk_def)
  next
    case False
    have "\<forall>x \<in> set ([] # u). KEY_SEPARATOR \<notin> set x"
      using cs(1) split_on_sep_free [of _ KEY_SEPARATOR p]
      by (auto simp: u_def t_def dest!: trim_end_sep_free in_set_butlastD)
    then have sp: "split_on KEY_SEPARATOR (join_with KEY_SEPARATOR ([] # u)) = [] # u"
      by (intro split_join) auto
    have "is_absolute (join_with KEY_SEPARATOR ([] # u))"
      using False by (simp add: join_with_Cons is_absolute_def starts_with_def)
    then show ?thesis
      using par False sp fu by (auto simp: path_comps_def junk_def [of "[]"])
  qed
qed

section \<open>Where a listing starts\<close>

text \<open>
  The directory below the root that a prefix hint selects: all components but the last, which is a
  partial name (or empty, when the hint ends with the separator).
\<close>

definition hint_dir :: "list_filter \<Rightarrow> place" where
  "hint_dir f = (case prefix_hint f of None \<Rightarrow> [] | Some h \<Rightarrow> butlast (key_parts h))"

text \<open>A hint whose inner components are proper names; \<open>a//b\<close> is the kind that is not.\<close>

definition hint_clean :: "list_filter \<Rightarrow> bool" where
  "hint_clean f \<longleftrightarrow> list_all good_component (hint_dir f)"

definition fs_filter_ok :: "list_filter \<Rightarrow> bool" where
  "fs_filter_ok f \<longleftrightarrow> hint_sound f \<and> hint_clean f"

lemma hint_dir_names: "hint_clean f \<Longrightarrow> list_all name_ok (hint_dir f)"
  by (auto simp: hint_clean_def hint_dir_def list_all_iff name_ok_def
      dest: key_parts_free in_set_butlastD split: option.splits)

lemma split_on_eq_Nil1: "split_on c s = [[]] \<longleftrightarrow> s = []"
  by (metis join_split join_with.simps(2) split_on.simps(1))

lemma ends_with_Cons: "ends_with (x # s) [c] \<longleftrightarrow> ends_with s [c] \<or> s = [] \<and> x = c"
  by (auto simp: ends_with_iff append_eq_Cons_conv Cons_eq_append_conv)

lemma last_split_Nil: "last (split_on c s) = [] \<longleftrightarrow> s = [] \<or> ends_with s [c]"
proof (induction s)
  case Nil
  then show ?case by simp
next
  case (Cons x s)
  show ?case
  proof (cases "x = c")
    case True
    then show ?thesis using Cons by (auto simp: ends_with_Cons)
  next
    case False
    obtain y ys where ys: "split_on c s = y # ys" by (cases "split_on c s") auto
    show ?thesis
    proof (cases "ys = []")
      case True
      then have "\<not> ends_with s [c]"
        using Cons ys split_on_eq_Nil1 [of c s] by (cases "s = []") (auto simp: ends_with_iff)
      then show ?thesis using False ys True by (simp add: ends_with_Cons)
    next
      case False
      then have "s \<noteq> []" using ys by auto
      then show ?thesis using Cons ys \<open>x \<noteq> c\<close> False by (simp add: ends_with_Cons)
    qed
  qed
qed

lemma canon_parent:
  assumes r: "root_ok r" and rel: "list_all name_ok rel"
    and sp: "split_on KEY_SEPARATOR p = xs @ rel @ [l]" "filter (\<lambda>c. \<not> junk c) xs = path_comps r"
    and p: "is_absolute p" "\<not> junk l" "xs \<noteq> []"
  shows "\<exists>q. path_parent p = Some q \<and> canon r rel q"
proof -
  obtain cs where cs: "split_on KEY_SEPARATOR p = [] # cs"
    using absolute_split [OF p(1)] by auto
  obtain ys where xs: "xs = [] # ys" "cs = ys @ rel @ [l]"
    using sp(1) cs p(3) by (cases xs) auto
  have t: "trim_end cs = cs"
    using p(2) by (simp add: xs trim_end_def)
  define u where "u = trim_end (ys @ rel)"
  have bl: "butlast cs = ys @ rel" by (simp add: xs butlast_append)
  have par: "path_parent p = Some (if u = [] then [KEY_SEPARATOR]
      else join_with KEY_SEPARATOR ([] # u))"
    using path_parent_absolute [OF p(1) cs] unfolding t bl u_def by (simp add: xs(2))
  have ys: "filter (\<lambda>c. \<not> junk c) ys = path_comps r"
    using sp(2) by (simp add: xs junk_def [of "[]"])
  show ?thesis
  proof (cases "u = []")
    case True
    then have "list_all junk (ys @ rel)" by (simp add: u_def trim_end_Nil_iff)
    then have "rel = []" "path_comps r = []"
      using rel ys by (cases rel; auto simp: name_ok_not_junk list_all_iff filter_empty_conv)+
    then have "canon r rel [KEY_SEPARATOR]"
      by (auto simp: canon_def is_absolute_def starts_with_def junk_def [of "[]"]
          intro!: exI [of _ "[[]]"])
    then show ?thesis using par True by simp
  next
    case False
    have "\<exists>zs. u = zs @ rel \<and> filter (\<lambda>c. \<not> junk c) zs = path_comps r"
    proof (cases "rel = []")
      case True
      then show ?thesis using ys trim_end_filter [of ys] by (simp add: u_def)
    next
      case False
      then have "trim_end (ys @ rel) = ys @ rel"
        using rel by (cases rel rule: rev_cases) (auto simp: trim_end_def name_ok_not_junk)
      then show ?thesis using ys by (simp add: u_def)
    qed
    then obtain zs where zs: "u = zs @ rel" "filter (\<lambda>c. \<not> junk c) zs = path_comps r" by blast
    have "\<forall>x \<in> set ([] # u). KEY_SEPARATOR \<notin> set x"
      using cs split_on_sep_free [of _ KEY_SEPARATOR p]
      by (auto simp: u_def xs dest!: trim_end_sep_free)
    then have "split_on KEY_SEPARATOR (join_with KEY_SEPARATOR ([] # u)) = ([] # zs) @ rel"
      using zs(1) by (simp add: split_join)
    moreover have "is_absolute (join_with KEY_SEPARATOR ([] # u))"
      using False by (simp add: join_with_Cons is_absolute_def starts_with_def)
    moreover have "filter (\<lambda>c. \<not> junk c) ([] # zs) = path_comps r"
      using zs(2) by (simp add: junk_def [of "[]"])
    ultimately have "canon r rel (join_with KEY_SEPARATOR ([] # u))"
      unfolding canon_def by blast
    then show ?thesis using par False by simp
  qed
qed

lemma validate_prefix_hint_Ok:
  "validate_prefix_hint h = Ok () \<Longrightarrow>
   \<not> is_absolute h \<and> (\<forall>c \<in> set (key_parts h). c \<noteq> ''.'' \<and> c \<noteq> ''..'')"
  by (auto simp: validate_prefix_hint_def is_absolute_def KEY_SEPARATOR_def res_for_Ok_iff
      split: if_splits)

lemma prefix_subdir_canon:
  assumes "root_ok r" "hint_clean f" "prefix_subdir r f = Ok d"
  shows "canon r (hint_dir f) d"
proof (cases "prefix_hint f")
  case None
  then show ?thesis using assms canon_root by (simp add: prefix_subdir_def hint_dir_def)
next
  case (Some h)
  obtain r0 where r0: "r = r0 @ [KEY_SEPARATOR]"
    using assms(1) by (auto simp: root_ok_def ends_with_iff)
  have v: "validate_prefix_hint h = Ok ()"
    using assms(3) Some by (auto simp: prefix_subdir_def res_bind_Ok_iff)
  have na: "\<not> is_absolute h" and dots: "\<forall>c \<in> set (key_parts h). c \<noteq> ''.'' \<and> c \<noteq> ''..''"
    using validate_prefix_hint_Ok [OF v] by auto
  define rel where "rel = hint_dir f"
  define l where "l = last (key_parts h)"
  have parts: "key_parts h = rel @ [l]"
    using Some by (simp add: rel_def l_def hint_dir_def)
  have rel: "list_all name_ok rel" using hint_dir_names [OF assms(2)] by (simp add: rel_def)
  have full: "path_join r h = r @ h"
    using na assms(1) by (simp add: path_join_def root_ok_def)
  have sp: "split_on KEY_SEPARATOR (r @ h) = split_on KEY_SEPARATOR r0 @ rel @ [l]"
    using parts by (simp add: r0 split_on_split)
  have fr: "filter (\<lambda>c. \<not> junk c) (split_on KEY_SEPARATOR r0) = path_comps r"
    using path_comps_sep [of r0 "[]"] by (simp add: r0 path_comps_def)
  have abs: "is_absolute (r @ h)"
    using assms(1) by (simp add: root_ok_def is_absolute_append)
  have e: "ends_with (r @ h) [KEY_SEPARATOR] \<longleftrightarrow> l = []"
    using last_split_Nil [of KEY_SEPARATOR "r @ h"] sp r0 by simp
  show ?thesis
  proof (cases "l = []")
    case True
    then have "d = r @ h" using assms(3) Some v full e by (simp add: prefix_subdir_def)
    then show ?thesis using sp fr abs True by (auto simp: canon_def rel_def)
  next
    case False
    then have "\<not> junk l" using dots parts by (simp add: junk_def)
    then obtain q where "path_parent (r @ h) = Some q" "canon r rel q"
      using canon_parent [OF assms(1) rel sp fr abs] by auto
    then show ?thesis using assms(3) Some v full e False by (simp add: prefix_subdir_def rel_def)
  qed
qed

text \<open>A key that starts with the hint lies below the directory of the hint.\<close>

lemma hint_dir_covers:
  assumes "hint_sound f" "matches f k m"
  shows "\<exists>cs. key_parts k = hint_dir f @ cs \<and> cs \<noteq> []"
proof (cases "prefix_hint f")
  case None
  then show ?thesis by (simp add: hint_dir_def)
next
  case (Some h)
  then obtain t where "k = h @ t"
    using assms by (auto simp: hint_sound_def starts_with_iff)
  then show ?thesis
    using Some split_on_last [of KEY_SEPARATOR h t] by (simp add: hint_dir_def)
qed

section \<open>The path of a key\<close>

lemma key_to_path_Ok:
  assumes "root_ok (fbs_root self)" "valid_key k"
  shows "\<exists>p. key_to_path self k = Ok p \<and> is_absolute p \<and>
    path_comps p = path_comps (fbs_root self) @ key_parts k \<and> \<not> ends_with p [KEY_SEPARATOR]"
proof -
  let ?p = "foldl path_join (fbs_root self) (key_parts k)"
  have names: "list_all name_ok (key_parts k)" by (rule valid_key_names [OF assms(2)])
  have c: "canon (fbs_root self) ([] @ key_parts k) ?p"
    using canon_names [OF canon_root [OF assms(1)] _ names] by simp
  then show ?thesis
    using canon_absolute [OF c] canon_comps [OF c] names not_slash_names [OF names]
    by (simp add: key_to_path_def assms(2))
qed

lemma key_to_path_invalid: "\<not> valid_key k \<Longrightarrow> \<exists>m. key_to_path self k = Err (InvalidInput m)"
  using validate_invalid [of k] by (auto simp: key_to_path_def)

end
