(* ===== verification/Fs_Facts.thy ===== *)
theory Fs_Facts
  imports Fs_Paths
begin

text \<open>
  Facts about the filesystem state: well-formed trees, what lookups return in them, and what each
  system call of \<open>Fs_Os\<close> changes. \<open>fs_frame\<close> says that two states agree on everything but the tree.
\<close>

named_theorems fs_frames \<open>what the system calls leave alone\<close>

section \<open>Well-formed trees\<close>

definition fs_wf :: "'z fsys_scheme \<Rightarrow> bool" where
  "fs_wf fs \<longleftrightarrow> distinct (map fst (fs_nodes fs)) \<and>
     (\<forall>t n. map_of (fs_nodes fs) t = Some n \<longrightarrow>
        t \<noteq> [] \<and> list_all name_ok t \<and> node_at fs (butlast t) = Some DirN)"

definition fs_frame :: "'z fsys_scheme \<Rightarrow> 'z fsys_scheme \<Rightarrow> bool" where
  "fs_frame fs fs' \<longleftrightarrow> fs' = fs\<lparr>fs_nodes := fs_nodes fs'\<rparr>"

lemma fs_frame_refl [simp, intro]: "fs_frame fs fs"
  by (simp add: fs_frame_def)

lemma fs_frame_trans: "fs_frame a b \<Longrightarrow> fs_frame b c \<Longrightarrow> fs_frame a c"
  by (cases a; cases b; cases c) (simp add: fs_frame_def)

lemma fs_frameD:
  assumes "fs_frame fs fs'"
  shows "fs_cwd fs' = fs_cwd fs" "fs_fault fs' = fs_fault fs" "fs_flushed fs' = fs_flushed fs"
    "fs_clock fs' = fs_clock fs" "fs_dir_stat fs' = fs_dir_stat fs" "fsys.more fs' = fsys.more fs"
  using assms by (cases fs; cases fs'; simp add: fs_frame_def)+

lemma fs_wfD:
  assumes "fs_wf fs" "map_of (fs_nodes fs) t = Some n"
  shows "t \<noteq> []" "list_all name_ok t" "node_at fs (butlast t) = Some DirN"
  using assms unfolding fs_wf_def by blast+

lemma set_node_frame [fs_frames]: "fs_frame fs (set_node t n fs)"
  by (simp add: fs_frame_def set_node_def)

lemma del_node_frame [fs_frames]: "fs_frame fs (del_node t fs)"
  by (simp add: fs_frame_def del_node_def)

lemma node_at_Nil [simp]: "node_at fs [] = Some DirN"
  by (simp add: node_at_def)

lemma node_at_set_node: "node_at (set_node t n fs) u =
    (if u = t \<and> t \<noteq> [] then Some n else node_at fs u)"
  by (simp add: node_at_def set_node_def update_conv')

lemma node_at_del_node: "node_at (del_node t fs) u =
    (if u = t \<and> t \<noteq> [] then None else node_at fs u)"
  by (simp add: node_at_def del_node_def delete_conv')

lemma node_at_names: "fs_wf fs \<Longrightarrow> node_at fs t = Some n \<Longrightarrow> list_all name_ok t"
  using fs_wfD(2) [of fs t n] by (cases "t = []") (auto simp: node_at_def)

lemma node_at_parent: "fs_wf fs \<Longrightarrow> node_at fs (t @ [c]) = Some n \<Longrightarrow> node_at fs t = Some DirN"
  using fs_wfD(3) [of fs "t @ [c]" n] by (simp add: node_at_def)

lemma node_at_prefix:
  "fs_wf fs \<Longrightarrow> node_at fs (t @ u) = Some n \<Longrightarrow> u \<noteq> [] \<Longrightarrow> node_at fs t = Some DirN"
proof (induction u arbitrary: n rule: rev_induct)
  case Nil
  then show ?case by simp
next
  case (snoc c u)
  then have "node_at fs (t @ u) = Some DirN"
    using node_at_parent [of fs "t @ u" c n] by simp
  with snoc show ?case by (cases "u = []") auto
qed

lemma set_node_wf:
  assumes "fs_wf fs" "list_all name_ok t" "t \<noteq> []" "node_at fs (butlast t) = Some DirN"
    and "n = DirN \<or> node_at fs t \<noteq> Some DirN"
  shows "fs_wf (set_node t n fs)"
proof -
  have "distinct (map fst (fs_nodes (set_node t n fs)))"
    using assms(1) by (simp add: fs_wf_def set_node_def distinct_update)
  moreover have "u \<noteq> [] \<and> list_all name_ok u \<and>
      node_at (set_node t n fs) (butlast u) = Some DirN"
    if "map_of (fs_nodes (set_node t n fs)) u = Some m" for u m
  proof -
    have u: "u = t \<or> map_of (fs_nodes fs) u = Some m"
      using that by (auto simp: set_node_def update_conv' split: if_splits)
    then have "u \<noteq> [] \<and> list_all name_ok u \<and> node_at fs (butlast u) = Some DirN"
      using assms(2,3,4) fs_wfD [OF assms(1), of u m] by blast
    then show ?thesis
      using assms(5) by (auto simp: node_at_set_node)
  qed
  ultimately show ?thesis by (simp add: fs_wf_def)
qed

lemma del_node_wf:
  assumes "fs_wf fs" "node_at fs t \<noteq> Some DirN"
  shows "fs_wf (del_node t fs)"
proof -
  have "distinct (map fst (fs_nodes (del_node t fs)))"
    using assms(1) by (simp add: fs_wf_def del_node_def distinct_delete)
  moreover have "u \<noteq> [] \<and> list_all name_ok u \<and> node_at (del_node t fs) (butlast u) = Some DirN"
    if "map_of (fs_nodes (del_node t fs)) u = Some m" for u m
  proof -
    have "map_of (fs_nodes fs) u = Some m"
      using that by (auto simp: del_node_def delete_conv' split: if_splits)
    then show ?thesis
      using fs_wfD [OF assms(1), of u m] assms(2) by (auto simp: node_at_del_node)
  qed
  ultimately show ?thesis by (simp add: fs_wf_def)
qed

section \<open>Lookup\<close>

lemma walk_Ok: "fs_wf fs \<Longrightarrow> node_at fs (cur @ cs) = Some n \<Longrightarrow> walk fs cur cs = Ok n"
proof (induction cs arbitrary: cur)
  case Nil
  then show ?case by simp
next
  case (Cons c cs)
  then have "node_at fs cur = Some DirN"
    using node_at_prefix [of fs cur "c # cs" n] by simp
  with Cons show ?case by simp
qed

lemma walk_Err:
  "node_at fs (cur @ cs) = None \<Longrightarrow> walk fs cur cs = Err enoent \<or> walk fs cur cs = Err enotdir"
  by (induction cs arbitrary: cur) (auto split: option.split node.split)

lemma resolve_Ok:
  assumes "fs_wf fs" "node_at fs (target fs p) = Some n"
  shows "resolve fs p = (if ends_with p [KEY_SEPARATOR] \<and> n \<noteq> DirN then Err enotdir else Ok n)"
  using walk_Ok [of fs "[]" "target fs p" n] assms by (simp add: resolve_def)

lemma resolve_Err:
  assumes "node_at fs (target fs p) = None"
  shows "resolve fs p = Err enoent \<or> resolve fs p = Err enotdir"
  using walk_Err [of fs "[]" "target fs p"] assms by (auto simp: resolve_def)

definition fault_free :: "'z fsys_scheme \<Rightarrow> bool" where
  "fault_free fs \<longleftrightarrow> (\<forall>c. fs_fault fs c = None)"

lemma faulty_free [simp]: "fault_free fs \<Longrightarrow> faulty c m fs = m fs"
  by (simp add: faulty_def fault_free_def)

lemma fault_free_frame: "fs_frame fs fs' \<Longrightarrow> fault_free fs' = fault_free fs"
  by (simp add: fault_free_def fs_frameD)

lemma target_frame: "fs_frame fs fs' \<Longrightarrow> target fs' p = target fs p"
  by (simp add: target_def fs_frameD)

lemma target_absolute: "is_absolute p \<Longrightarrow> target fs p = path_comps p"
  by (simp add: target_def)

section \<open>Calls that only look\<close>

lemma metadata_state: "snd (metadata p fs) = fs"
  by (simp add: metadata_def faulty_def split: option.split)

lemma metadata_eq: "metadata p fs = (fst (metadata p fs), fs)"
  by (metis metadata_state prod.collapse)

lemma read_dir_state: "snd (read_dir p fs) = fs"
  by (simp add: read_dir_def faulty_def split: option.split)

lemma open_file_state: "snd (open_file p fs) = fs"
  by (simp add: open_file_def faulty_def split: option.split)

lemma next_entry_state: "snd (next_entry p i fs) = fs"
  by (simp add: next_entry_def faulty_def split: option.split)

lemma calls_read_only [read_only_intros]:
  "read_only (metadata p)" "read_only (read_dir p)" "read_only (open_file p)"
  "read_only (next_entry p i)"
  by (simp_all add: read_only_def metadata_state read_dir_state open_file_state next_entry_state)

lemma metadata_found:
  assumes "fs_wf fs" "fault_free fs" "node_at fs (target fs p) = Some n"
    and "ends_with p [KEY_SEPARATOR] \<longrightarrow> n = DirN"
  shows "metadata p fs = (Ok (stat_of fs (target fs p) n), fs)"
  using assms by (simp add: metadata_def resolve_Ok)

lemma metadata_missing:
  assumes "fault_free fs" "node_at fs (target fs p) = None"
  shows "metadata p fs = (Err enoent, fs) \<or> metadata p fs = (Err enotdir, fs)"
  using assms resolve_Err [of fs p] by (auto simp: metadata_def)

lemma st_is_dir_stat_of [simp]: "st_is_dir (stat_of fs t n) \<longleftrightarrow> n = DirN"
  by (simp add: stat_of_def split: node.split)

definition is_file :: "'z fsys_scheme \<Rightarrow> place \<Rightarrow> bool" where
  "is_file fs t \<longleftrightarrow> (\<exists>b m. node_at fs t = Some (FileN b m))"

lemma is_file_iff: "is_file fs t \<longleftrightarrow> node_at fs t \<noteq> None \<and> node_at fs t \<noteq> Some DirN"
  by (cases "node_at fs t"; cases "the (node_at fs t)") (auto simp: is_file_def)

lemma path_is_file_iff:
  assumes "fs_wf fs" "fault_free fs" "\<not> ends_with p [KEY_SEPARATOR]"
  shows "path_is_file p fs \<longleftrightarrow> is_file fs (target fs p)"
proof (cases "node_at fs (target fs p)")
  case None
  then show ?thesis
    using metadata_missing [OF assms(2), of p] by (auto simp: path_is_file_def is_file_def)
next
  case (Some n)
  then show ?thesis
    using metadata_found [OF assms(1,2) Some] assms(3)
    by (cases n) (auto simp: path_is_file_def is_file_def)
qed

lemma path_is_dir_iff:
  assumes "fs_wf fs" "fault_free fs"
  shows "path_is_dir p fs \<longleftrightarrow> node_at fs (target fs p) = Some DirN"
proof (cases "node_at fs (target fs p)")
  case None
  then show ?thesis
    using metadata_missing [OF assms(2), of p] by (auto simp: path_is_dir_def)
next
  case (Some n)
  then show ?thesis
    using assms by (cases n) (auto simp: path_is_dir_def metadata_def resolve_Ok)
qed

lemma path_exists_iff:
  assumes "fs_wf fs" "fault_free fs" "\<not> ends_with p [KEY_SEPARATOR]"
  shows "path_exists p fs \<longleftrightarrow> node_at fs (target fs p) \<noteq> None"
proof (cases "node_at fs (target fs p)")
  case None
  then show ?thesis
    using metadata_missing [OF assms(2), of p] by (auto simp: path_exists_def)
next
  case (Some n)
  then show ?thesis
    using metadata_found [OF assms(1,2) Some] assms(3) by (auto simp: path_exists_def)
qed

lemma open_file_found:
  assumes "fs_wf fs" "fault_free fs" "node_at fs (target fs p) = Some n"
    "\<not> ends_with p [KEY_SEPARATOR]"
  shows "open_file p fs =
    (Ok (case n of FileN b _ \<Rightarrow> reader_of b | DirN \<Rightarrow> failing_reader eisdir), fs)"
  using assms by (simp add: open_file_def resolve_Ok)

lemma child_names_iff:
  "c \<in> set (child_names fs t) \<longleftrightarrow> node_at fs (t @ [c]) \<noteq> None"
proof -
  have "c \<in> set (child_names fs t) \<longleftrightarrow> t @ [c] \<in> set (map fst (fs_nodes fs))"
    by (force simp: child_names_def image_iff simp flip: snoc_eq_iff_butlast)
  also have "\<dots> \<longleftrightarrow> node_at fs (t @ [c]) \<noteq> None"
    by (simp add: node_at_def map_of_eq_None_iff)
  finally show ?thesis .
qed

lemma child_names_distinct: "fs_wf fs \<Longrightarrow> distinct (child_names fs t)"
proof -
  assume "fs_wf fs"
  then have "distinct (filter (\<lambda>p. p \<noteq> [] \<and> butlast p = t) (map fst (fs_nodes fs)))"
    by (simp add: fs_wf_def)
  moreover have "inj_on last (set (filter (\<lambda>p. p \<noteq> [] \<and> butlast p = t) (map fst (fs_nodes fs))))"
    by (rule inj_onI) (auto, metis append_butlast_last_id)
  ultimately show ?thesis by (simp add: child_names_def distinct_map)
qed

lemma child_names_ok: "fs_wf fs \<Longrightarrow> list_all name_ok (child_names fs t)"
  using node_at_names [of fs "t @ [c]" for c] by (auto simp: list_all_iff child_names_iff)

lemma read_dir_found:
  assumes "fs_wf fs" "fault_free fs" "node_at fs (target fs p) = Some DirN"
  shows "read_dir p fs = (Ok (child_names fs (target fs p)), fs)"
  using assms by (simp add: read_dir_def resolve_Ok)

lemma next_entry_free [simp]: "fault_free fs \<Longrightarrow> next_entry p i fs = (Ok (), fs)"
  by (simp add: next_entry_def)

section \<open>Calls that write\<close>

text \<open>
  \<open>fs_grows\<close>: at most directories were added. \<open>files_but t\<close>: no file other than \<open>t\<close> changed and no
  directory disappeared.
\<close>

definition files_but :: "place \<Rightarrow> 'z fsys_scheme \<Rightarrow> 'z fsys_scheme \<Rightarrow> bool" where
  "files_but t fs fs' \<longleftrightarrow> fs_wf fs' \<and> fs_frame fs fs' \<and>
     (\<forall>u b m. u \<noteq> t \<longrightarrow> node_at fs' u = Some (FileN b m) \<longleftrightarrow> node_at fs u = Some (FileN b m)) \<and>
     (\<forall>u. node_at fs u = Some DirN \<longrightarrow> node_at fs' u = Some DirN)"

definition fs_grows :: "'z fsys_scheme \<Rightarrow> 'z fsys_scheme \<Rightarrow> bool" where
  "fs_grows fs fs' \<longleftrightarrow> files_but [] fs fs'"

lemma files_but_refl [simp]: "fs_wf fs \<Longrightarrow> files_but t fs fs"
  by (simp add: files_but_def)

lemma files_but_trans: "files_but t a b \<Longrightarrow> files_but t b c \<Longrightarrow> files_but t a c"
  unfolding files_but_def by (metis fs_frame_trans)

lemma fs_grows_files_but: "fs_grows fs fs' \<Longrightarrow> files_but t fs fs'"
  unfolding fs_grows_def files_but_def
  by (metis node.distinct(1) node_at_Nil option.inject)

lemma fs_grows_trans: "fs_grows a b \<Longrightarrow> fs_grows b c \<Longrightarrow> fs_grows a c"
  unfolding fs_grows_def by (rule files_but_trans)

lemma fs_grows_add_dir:
  assumes "fs_wf fs" "list_all name_ok t" "t \<noteq> []" "node_at fs (butlast t) = Some DirN"
    and "node_at fs t = None"
  shows "fs_grows fs (set_node t DirN fs)"
  using set_node_wf [OF assms(1-4), of DirN] assms(5)
  by (auto simp: fs_grows_def files_but_def node_at_set_node set_node_frame)

lemma set_file_files_but:
  assumes "fs_wf fs" "list_all name_ok t" "t \<noteq> []" "node_at fs (butlast t) = Some DirN"
    and "node_at fs t \<noteq> Some DirN"
  shows "files_but t fs (set_node t (FileN b m) fs)"
  using set_node_wf [OF assms(1-4), of "FileN b m"] assms(5)
  by (auto simp: files_but_def node_at_set_node set_node_frame)

lemma mkdirs_effect:
  assumes "fs_wf fs" "fault_free fs" "node_at fs cur = Some DirN" "list_all name_ok (cur @ cs)"
    and "mkdirs cur cs fs = (r, fs')"
  shows "fs_grows fs fs' \<and> r \<noteq> Hang \<and> (r = Ok () \<longrightarrow> node_at fs' (cur @ cs) = Some DirN)"
  using assms
proof (induction cs arbitrary: cur fs)
  case Nil
  then show ?case by (auto simp: fs_grows_def)
next
  case (Cons c cs)
  show ?case
  proof (cases "node_at fs (cur @ [c])")
    case None
    let ?fs = "set_node (cur @ [c]) DirN fs"
    have g: "fs_grows fs ?fs"
      using fs_grows_add_dir [of fs "cur @ [c]"] Cons.prems None by simp
    then have "fault_free ?fs" "fs_wf ?fs"
      using Cons.prems(2) fault_free_frame [of fs ?fs] by (auto simp: fs_grows_def files_but_def)
    moreover have "mkdirs (cur @ [c]) cs ?fs = (r, fs')"
      using Cons.prems None by simp
    moreover have "node_at ?fs (cur @ [c]) = Some DirN"
      by (simp add: node_at_set_node)
    ultimately have "fs_grows ?fs fs' \<and> r \<noteq> Hang \<and>
        (r = Ok () \<longrightarrow> node_at fs' ((cur @ [c]) @ cs) = Some DirN)"
      using Cons.IH [of ?fs "cur @ [c]"] Cons.prems(4) by simp
    then show ?thesis using fs_grows_trans [OF g] by simp
  next
    case (Some n)
    show ?thesis
    proof (cases n)
      case (FileN b m)
      then show ?thesis using Cons.prems Some by (auto simp: fs_grows_def)
    next
      case DirN
      then show ?thesis using Cons.IH [of fs "cur @ [c]"] Cons.prems Some by simp
    qed
  qed
qed

lemma mkdirs_succeeds:
  assumes "fs_wf fs" "fault_free fs" "node_at fs cur = Some DirN" "list_all name_ok (cur @ cs)"
    and "\<And>u v. cs = u @ v \<Longrightarrow> \<not> is_file fs (cur @ u)"
  shows "fst (mkdirs cur cs fs) = Ok ()"
  using assms
proof (induction cs arbitrary: cur fs)
  case Nil
  then show ?case by simp
next
  case (Cons c cs)
  have nf: "\<not> is_file fs (cur @ [c])" using Cons.prems(5) [of "[c]" cs] by simp
  have nf': "\<not> is_file fs ((cur @ [c]) @ u)" if "cs = u @ v" for u v
    using Cons.prems(5) [of "c # u" v] that by simp
  show ?case
  proof (cases "node_at fs (cur @ [c])")
    case None
    let ?fs = "set_node (cur @ [c]) DirN fs"
    have g: "fs_grows fs ?fs"
      using fs_grows_add_dir [of fs "cur @ [c]"] Cons.prems None by simp
    then have "fault_free ?fs" "fs_wf ?fs"
      using Cons.prems(2) fault_free_frame [of fs ?fs] by (auto simp: fs_grows_def files_but_def)
    moreover have "\<not> is_file ?fs ((cur @ [c]) @ u)" if "cs = u @ v" for u v
      using nf' [OF that] by (simp add: is_file_def node_at_set_node)
    moreover have "node_at ?fs (cur @ [c]) = Some DirN" by (simp add: node_at_set_node)
    ultimately show ?thesis
      using Cons.IH [of ?fs "cur @ [c]"] Cons.prems(2,4) None by simp
  next
    case (Some n)
    then have "n = DirN" using nf by (cases n) (auto simp: is_file_def)
    then show ?thesis using Cons.IH [of fs "cur @ [c]"] Cons.prems Some nf' by simp
  qed
qed

lemma create_dir_all_effect:
  assumes "fs_wf fs" "fault_free fs" "is_absolute p" "list_all name_ok (path_comps p)"
    and "create_dir_all p fs = (r, fs')"
  shows "fs_grows fs fs' \<and> r \<noteq> Hang \<and> (r = Ok () \<longrightarrow> node_at fs' (path_comps p) = Some DirN)"
  using mkdirs_effect [of fs "[]" "path_comps p" r fs'] assms
  by (simp add: create_dir_all_def is_absolute_not_Nil target_absolute)

lemma create_dir_all_succeeds:
  assumes "fs_wf fs" "fault_free fs" "is_absolute p" "list_all name_ok (path_comps p)"
    and "\<And>u v. path_comps p = u @ v \<Longrightarrow> \<not> is_file fs u"
  shows "fst (create_dir_all p fs) = Ok ()"
  using mkdirs_succeeds [of fs "[]" "path_comps p"] assms
  by (simp add: create_dir_all_def is_absolute_not_Nil target_absolute)

text \<open>The directories that are new lie on the path.\<close>

lemma mkdirs_adds:
  "mkdirs cur cs fs = (r, fs') \<Longrightarrow> node_at fs' u = Some DirN \<Longrightarrow> node_at fs u \<noteq> Some DirN \<Longrightarrow>
   length u \<le> length (cur @ cs)"
proof (induction cs arbitrary: cur fs)
  case Nil
  then show ?case by simp
next
  case (Cons c cs)
  show ?case
  proof (cases "node_at fs (cur @ [c])")
    case None
    show ?thesis
    proof (cases "fs_fault fs (SysMkdir (cur @ [c]))")
      case fault: None
      then have "mkdirs (cur @ [c]) cs (set_node (cur @ [c]) DirN fs) = (r, fs')"
        using Cons.prems(1) None by (simp add: faulty_def)
      then show ?thesis
        using Cons.IH Cons.prems(2,3) by (cases "u = cur @ [c]") (fastforce simp: node_at_set_node)+
    next
      case (Some e)
      then show ?thesis using Cons.prems None by (simp add: faulty_def)
    qed
  next
    case (Some n)
    then show ?thesis
      using Cons.prems Cons.IH [of "cur @ [c]" fs] by (cases n) auto
  qed
qed

lemma create_dir_all_adds:
  assumes "fs_wf fs" "fault_free fs" "is_absolute p" "list_all name_ok (path_comps p)"
    and "create_dir_all p fs = (r, fs')" "node_at fs' u = Some DirN" "node_at fs u \<noteq> Some DirN"
  shows "length u \<le> length (path_comps p)"
  using mkdirs_adds [of "[]" "path_comps p" fs r fs' u] assms
  by (simp add: create_dir_all_def is_absolute_not_Nil target_absolute)

lemma create_file_effect:
  assumes "fs_wf fs" "fault_free fs" "is_absolute p" "list_all name_ok (path_comps p)"
    and "create_file p fs = (r, fs')"
  shows "files_but (path_comps p) fs fs' \<and> r \<noteq> Hang \<and>
    (r = Ok () \<longrightarrow> path_comps p \<noteq> [] \<and> is_file fs' (path_comps p))"
proof -
  let ?t = "path_comps p"
  show ?thesis
  proof (cases "?t = [] \<or> ends_with p [KEY_SEPARATOR]")
    case True
    then show ?thesis
      using assms by (auto simp: create_file_def target_absolute Let_def)
  next
    case False
    show ?thesis
    proof (cases "node_at fs (butlast ?t)")
      case None
      then show ?thesis
        using walk_Err [of fs "[]" "butlast ?t"] assms False
        by (auto simp: create_file_def target_absolute Let_def)
    next
      case (Some n)
      then have "walk fs [] (butlast ?t) = Ok n" using walk_Ok [of fs "[]"] assms(1) by simp
      then show ?thesis
        using assms False Some set_file_files_but [of fs ?t "[]" "fs_clock fs"]
        by (cases n) (auto simp: create_file_def target_absolute Let_def is_file_def
            node_at_set_node split: if_splits)
    qed
  qed
qed

lemma create_file_succeeds:
  assumes "fs_wf fs" "fault_free fs" "is_absolute p" "\<not> ends_with p [KEY_SEPARATOR]"
    and "path_comps p \<noteq> []" "node_at fs (butlast (path_comps p)) = Some DirN"
    and "node_at fs (path_comps p) \<noteq> Some DirN"
  shows "fst (create_file p fs) = Ok ()"
  using assms walk_Ok [of fs "[]" "butlast (path_comps p)" DirN]
  by (simp add: create_file_def target_absolute Let_def)

lemma copy_to_file_effect:
  assumes "fs_wf fs" "fault_free fs" "is_absolute p" "is_file fs (path_comps p)"
    and "path_comps p \<noteq> []" "copy_to_file p rd fs = (r, fs')"
  shows "files_but (path_comps p) fs fs' \<and> is_file fs' (path_comps p) \<and>
    (r = Ok () \<longleftrightarrow> rd_end rd = Eof) \<and>
    (r = Ok () \<longrightarrow> node_at fs' (path_comps p) = Some (FileN (rd_bytes rd) (fs_clock fs)))"
proof -
  let ?t = "path_comps p"
  obtain b0 m0 where n: "node_at fs ?t = Some (FileN b0 m0)" using assms(4) by (auto simp: is_file_def)
  have "node_at fs (butlast ?t) = Some DirN"
    using node_at_prefix [OF assms(1), of "butlast ?t" "[last ?t]"] n assms(5) by simp
  then have "files_but ?t fs (set_node ?t (FileN b m) fs)" for b m
    using set_file_files_but [OF assms(1) node_at_names [OF assms(1) n] assms(5)] n by simp
  then show ?thesis
    using assms(2,3,5,6)
    by (auto simp: copy_to_file_def target_absolute Let_def fault_free_def is_file_def
        node_at_set_node split: stream_end.splits)
qed

lemma remove_file_effect:
  assumes "fs_wf fs" "fault_free fs" "is_absolute p" "\<not> ends_with p [KEY_SEPARATOR]"
    and "remove_file p fs = (r, fs')"
  shows "files_but (path_comps p) fs fs' \<and> r \<noteq> Hang \<and> \<not> (r = Ok () \<and> is_file fs' (path_comps p)) \<and>
    (\<forall>e. r = Err e \<longrightarrow> fs' = fs \<and> \<not> is_file fs (path_comps p))"
proof (cases "node_at fs (path_comps p)")
  case None
  then show ?thesis
    using resolve_Err [of fs p] assms by (auto simp: remove_file_def target_absolute is_file_def)
next
  case (Some n)
  then have res: "resolve fs p = Ok n"
    using resolve_Ok [OF assms(1), of p n] assms by (simp add: target_absolute)
  show ?thesis
  proof (cases n)
    case (FileN b m)
    then have "path_comps p \<noteq> []" using Some by auto
    then have "files_but (path_comps p) fs (del_node (path_comps p) fs)"
      using del_node_wf [OF assms(1)] Some FileN
      by (auto simp: files_but_def del_node_frame node_at_del_node)
    then show ?thesis
      using res FileN assms(2,3,5) \<open>path_comps p \<noteq> []\<close>
      by (auto simp: remove_file_def target_absolute is_file_def node_at_del_node)
  next
    case DirN
    then show ?thesis
      using res assms Some by (auto simp: remove_file_def is_file_def)
  qed
qed

lemma remove_file_found:
  assumes "fs_wf fs" "fault_free fs" "is_absolute p" "\<not> ends_with p [KEY_SEPARATOR]"
    and "is_file fs (path_comps p)"
  shows "fst (remove_file p fs) = Ok ()"
proof -
  obtain r fs' where rf: "remove_file p fs = (r, fs')" by (cases "remove_file p fs")
  then have "r \<noteq> Hang" "\<And>e. r \<noteq> Err e"
    using remove_file_effect [OF assms(1-4) rf] assms(5) by auto
  then show ?thesis using rf by (cases r) auto
qed

end
