(* ===== verification/Fs_Correct.thy ===== *)
theory Fs_Correct
  imports Fs_Facts
begin

text \<open>
  The filesystem backend's single-blob operations meet the contract: the invariant \<open>fs_inv\<close> and the
  abstraction \<open>fs_blobs\<close>, and what \<open>put\<close>, \<open>get\<close>, \<open>delete\<close>, \<open>exists\<close> and \<open>get_with_metadata\<close> do on
  every branch. The listings follow in \<open>Fs_Walk\<close>.
\<close>

section \<open>Invariant and abstraction\<close>

abbreviation root_place :: "fs_blob_store \<Rightarrow> place" where
  "root_place self \<equiv> path_comps (fbs_root self)"

definition key_place :: "fs_blob_store \<Rightarrow> key \<Rightarrow> place" where
  "key_place self k = root_place self @ key_parts k"

definition fs_blobs :: "fs_blob_store \<Rightarrow> 'z fsys_scheme \<Rightarrow> key \<Rightarrow> bytes option" where
  "fs_blobs self w k =
     (case node_at w (key_place self k) of Some (FileN b m) \<Rightarrow> Some b | _ \<Rightarrow> None)"

definition fs_inv :: "fs_blob_store \<Rightarrow> 'z fsys_scheme \<Rightarrow> bool" where
  "fs_inv self w \<longleftrightarrow> root_ok (fbs_root self) \<and> fs_wf w \<and> fault_free w \<and>
     node_at w (root_place self) = Some DirN \<and>
     (\<forall>rel. rel \<noteq> [] \<longrightarrow> is_file w (root_place self @ rel) \<longrightarrow> utf8 (join_with KEY_SEPARATOR rel))"

lemma fs_invD:
  assumes "fs_inv self w"
  shows "root_ok (fbs_root self)" "fs_wf w" "fault_free w" "node_at w (root_place self) = Some DirN"
    "rel \<noteq> [] \<Longrightarrow> is_file w (root_place self @ rel) \<Longrightarrow> utf8 (join_with KEY_SEPARATOR rel)"
  using assms by (auto simp: fs_inv_def)

lemma key_place_inj: "key_place self k = key_place self k' \<longleftrightarrow> k = k'"
  by (auto simp: key_place_def dest: split_on_inj)

lemma key_place_not_Nil [simp]: "key_place self k \<noteq> []"
  by (simp add: key_place_def)

lemma fs_blobs_Some: "fs_blobs self w k = Some b \<longleftrightarrow> (\<exists>m. node_at w (key_place self k) = Some (FileN b m))"
  by (auto simp: fs_blobs_def split: option.split node.split)

lemma fs_blobs_None: "fs_blobs self w k = None \<longleftrightarrow> \<not> is_file w (key_place self k)"
  by (auto simp: fs_blobs_def is_file_def split: option.split node.split)

lemma fs_blobs_valid_names: "fs_inv self w \<Longrightarrow> fs_blobs self w k = Some b \<Longrightarrow> list_all name_ok (key_parts k)"
  using node_at_names [OF fs_invD(2), of self w "key_place self k"]
  by (auto simp: fs_blobs_Some key_place_def)

text \<open>Changing one key's file, or adding directories, keeps the invariant and every other blob.\<close>

lemma fs_inv_files_but:
  assumes "fs_inv self w" "files_but (key_place self k) w w'" "utf8 k"
  shows "fs_inv self w'"
proof -
  have "utf8 (join_with KEY_SEPARATOR rel)"
    if "rel \<noteq> []" "is_file w' (root_place self @ rel)" for rel
  proof (cases "root_place self @ rel = key_place self k")
    case True
    then show ?thesis using assms(3) by (simp add: key_place_def)
  next
    case False
    then have "is_file w (root_place self @ rel)"
      using that(2) assms(2) by (auto simp: files_but_def is_file_def)
    then show ?thesis using fs_invD(5) [OF assms(1)] that(1) by simp
  qed
  then show ?thesis
    using assms(1,2) fault_free_frame [of w w'] by (auto simp: fs_inv_def files_but_def)
qed

lemma fs_blobs_files_but:
  "files_but (key_place self k) w w' \<Longrightarrow> k' \<noteq> k \<Longrightarrow> fs_blobs self w' k' = fs_blobs self w k'"
proof -
  assume f: "files_but (key_place self k) w w'" and "k' \<noteq> k"
  then have "fs_blobs self w' k' = Some b \<longleftrightarrow> fs_blobs self w k' = Some b" for b
    by (auto simp: fs_blobs_Some files_but_def key_place_inj)
  then show ?thesis by (metis option.exhaust)
qed

section \<open>The path of a valid key\<close>

lemma key_path:
  assumes "fs_inv self w" "valid_key k"
  obtains p where "key_to_path self k = Ok p" "is_absolute p" "path_comps p = key_place self k"
    "\<not> ends_with p [KEY_SEPARATOR]" "target w p = key_place self k"
    "list_all name_ok (key_place self k)"
proof -
  obtain p where p: "key_to_path self k = Ok p" "is_absolute p" "path_comps p = key_place self k"
      "\<not> ends_with p [KEY_SEPARATOR]"
    using key_to_path_Ok [of self k] assms fs_invD(1) by (auto simp: key_place_def)
  have "list_all name_ok (key_place self k)"
    using valid_key_names [OF assms(2)] fs_invD(1) [OF assms(1)]
    by (simp add: key_place_def root_ok_def)
  with p show thesis using that target_absolute by metis
qed

lemma ensure_root_ok: "fs_inv self w \<Longrightarrow> ensure_root self w = (Ok (), w)"
proof -
  assume i: "fs_inv self w"
  then have "is_absolute (fbs_root self)" using fs_invD(1) [OF i] by (simp add: root_ok_def)
  then have "metadata (fbs_root self) w = (Ok (stat_of w (root_place self) DirN), w)"
    using metadata_found [of w "fbs_root self" DirN] fs_invD [OF i] by (simp add: target_absolute)
  then show ?thesis by (simp add: ensure_root_def)
qed

lemma ensure_root_read_only [read_only_intros]: "read_only (ensure_root self)"
  unfolding ensure_root_def by (intro read_only_intros)

section \<open>Put\<close>

lemma fs_put_one_effect:
  assumes i: "fs_inv self w" and u: "utf8 (bi_key b)" and e: "fs_put_one self b w = (r, w')"
  shows "fs_inv self w' \<and> (\<forall>k. k \<noteq> bi_key b \<longrightarrow> fs_blobs self w' k = fs_blobs self w k) \<and>
    (\<forall>m. r = Ok m \<longrightarrow> bm_key m = bi_key b \<and> rd_end (bi_data b) = Eof \<and>
       fs_blobs self w' (bi_key b) = Some (rd_bytes (bi_data b)))"
proof (cases "valid_key (bi_key b)")
  case False
  then show ?thesis
    using key_to_path_invalid [of "bi_key b" self] e i by (auto simp: fs_put_one_def)
next
  case True
  let ?k = "bi_key b"
  let ?t = "key_place self ?k"
  obtain p where p: "key_to_path self ?k = Ok p" "is_absolute p" "path_comps p = ?t"
      "\<not> ends_with p [KEY_SEPARATOR]" "list_all name_ok ?t"
    using key_path [OF i True] by metis
  obtain q where q: "path_parent p = Some q" "is_absolute q" "path_comps q = butlast ?t"
    using path_parent_comps [OF p(2)] p(3) by auto
  have qn: "list_all name_ok (path_comps q)"
    using p(5) q(3) by (auto simp: list_all_iff dest: in_set_butlastD)
  have fin: ?thesis if "files_but ?t w w'" "\<forall>m. r = Ok m \<longrightarrow> bm_key m = ?k \<and>
      rd_end (bi_data b) = Eof \<and> fs_blobs self w' ?k = Some (rd_bytes (bi_data b))"
    using that fs_inv_files_but [OF i that(1) u] fs_blobs_files_but [OF that(1)] by blast
  obtain r1 w1 where c1: "create_dir_all q w = (r1, w1)" by (cases "create_dir_all q w")
  have g1: "fs_grows w w1" "r1 \<noteq> Hang"
    using create_dir_all_effect [OF fs_invD(2,3) [OF i] q(2) qn c1] by auto
  have f1: "files_but ?t w w1" by (rule fs_grows_files_but [OF g1(1)])
  show ?thesis
  proof (cases "r1 = Ok ()")
    case False
    then obtain x where "r1 = Err x" using g1(2) by (cases r1) auto
    then show ?thesis using e p(1) q(1) c1 f1 by (intro fin) (auto simp: fs_put_one_def)
  next
    case ok1: True
    have w1: "fs_wf w1" "fault_free w1"
      using f1 fs_invD(3) [OF i] fault_free_frame [of w w1] by (auto simp: files_but_def)
    obtain r2 w2 where c2: "create_file p w1 = (r2, w2)" by (cases "create_file p w1")
    have f2: "files_but ?t w1 w2" "r2 \<noteq> Hang" "r2 = Ok () \<longrightarrow> is_file w2 ?t"
      using create_file_effect [OF w1 p(2) _ c2] p(3,5) by auto
    have f12: "files_but ?t w w2" by (rule files_but_trans [OF f1 f2(1)])
    show ?thesis
    proof (cases "r2 = Ok ()")
      case False
      then obtain x where "r2 = Err x" using f2(2) by (cases r2) auto
      then show ?thesis using e p(1) q(1) c1 ok1 c2 f12 by (intro fin) (auto simp: fs_put_one_def)
    next
      case ok2: True
      have w2: "fs_wf w2" "fault_free w2"
        using f2(1) w1(2) fault_free_frame [of w1 w2] by (auto simp: files_but_def)
      obtain r3 w3 where c3: "copy_to_file p (bi_data b) w2 = (r3, w3)"
        by (cases "copy_to_file p (bi_data b) w2")
      have f3: "files_but ?t w2 w3" "is_file w3 ?t" "r3 = Ok () \<longleftrightarrow> rd_end (bi_data b) = Eof"
          "r3 = Ok () \<longrightarrow> node_at w3 ?t = Some (FileN (rd_bytes (bi_data b)) (fs_clock w2))"
        using copy_to_file_effect [OF w2 p(2) _ _ c3] p(3) f2(3) ok2 by auto
      have f13: "files_but ?t w w3" by (rule files_but_trans [OF f12 f3(1)])
      show ?thesis
      proof (cases "r3 = Ok ()")
        case False
        then show ?thesis using e p(1) q(1) c1 ok1 c2 ok2 c3 f13
          by (intro fin) (cases r3; auto simp: fs_put_one_def io_q_eq io_bind_eq)+
      next
        case ok3: True
        have w3: "fs_wf w3" "fault_free w3"
          using f3(1) w2(2) fault_free_frame [of w2 w3] by (auto simp: files_but_def)
        have "metadata p w3 = (Ok (stat_of w3 ?t (FileN (rd_bytes (bi_data b)) (fs_clock w2))), w3)"
          using metadata_found [OF w3] f3(4) ok3 p(2,3,4) by (simp add: target_absolute)
        then show ?thesis using e p(1) q(1) c1 ok1 c2 ok2 c3 ok3 f13 f3(3,4)
          by (intro fin) (auto simp: fs_put_one_def meta_of_stat_def fs_blobs_Some)
      qed
    qed
  qed
qed

lemma fs_put_all_effect:
  assumes "fs_inv self w" "\<forall>b \<in> set bs. utf8 (bi_key b)"
    and "io_mapM (fs_put_one self) bs w = (r, w')"
  shows "fs_inv self w' \<and> (\<forall>k. k \<notin> bi_key ` set bs \<longrightarrow> fs_blobs self w' k = fs_blobs self w k) \<and>
    (\<forall>ms. r = Ok ms \<longrightarrow> map bm_key ms = map bi_key bs \<and>
       (\<forall>b \<in> set bs. rd_end (bi_data b) = Eof) \<and>
       fs_blobs self w' = put_blobs bs (fs_blobs self w))"
  using assms
proof (induction bs arbitrary: w r)
  case Nil
  then show ?case by auto
next
  case (Cons b bs)
  obtain r1 w1 where c1: "fs_put_one self b w = (r1, w1)" by (cases "fs_put_one self b w")
  have u: "utf8 (bi_key b)" using Cons.prems(2) by simp
  have e1: "fs_inv self w1" "\<forall>k. k \<noteq> bi_key b \<longrightarrow> fs_blobs self w1 k = fs_blobs self w k"
      "\<forall>m. r1 = Ok m \<longrightarrow> bm_key m = bi_key b \<and> rd_end (bi_data b) = Eof \<and>
         fs_blobs self w1 (bi_key b) = Some (rd_bytes (bi_data b))"
    using fs_put_one_effect [OF Cons.prems(1) u c1] by auto
  show ?case
  proof (cases r1)
    case (Ok m)
    have upd: "fs_blobs self w1 = (fs_blobs self w)(bi_key b \<mapsto> rd_bytes (bi_data b))"
      using e1(2,3) Ok by auto
    obtain r2 w2 where c2: "io_mapM (fs_put_one self) bs w1 = (r2, w2)"
      by (cases "io_mapM (fs_put_one self) bs w1")
    then have "w2 = w'" "r = (case r2 of Ok ms \<Rightarrow> Ok (m # ms) | Err e \<Rightarrow> Err e | Hang \<Rightarrow> Hang)"
      using Cons.prems(3) c1 Ok by (auto simp: io_bind_eq split: result.splits)
    moreover have "\<forall>b \<in> set bs. utf8 (bi_key b)" using Cons.prems(2) by simp
    ultimately have ih: "fs_inv self w' \<and>
        (\<forall>k. k \<notin> bi_key ` set bs \<longrightarrow> fs_blobs self w' k = fs_blobs self w1 k) \<and>
        (\<forall>ms. r2 = Ok ms \<longrightarrow> map bm_key ms = map bi_key bs \<and>
           (\<forall>b \<in> set bs. rd_end (bi_data b) = Eof) \<and>
           fs_blobs self w' = put_blobs bs (fs_blobs self w1))"
        and r: "r = (case r2 of Ok ms \<Rightarrow> Ok (m # ms) | Err e \<Rightarrow> Err e | Hang \<Rightarrow> Hang)"
      using Cons.IH [of w1 r2] c2 e1(1) by blast+
    show ?thesis
    proof (cases r2)
      case (Ok ms)
      then show ?thesis using ih r e1(3) \<open>r1 = Ok m\<close> e1(2)
        by (simp add: upd [symmetric] put_blobs_other)
    qed (use ih r e1(2) in simp_all)
  qed (use Cons.prems c1 e1 in auto)
qed

lemma fs_put_invalid:
  "b \<in> set bs \<Longrightarrow> \<not> valid_key (bi_key b) \<Longrightarrow> \<exists>m. fs_put self bs w = (Err (InvalidInput m), w)"
  using validate_all_invalid [of b bs bi_key] by (auto simp: fs_put_def)

lemma fs_put_effect:
  assumes "fs_inv self w" "\<forall>b \<in> set bs. utf8 (bi_key b)" "fs_put self bs w = (r, w')"
  shows "fs_inv self w' \<and> (\<forall>k. k \<notin> bi_key ` set bs \<longrightarrow> fs_blobs self w' k = fs_blobs self w k) \<and>
    (\<forall>res. r = Ok res \<longrightarrow> map bm_key (pr_blobs res) = map bi_key bs \<and>
       (\<forall>b \<in> set bs. rd_end (bi_data b) = Eof) \<and>
       fs_blobs self w' = put_blobs bs (fs_blobs self w))"
proof (cases "\<forall>b \<in> set bs. valid_key (bi_key b)")
  case False
  then show ?thesis using fs_put_invalid [of _ bs self w] assms by fastforce
next
  case True
  obtain r1 w1 where c: "io_mapM (fs_put_one self) bs w = (r1, w1)"
    by (cases "io_mapM (fs_put_one self) bs w")
  have "w1 = w'" "r = (case r1 of Ok ms \<Rightarrow> Ok (put_result_multiple ms) | Err e \<Rightarrow> Err e | Hang \<Rightarrow> Hang)"
    using assms(3) validate_all_valid [OF True] ensure_root_ok [OF assms(1)] c
    by (auto simp: fs_put_def io_bind_eq split: result.splits)
  then show ?thesis
    using fs_put_all_effect [OF assms(1,2) c]
    by (auto simp: put_result_multiple_def split: result.splits)
qed

section \<open>Get, exists\<close>

lemma fs_get_eq:
  assumes "fs_inv self w" "valid_key k"
  shows "fs_get self k w =
    ((case node_at w (key_place self k) of
        None \<Rightarrow> Err (NotFound k)
      | Some (FileN b m) \<Rightarrow> Ok (reader_of b)
      | Some DirN \<Rightarrow> Ok (failing_reader eisdir)), w)"
proof -
  note i = fs_invD [OF assms(1)]
  obtain p where p: "key_to_path self k = Ok p" "\<not> ends_with p [KEY_SEPARATOR]"
      "target w p = key_place self k"
    using key_path [OF assms] by metis
  show ?thesis
    using ensure_root_ok [OF assms(1)] p path_exists_iff [OF i(2,3) p(2)]
      open_file_found [OF i(2,3) _ p(2)]
    by (auto simp: fs_get_def split: option.split node.split)
qed

lemma fs_get_read_only [read_only_intros]: "read_only (fs_get self k)"
  unfolding fs_get_def by (intro read_only_intros)

lemma fs_get_invalid:
  assumes "fs_inv self w" "\<not> valid_key k"
  shows "\<exists>m. fs_get self k w = (Err (InvalidInput m), w)"
  using ensure_root_ok [OF assms(1)] key_to_path_invalid [OF assms(2), of self]
  by (auto simp: fs_get_def)

lemma fs_exists_eq:
  assumes "fs_inv self w" "valid_key k"
  shows "fs_exists self k w = (Ok (fs_blobs self w k \<noteq> None), w)"
proof -
  note i = fs_invD [OF assms(1)]
  obtain p where "key_to_path self k = Ok p" "\<not> ends_with p [KEY_SEPARATOR]"
      "target w p = key_place self k"
    using key_path [OF assms] by metis
  then show ?thesis
    using ensure_root_ok [OF assms(1)] path_is_file_iff [OF i(2,3)]
    by (simp add: fs_exists_def fs_blobs_None)
qed

lemma fs_exists_invalid:
  assumes "fs_inv self w" "\<not> valid_key k"
  shows "\<exists>m. fs_exists self k w = (Err (InvalidInput m), w)"
  using ensure_root_ok [OF assms(1)] key_to_path_invalid [OF assms(2), of self]
  by (auto simp: fs_exists_def)

lemma fs_exists_read_only [read_only_intros]: "read_only (fs_exists self k)"
  unfolding fs_exists_def by (intro read_only_intros)

lemma file_meta_found:
  assumes "fs_inv self w" "valid_key k" "node_at w (key_place self k) = Some n"
  shows "file_meta self k w = (Ok (meta_of_stat self k (stat_of w (key_place self k) n)), w)"
proof -
  note i = fs_invD [OF assms(1)]
  obtain p where "key_to_path self k = Ok p" "\<not> ends_with p [KEY_SEPARATOR]"
      "target w p = key_place self k"
    using key_path [OF assms(1,2)] by metis
  then show ?thesis
    using metadata_found [OF i(2,3), of p n] assms(3) by (simp add: file_meta_def)
qed

lemma file_meta_read_only [read_only_intros]: "read_only (file_meta self k)"
  unfolding file_meta_def by (intro read_only_intros)

lemma fs_gwm_read_only [read_only_intros]: "read_only (fs_get_with_metadata self k)"
  unfolding fs_get_with_metadata_def by (intro read_only_intros)

section \<open>Delete\<close>

lemma fs_delete_keys_effect:
  assumes "fs_inv self w" "\<forall>k \<in> set ks. valid_key k" "fs_delete_keys self ks succ errs w = (r, w')"
  shows "fs_inv self w' \<and>
    (\<forall>k. fs_blobs self w' k = (if k \<in> set ks then None else fs_blobs self w k)) \<and>
    (\<exists>s e. r = Ok (succ @ s, errs @ e) \<and> set s \<union> ke_key ` set e = set ks)"
  using assms
proof (induction ks arbitrary: w succ errs)
  case Nil
  then show ?case by auto
next
  case (Cons k ks)
  note i = fs_invD [OF Cons.prems(1)]
  obtain p where p: "key_to_path self k = Ok p" "is_absolute p" "path_comps p = key_place self k"
      "\<not> ends_with p [KEY_SEPARATOR]"
    using key_path [OF Cons.prems(1)] Cons.prems(2) by (metis list.set_intros(1))
  obtain r1 w1 where c1: "remove_file p w = (r1, w1)" by (cases "remove_file p w")
  have e: "files_but (key_place self k) w w1" "r1 \<noteq> Hang"
      "\<not> (r1 = Ok () \<and> is_file w1 (key_place self k))"
      "\<forall>e. r1 = Err e \<longrightarrow> w1 = w \<and> \<not> is_file w (key_place self k)"
    using remove_file_effect [OF i(2,3) p(2,4) c1] p(3) by auto
  have inv1: "fs_inv self w1"
  proof -
    have "is_file w1 t \<Longrightarrow> is_file w t" for t
      using e by (cases "t = key_place self k"; cases r1) (auto simp: files_but_def is_file_def)
    then show ?thesis
      using Cons.prems(1) e(1) fault_free_frame [of w w1]
      by (auto simp: fs_inv_def files_but_def)
  qed
  have b1: "fs_blobs self w1 k' = (if k' = k then None else fs_blobs self w k')" for k'
    using e fs_blobs_files_but [OF e(1), of k'] by (cases r1) (auto simp: fs_blobs_None)
  have rec: "fs_delete_keys self (k # ks) succ errs w =
      fs_delete_keys self ks (succ @ s) (errs @ x) w1 \<Longrightarrow> set s \<union> ke_key ` set x = {k} \<Longrightarrow> ?case"
    for s x
  proof -
    assume eq: "fs_delete_keys self (k # ks) succ errs w = fs_delete_keys self ks (succ @ s) (errs @ x) w1"
      and sx: "set s \<union> ke_key ` set x = {k}"
    have "fs_inv self w' \<and> (\<forall>k. fs_blobs self w' k = (if k \<in> set ks then None else fs_blobs self w1 k)) \<and>
        (\<exists>t e. r = Ok ((succ @ s) @ t, (errs @ x) @ e) \<and> set t \<union> ke_key ` set e = set ks)"
      using Cons.IH [OF inv1, of "succ @ s" "errs @ x"] Cons.prems(2,3) eq by simp
    moreover from this obtain t e where te: "r = Ok (succ @ (s @ t), errs @ (x @ e))"
        "set t \<union> ke_key ` set e = set ks"
      by auto
    have "set (s @ t) \<union> ke_key ` set (x @ e) = set (k # ks)"
      using sx te(2) by auto
    ultimately show ?case using te(1) b1 by auto
  qed
  show ?case
  proof (cases r1)
    case (Ok u)
    then show ?thesis using p(1) c1 by (intro rec [of "[k]" "[]"]) auto
  next
    case (Err x)
    show ?thesis
    proof (cases "io_error_kind x = KNotFound")
      case True
      then show ?thesis using p(1) c1 Err by (intro rec [of "[k]" "[]"]) auto
    next
      case False
      then show ?thesis using p(1) c1 Err
        by (intro rec [of "[]" "[\<lparr>ke_key = k, ke_error = map_io_error_to_per_key x\<rparr>]"]) auto
    qed
  qed (use e(2) in simp)
qed

lemma fs_delete_invalid:
  "k \<in> set ks \<Longrightarrow> \<not> valid_key k \<Longrightarrow> \<exists>m. fs_delete self ks w = (Err (InvalidInput m), w)"
  using validate_all_invalid [of k ks id] by (auto simp: fs_delete_def)

lemma fs_delete_effect:
  assumes "fs_inv self w" "fs_delete self ks w = (r, w')"
  shows "fs_inv self w' \<and>
    ((\<forall>k \<in> set ks. valid_key k) \<longrightarrow>
       (\<forall>k. fs_blobs self w' k = (if k \<in> set ks then None else fs_blobs self w k)) \<and>
       (r = Ok () \<or> (\<exists>be. r = Err (Batch be) \<and>
                        set (succeeded be) \<union> ke_key ` set (errors be) = set ks))) \<and>
    ((\<exists>k \<in> set ks. \<not> valid_key k) \<longrightarrow> w' = w \<and> (\<exists>m. r = Err (InvalidInput m)))"
proof (cases "\<forall>k \<in> set ks. valid_key k")
  case False
  then show ?thesis using fs_delete_invalid [of _ ks self w] assms by fastforce
next
  case True
  obtain r1 w1 where c: "fs_delete_keys self ks [] [] w = (r1, w1)"
    by (cases "fs_delete_keys self ks [] [] w")
  have e: "fs_inv self w1 \<and> (\<forall>k. fs_blobs self w1 k = (if k \<in> set ks then None else fs_blobs self w k)) \<and>
      (\<exists>s e. r1 = Ok (s, e) \<and> set s \<union> ke_key ` set e = set ks)"
    using fs_delete_keys_effect [OF assms(1) True c] by simp
  have "res_for validate_blob_key ks = Ok ()"
    using True by (simp add: res_for_Ok_iff)
  then have "(r, w') = io_bind (fs_delete_keys self ks [] []) (\<lambda>(succ, errs).
      if errs = [] then io_ret () else io_err (Batch \<lparr>succeeded = succ, errors = errs\<rparr>)) w"
    using assms(2) ensure_root_ok [OF assms(1)] by (simp add: fs_delete_def)
  then show ?thesis using e c True by (auto split: if_splits)
qed

lemma fs_delete_cases:
  assumes "fs_inv self w" "fs_delete self ks w = (r, w')"
  obtains (invalid) m where "\<exists>k \<in> set ks. \<not> valid_key k" "r = Err (InvalidInput m)" "w' = w"
  | (valid) "\<forall>k \<in> set ks. valid_key k" "fs_inv self w'"
      "\<And>k. fs_blobs self w' k = (if k \<in> set ks then None else fs_blobs self w k)"
      "r = Ok () \<or> (\<exists>be. r = Err (Batch be) \<and>
                        set (succeeded be) \<union> ke_key ` set (errors be) = set ks)"
proof (cases "\<forall>k \<in> set ks. valid_key k")
  case True
  show thesis by (rule valid [OF True]) (use fs_delete_effect [OF assms] True in blast)+
next
  case False
  then show thesis using invalid fs_delete_effect [OF assms] by blast
qed

end
