(* ===== verification/Fs_Walk.thy ===== *)
theory Fs_Walk
  imports Fs_Correct
begin

text \<open>
  The filesystem backend's directory walk. \<open>cover\<close> is the loop invariant of the breadth-first search:
  every matching file is either handed out already or lies below one of the pending places, which
  are pairwise unrelated and hold no file handed out before. The walk then meets the loop rule of
  the contract for any loop body, and it ends after as many rounds as there are directories.
\<close>

section \<open>The pending places\<close>

definition cover :: "key set \<Rightarrow> place list \<Rightarrow> key list \<Rightarrow> bool" where
  "cover S R vs \<longleftrightarrow> distinct R \<and> pairwise (\<parallel>) (set R) \<and>
     (\<forall>k \<in> set vs. \<forall>r \<in> set R. \<not> prefix r (key_parts k)) \<and>
     (\<forall>k \<in> S. k \<in> set vs \<or> (\<exists>r \<in> set R. prefix r (key_parts k)))"

text \<open>The keys of \<open>S\<close> that were not handed out are stored.\<close>

definition live :: "fs_blob_store \<Rightarrow> key set \<Rightarrow> key list \<Rightarrow> 'z fsys_scheme \<Rightarrow> bool" where
  "live self S vs w \<longleftrightarrow> (\<forall>k \<in> S. k \<notin> set vs \<longrightarrow> fs_blobs self w k \<noteq> None)"

lemma liveD: "live self S vs w \<Longrightarrow> k \<in> S \<Longrightarrow> k \<notin> set vs \<Longrightarrow> fs_blobs self w k \<noteq> None"
  by (simp add: live_def)

lemma cover_perm: "cover S R vs \<Longrightarrow> set R' = set R \<Longrightarrow> distinct R' \<Longrightarrow> cover S R' vs"
  by (simp add: cover_def)

lemma cover_done: "cover S [] vs \<Longrightarrow> S \<subseteq> set vs"
  by (auto simp: cover_def)

lemma cover_drop:
  assumes "cover S (r # R) vs" and "\<And>k. k \<in> S \<Longrightarrow> k \<notin> set vs \<Longrightarrow> \<not> prefix r (key_parts k)"
  shows "cover S R vs"
proof -
  have "k \<in> set vs \<or> (\<exists>r \<in> set R. prefix r (key_parts k))" if "k \<in> S" for k
    using assms(1) assms(2) [OF that] that unfolding cover_def by auto
  then show ?thesis using assms(1) unfolding cover_def by (auto simp: pairwise_insert)
qed

lemma file_below:
  assumes "fs_inv self w" "fs_blobs self w k \<noteq> None" "prefix r (key_parts k)"
  shows "r = key_parts k \<or> (\<exists>c u. key_parts k = r @ c # u \<and>
    node_at w (root_place self @ r) = Some DirN \<and> node_at w (root_place self @ r @ [c]) \<noteq> None)"
proof -
  obtain u where u: "key_parts k = r @ u" using assms(3) by (auto elim: prefixE)
  obtain n where n: "node_at w (root_place self @ r @ u) = Some n"
    using assms(2) u by (auto simp: fs_blobs_None is_file_def key_place_def)
  show ?thesis
  proof (cases u)
    case Nil
    then show ?thesis using u by simp
  next
    case (Cons c v)
    have d: "node_at w (root_place self @ r) = Some DirN"
      using node_at_prefix [OF fs_invD(2) [OF assms(1)], of "root_place self @ r" u n] n Cons by simp
    have "node_at w (root_place self @ r @ [c]) \<noteq> None"
      using node_at_prefix [OF fs_invD(2) [OF assms(1)], of "root_place self @ r @ [c]" v n] n Cons
      by (cases v) auto
    then show ?thesis using u d Cons by blast
  qed
qed

lemma cover_gone:
  assumes "fs_inv self w" "live self S vs w" "cover S (r # R) vs"
    and "node_at w (root_place self @ r) = None"
  shows "cover S R vs"
proof (rule cover_drop [OF assms(3)])
  show "\<not> prefix r (key_parts k)" if "k \<in> S" "k \<notin> set vs" for k
    using file_below [OF assms(1) liveD [OF assms(2) that], of r] assms(4) liveD [OF assms(2) that]
    by (auto simp: fs_blobs_None is_file_def key_place_def)
qed

lemma file_at_place:
  assumes "fs_inv self w" "fs_blobs self w k \<noteq> None" "prefix (key_parts k') (key_parts k)"
    "fs_blobs self w k' \<noteq> None"
  shows "k = k'"
  using file_below [OF assms(1-3)] assms(4) split_on_inj [of KEY_SEPARATOR k' k]
  by (auto simp: fs_blobs_None is_file_def key_place_def)

lemma cover_skip_file:
  assumes "fs_inv self w" "live self S vs w" "cover S (key_parts k # R) vs"
    "fs_blobs self w k \<noteq> None" "k \<notin> S"
  shows "cover S R vs"
proof (rule cover_drop [OF assms(3)])
  show "\<not> prefix (key_parts k) (key_parts k')" if "k' \<in> S" "k' \<notin> set vs" for k'
    using file_at_place [OF assms(1) liveD [OF assms(2) that] _ assms(4)] that(1) assms(5) by auto
qed

lemma cover_fresh: "cover S (key_parts k # R) vs \<Longrightarrow> k \<notin> set vs"
  by (auto simp: cover_def)

lemma cover_visit:
  assumes "fs_inv self w" "live self S vs w" "cover S (key_parts k # R) vs" "fs_blobs self w k \<noteq> None"
  shows "cover S R (vs @ [k])"
proof -
  have "\<not> prefix r (key_parts k)" if "r \<in> set R" for r
    using assms(3) that by (auto simp: cover_def pairwise_insert)
  moreover have "k' \<in> set (vs @ [k]) \<or> (\<exists>r \<in> set R. prefix r (key_parts k'))" if "k' \<in> S" for k'
  proof (cases "k' \<in> set vs")
    case False
    then have "prefix (key_parts k) (key_parts k') \<or> (\<exists>r \<in> set R. prefix r (key_parts k'))"
      using assms(3) that by (auto simp: cover_def)
    then show ?thesis
      using file_at_place [OF assms(1) liveD [OF assms(2) that False] _ assms(4)] by auto
  qed simp
  ultimately show ?thesis using assms(3) by (auto simp: cover_def pairwise_insert)
qed

lemma parallel_snoc: "r \<parallel> s \<Longrightarrow> (r @ xs) \<parallel> s"
  using parallel_append [of r s xs "[]"] by simp

lemma cover_expand:
  assumes i: "fs_inv self w" and l: "live self S vs w" and c: "cover S (r # R) vs"
    and d: "node_at w (root_place self @ r) = Some DirN"
  shows "cover S (map (\<lambda>c. r @ [c]) (child_names w (root_place self @ r)) @ R) vs"
proof -
  let ?N = "map (\<lambda>c. r @ [c]) (child_names w (root_place self @ r))"
  have dn: "distinct ?N"
    using child_names_distinct [OF fs_invD(2) [OF i]] by (simp add: distinct_map inj_on_def)
  have par: "\<forall>s \<in> set R. r \<parallel> s" and R: "distinct R" "pairwise (\<parallel>) (set R)"
    using c by (auto simp: cover_def pairwise_insert)
  have parN: "(r @ [c]) \<parallel> s" "s \<parallel> (r @ [c])" if "s \<in> set R" for s c
    using par that parallel_snoc [of r s "[c]"] parallel_commute by blast+
  have dis: "distinct (?N @ R)"
    using dn R(1) parN by (auto simp: parallel_def)
  have pw: "pairwise (\<parallel>) (set (?N @ R))"
    using R(2) parN by (auto simp: pairwise_def)
  have old: "\<not> prefix s (key_parts k)" if "k \<in> set vs" "s \<in> set (?N @ R)" for k s
  proof -
    have "\<not> prefix r (key_parts k)" "s \<in> set R \<Longrightarrow> \<not> prefix s (key_parts k)"
      using c that(1) by (auto simp: cover_def)
    moreover have "s \<in> set ?N \<Longrightarrow> prefix r s" by auto
    ultimately show ?thesis using that(2) prefix_order.trans [of r s "key_parts k"] by auto
  qed
  have "k \<in> set vs \<or> (\<exists>s \<in> set (?N @ R). prefix s (key_parts k))" if "k \<in> S" for k
  proof (cases "k \<in> set vs")
    case False
    note k = liveD [OF l that False]
    have "\<exists>s \<in> set ?N. prefix s (key_parts k)" if p: "prefix r (key_parts k)"
    proof -
      have "r \<noteq> key_parts k" using k d by (auto simp: fs_blobs_None is_file_def key_place_def)
      then obtain c u where u: "key_parts k = r @ c # u"
          "node_at w (root_place self @ r @ [c]) \<noteq> None"
        using file_below [OF i k p] by auto
      then have "c \<in> set (child_names w (root_place self @ r))" by (simp add: child_names_iff)
      then show ?thesis using u(1) by (auto intro!: bexI [of _ c])
    qed
    moreover have "prefix r (key_parts k) \<or> (\<exists>s \<in> set R. prefix s (key_parts k))"
      using c that False by (auto simp: cover_def)
    ultimately show ?thesis by auto
  qed simp
  then show ?thesis using dis pw old unfolding cover_def by blast
qed

section \<open>The loops\<close>

definition path_of :: "fs_blob_store \<Rightarrow> key \<Rightarrow> path \<Rightarrow> bool" where
  "path_of self k p \<longleftrightarrow> is_absolute p \<and> path_comps p = key_place self k \<and>
     \<not> ends_with p [KEY_SEPARATOR]"

text \<open>The loop rule for an action of the walk.\<close>

abbreviation act_ok where
  "act_ok self f act J T \<equiv>
     loop_ok (fs_inv self) (fs_blobs self) (\<lambda>k. matches f k None) (path_of self) act J T"

abbreviation act_keys where
  "act_keys self f J \<equiv> tracked (fs_blobs self) (\<lambda>k. matches f k None) J"

text \<open>A queued directory: its place and its text, and no key of \<open>S\<close> at the place itself.\<close>

definition queued :: "fs_blob_store \<Rightarrow> key set \<Rightarrow> place \<Rightarrow> path \<Rightarrow> bool" where
  "queued self S r d \<longleftrightarrow> canon (fbs_root self) r d \<and> list_all name_ok r \<and>
     (\<forall>k. key_parts k = r \<longrightarrow> k \<notin> S)"

lemma tracked_live: "S \<subseteq> act_keys self f J \<Longrightarrow> J vs w v \<Longrightarrow> live self S vs w"
  unfolding live_def by (meson subsetD trackedD)

lemma tracked_match: "S \<subseteq> act_keys self f J \<Longrightarrow> k \<in> S \<Longrightarrow> matches f k None"
  by (auto simp: tracked_def)

lemma walk_entry_run:
  assumes ok: "act_ok self f act J T" and S: "S \<subseteq> act_keys self f J" and J: "J vs w v"
    and c: "canon (fbs_root self) r p" "list_all name_ok r" "r \<noteq> []" "\<not> ends_with p [KEY_SEPARATOR]"
    and cov: "cover S (r # R) vs" and e: "walk_entry self f act p (w, v) = (x, (w', v'))"
  shows "(\<exists>vs'. J vs' w' v' \<and> 
      (x = Ok (False, []) \<and> cover S R vs' \<or>
       x = Ok (False, [p]) \<and> cover S (r # R) vs' \<and> queued self S r p)) \<or>
    (\<exists>y. T y w' v' \<and> y \<noteq> Ok True \<and> x = res_bind y (\<lambda>_. Ok (True, [])))"
proof -
  let ?k = "join_with KEY_SEPARATOR r"
  have i: "fs_inv self w" by (rule loop_okD(1) [OF ok J])
  have l: "live self S vs w" by (rule tracked_live [OF S J])
  note d = fs_invD [OF i]
  have kp: "key_parts ?k = r" by (rule split_names [OF c(2,3)])
  have place: "path_comps p = key_place self ?k"
    using canon_comps [OF c(1,2)] kp by (simp add: key_place_def)
  have tgt: "target w p = key_place self ?k"
    using place canon_absolute [OF c(1)] by (simp add: target_absolute)
  have po: "path_of self ?k p"
    using place canon_absolute [OF c(1)] c(4) by (simp add: path_of_def)
  show ?thesis
  proof (cases "fs_blobs self w ?k = None")
    case False
    then have f: "is_file w (key_place self ?k)" by (simp add: fs_blobs_None)
    then have "utf8 ?k" using d(5) [OF c(3)] kp by (simp add: key_place_def)
    then have "walk_entry self f act p (w, v) =
        (if matches f ?k None then io_bind (act p ?k) (\<lambda>continue. io_ret (\<not> continue, [])) (w, v)
         else (Ok (False, []), (w, v)))"
      using f path_is_file_iff [OF d(2,3) c(4)] tgt canon_strip [OF c(1) d(1) c(2,3)]
      by (simp add: walk_entry_def)
    note eq = this [unfolded e]
    show ?thesis
    proof (cases "matches f ?k None")
      case False
      then show ?thesis
        using eq J cover_skip_file [OF i l, of ?k R] cov kp \<open>fs_blobs self w ?k \<noteq> None\<close>
          tracked_match [OF S] by simp blast
    next
      case True
      obtain y w1 v1 where a: "act p ?k (w, v) = (y, (w1, v1))" by (metis prod_cases3)
      have fr: "?k \<notin> set vs" using cover_fresh [of S ?k R vs] cov kp by simp
      have step: "if y = Ok True then J (vs @ [?k]) w1 v1 else T y w1 v1"
        using loop_okD(2) [OF ok J fr _ _ po a] False True by simp
      have out: "x = res_bind y (\<lambda>continue. Ok (\<not> continue, []))" "w' = w1" "v' = v1"
        using eq True a by (simp_all add: io_bind_eq split: result.splits)
      show ?thesis
      proof (cases "y = Ok True")
        case True
        then have "cover S R (vs @ [?k])"
          using cover_visit [OF i l, of ?k R] cov kp \<open>fs_blobs self w ?k \<noteq> None\<close> by simp
        then show ?thesis using True step out by auto
      next
        case False
        then have "x = res_bind y (\<lambda>_. Ok (True, []))"
          using out(1) by (cases y) auto
        then show ?thesis using False step out by auto
      qed
    qed
  next
    case True
    then have f: "\<not> is_file w (key_place self ?k)" by (simp add: fs_blobs_None)
    have eq: "walk_entry self f act p (w, v) =
        (Ok (False, if node_at w (key_place self ?k) = Some DirN then [p] else []), (w, v))"
      using f path_is_file_iff [OF d(2,3) c(4)] path_is_dir_iff [OF d(2,3), of p] tgt
      by (simp add: walk_entry_def)
    have "?k \<notin> S"
      using liveD [OF l, of ?k] cover_fresh [of S ?k R vs] cov kp True by auto
    then have "queued self S r p"
      using c(1,2) unfolding queued_def by (metis join_split)
    moreover have "node_at w (key_place self ?k) \<noteq> Some DirN \<Longrightarrow> cover S R vs"
      using cover_gone [OF i l cov] f kp by (auto simp: is_file_iff key_place_def)
    moreover have "w' = w" "v' = v" "x = Ok (False, if node_at w (key_place self ?k) = Some DirN then [p] else [])"
      using eq e by auto
    ultimately have "J vs w' v' \<and> 
      (x = Ok (False, []) \<and> cover S R vs \<or>
       x = Ok (False, [p]) \<and> cover S (r # R) vs \<and> queued self S r p)"
      using J cov by (cases "node_at w (key_place self ?k) = Some DirN") simp_all
    then show ?thesis by blast
  qed
qed

text \<open>The shape of what the loops return.\<close>

abbreviation stopped where
  "stopped T z x w v \<equiv> (\<exists>y. T y w v \<and> y \<noteq> Ok True \<and> x = res_bind y (\<lambda>_. Ok z))"

lemma walk_entries_run:
  assumes ok: "act_ok self f act J T" and S: "S \<subseteq> act_keys self f J" and J: "J vs w v"
    and c: "canon (fbs_root self) r d" "list_all name_ok r" and ns: "list_all name_ok names"
    and q: "list_all2 (queued self S) rs ds"
    and cov: "cover S (map (\<lambda>c. r @ [c]) names @ rs @ R) vs"
    and e: "walk_entries self f act d i names ds (w, v) = (x, (w', v'))"
  shows "(\<exists>vs' rs' ds'. J vs' w' v' \<and>  x = Ok (False, ds') \<and>
      list_all2 (queued self S) rs' ds' \<and> cover S (rs' @ R) vs') \<or>
    (\<exists>y. T y w' v' \<and> y \<noteq> Ok True \<and> (\<exists>z. x = res_bind y (\<lambda>_. Ok (True, z))))"
  using J ns q cov e
proof (induction names arbitrary: i vs rs ds w v)
  case Nil
  then have "fault_free w" using fs_invD(3) [OF loop_okD(1) [OF ok]] by blast
  then have "x = Ok (False, ds)" "w' = w" "v' = v"
    using Nil.prems(5) by (auto simp: io_q_eq io_bind_eq)
  then show ?case using Nil.prems by auto
next
  case (Cons c names)
  have i: "fs_inv self w" by (rule loop_okD(1) [OF ok Cons.prems(1)])
  have cn: "name_ok c" using Cons.prems(2) by simp
  let ?p = "path_join d c"
  obtain x1 w1 v1 where e1: "walk_entry self f act ?p (w, v) = (x1, (w1, v1))" by (metis prod_cases3)
  have "next_entry d i w = (Ok (), w)" using fs_invD(3) [OF i] by simp
  then have eq: "walk_entries self f act d i (c # names) ds (w, v) =
      io_bind (walk_entry self f act ?p) (\<lambda>(stop, sub).
        if stop then io_ret (True, ds)
        else walk_entries self f act d (Suc i) names (ds @ sub)) (w, v)"
    by (simp add: io_q_eq io_bind_eq)
  let ?R = "map (\<lambda>c. r @ [c]) names @ rs @ R"
  have cov': "cover S ((r @ [c]) # ?R) vs" using Cons.prems(4) by simp
  have cases: "(\<exists>vs'. J vs' w1 v1 \<and>
      (x1 = Ok (False, []) \<and> cover S ?R vs' \<or>
       x1 = Ok (False, [?p]) \<and> cover S ((r @ [c]) # ?R) vs' \<and> queued self S (r @ [c]) ?p)) \<or>
    stopped T (True, []) x1 w1 v1"
    using walk_entry_run [OF ok S Cons.prems(1) canon_join [OF c(1) cn c(2)] _ _ _ cov' e1]
      c(2) cn not_slash_join [OF cn] by simp
  show ?case
  proof (cases "stopped T (True, []) x1 w1 v1")
    case True
    then obtain y where y: "T y w1 v1" "y \<noteq> Ok True" "x1 = res_bind y (\<lambda>_. Ok (True, []))" by blast
    then have "x = res_bind y (\<lambda>_. Ok (True, ds))" "w' = w1" "v' = v1"
      using Cons.prems(5) eq e1 by (cases y; auto simp: io_bind_eq)+
    then show ?thesis using y by auto
  next
    case False
    then obtain vs' where J1: "J vs' w1 v1" 
      and alt: "x1 = Ok (False, []) \<and> cover S ?R vs' \<or>
       x1 = Ok (False, [?p]) \<and> cover S ((r @ [c]) # ?R) vs' \<and> queued self S (r @ [c]) ?p"
      using cases by blast
    note q1 = Cons.prems(3)
    have "\<exists>rs1 ds1. x1 = Ok (False, ds1) \<and> list_all2 (queued self S) (rs @ rs1) (ds @ ds1) \<and>
        cover S (map (\<lambda>c. r @ [c]) names @ (rs @ rs1) @ R) vs'"
      using alt
    proof
      assume a: "x1 = Ok (False, []) \<and> cover S ?R vs'"
      then show ?thesis using q1 by (intro exI [of _ "[]"] conjI) simp_all
    next
      assume a: "x1 = Ok (False, [?p]) \<and> cover S ((r @ [c]) # ?R) vs' \<and>
        queued self S (r @ [c]) ?p"
      then have "distinct ((r @ [c]) # ?R)" by (simp add: cover_def)
      then have "cover S (map (\<lambda>c. r @ [c]) names @ (rs @ [r @ [c]]) @ R) vs'"
        using a by (auto intro!: cover_perm [of S "(r @ [c]) # ?R" vs'])
      then show ?thesis using a q1
        by (intro exI [of _ "[r @ [c]]"] exI [of _ "[?p]"] conjI) (simp_all add: list_all2_appendI)
    qed
    then obtain rs1 ds1 where r1: "x1 = Ok (False, ds1)"
        "list_all2 (queued self S) (rs @ rs1) (ds @ ds1)"
        "cover S (map (\<lambda>c. r @ [c]) names @ (rs @ rs1) @ R) vs'"
      by blast
    have "walk_entries self f act d (Suc i) names (ds @ ds1) (w1, v1) = (x, (w', v'))"
      using Cons.prems(5) eq e1 r1(1) by (simp add: io_bind_eq)
    from Cons.IH [OF J1 _ r1(2,3) this] Cons.prems(2)
    have "(\<exists>vs' rs' ds'. J vs' w' v' \<and> x = Ok (False, ds') \<and>
        list_all2 (queued self S) rs' ds' \<and> cover S (rs' @ R) vs') \<or>
      (\<exists>y. T y w' v' \<and> y \<noteq> Ok True \<and> (\<exists>z. x = res_bind y (\<lambda>_. Ok (True, z))))"
      by simp
    then show ?thesis by blast
  qed
qed

lemma dir_exists_eq:
  assumes "fs_inv self w" "is_absolute d"
  shows "(\<exists>e. dir_exists d w = (Err e, w)) \<or>
    dir_exists d w = (Ok (node_at w (path_comps d) = Some DirN), w)"
proof (cases "node_at w (path_comps d)")
  case None
  then show ?thesis
    using metadata_missing [OF fs_invD(3) [OF assms(1)], of d] assms(2)
    by (auto simp: dir_exists_def target_absolute)
next
  case (Some n)
  then have "metadata d w = (Ok (stat_of w (path_comps d) n), w) \<or> metadata d w = (Err enotdir, w)"
    using assms(2) fs_invD(2,3) [OF assms(1)]
    by (auto simp: metadata_def resolve_Ok target_absolute)
  then show ?thesis using Some by (auto simp: dir_exists_def enotdir_def)
qed

lemma walk_dirs_run:
  assumes ok: "act_ok self f act J T" and S: "S = act_keys self f J" and J: "J vs w v"
    and q: "list_all2 (queued self S) rs ds" and cov: "cover S rs vs"
    and e: "walk_dirs n self f act ds (w, v) = (x, (w', v'))"
  shows "loop_end (fs_blobs self) (\<lambda>k. matches f k None) J T x w' v'"
  using J q cov e
proof (induction n arbitrary: vs rs ds w v)
  case 0
  show ?case
  proof (cases ds)
    case Nil
    then have "rs = []" using 0 by simp
    then show ?thesis using 0 Nil cover_done [of S vs] S by (auto simp: loop_end_def)
  next
    case (Cons d ds')
    then have "x = Hang" "w' = w" "v' = v" using 0 by simp_all
    then show ?thesis using 0(1) by (auto simp: loop_end_def)
  qed
next
  case (Suc n)
  show ?case
  proof (cases ds)
    case Nil
    then have "rs = []" using Suc.prems by simp
    then show ?thesis using Suc.prems Nil cover_done [of S vs] S by (auto simp: loop_end_def)
  next
    case (Cons d ds')
    then obtain r rs' where rs: "rs = r # rs'" "queued self S r d"
        "list_all2 (queued self S) rs' ds'"
      using Suc.prems(2) by (auto simp: list_all2_Cons2)
    have i: "fs_inv self w" by (rule loop_okD(1) [OF ok Suc.prems(1)])
    have l: "live self S vs w" by (rule tracked_live [OF equalityD1 [OF S] Suc.prems(1)])
    have c: "canon (fbs_root self) r d" "list_all name_ok r"
      and nof: "\<And>k. key_parts k = r \<Longrightarrow> k \<notin> S"
      using rs(2) unfolding queued_def by blast+
    have pc: "path_comps d = root_place self @ r" by (rule canon_comps [OF c])
    have cov: "cover S (r # rs') vs" using Suc.prems(3) rs(1) by simp
    consider (err) e where "dir_exists d w = (Err e, w)"
      | (no) "dir_exists d w = (Ok False, w)" "node_at w (root_place self @ r) \<noteq> Some DirN"
      | (yes) "dir_exists d w = (Ok True, w)" "node_at w (root_place self @ r) = Some DirN"
      using dir_exists_eq [OF i canon_absolute [OF c(1)]] pc by (cases "node_at w (path_comps d) = Some DirN") auto
    then show ?thesis
    proof cases
      case err
      then have "x = Err e" "w' = w" "v' = v" using Suc.prems(4) Cons by simp_all
      then show ?thesis using Suc.prems(1) by (auto simp: loop_end_def)
    next
      case no
      then have "walk_dirs n self f act ds' (w, v) = (x, (w', v'))"
        using Suc.prems(4) Cons by simp
      moreover have "cover S rs' vs"
      proof (rule cover_drop [OF cov])
        show "\<not> prefix r (key_parts k)" if "k \<in> S" "k \<notin> set vs" for k
          using file_below [OF i liveD [OF l that], of r] nof [of k] that no(2) by auto
      qed
      ultimately show ?thesis using Suc.IH [OF Suc.prems(1) rs(3)] by blast
    next
      case yes
      let ?ns = "child_names w (root_place self @ r)"
      have rd: "read_dir d w = (Ok ?ns, w)"
        using read_dir_found [OF fs_invD(2,3) [OF i], of d] yes(2) pc canon_absolute [OF c(1)]
        by (simp add: target_absolute)
      obtain x1 w1 v1 where e1: "walk_entries self f act d 0 ?ns [] (w, v) = (x1, (w1, v1))"
        by (metis prod_cases3)
      have eq: "walk_dirs (Suc n) self f act ds (w, v) =
          io_bind (walk_entries self f act d 0 ?ns []) (\<lambda>(stop, dirs).
            if stop then io_ret () else walk_dirs n self f act (ds' @ dirs)) (w, v)"
        using Cons yes rd by (simp add: io_q_eq io_bind_eq)
      have names: "list_all name_ok ?ns" by (rule child_names_ok [OF fs_invD(2) [OF i]])
      have covE: "cover S (map (\<lambda>c. r @ [c]) ?ns @ [] @ rs') vs"
        using cover_expand [OF i l cov yes(2)] by simp
      from walk_entries_run [OF ok equalityD1 [OF S] Suc.prems(1) c names list.rel_intros(1) covE e1]
      show ?thesis
      proof (elim disjE exE conjE)
        fix vs1 rs1 ds1
        assume J1: "J vs1 w1 v1" and x1: "x1 = Ok (False, ds1)"
          and q1: "list_all2 (queued self S) rs1 ds1" and c1: "cover S (rs1 @ rs') vs1"
        have "cover S (rs' @ rs1) vs1"
          using c1 cover_def by (intro cover_perm [OF c1]) (auto simp: cover_def)
        moreover have "list_all2 (queued self S) (rs' @ rs1) (ds' @ ds1)"
          using rs(3) q1 by (rule list_all2_appendI)
        moreover have "walk_dirs n self f act (ds' @ ds1) (w1, v1) = (x, (w', v'))"
          using Suc.prems(4) eq e1 x1 by (simp add: io_bind_eq)
        ultimately show ?thesis using Suc.IH [OF J1] by blast
      next
        fix y z
        assume y: "T y w1 v1" "y \<noteq> Ok True" "x1 = res_bind y (\<lambda>_. Ok (True, z))"
        then have "x = res_bind y (\<lambda>_. Ok ())" "w' = w1" "v' = v1"
          using Suc.prems(4) eq e1 by (cases y; auto simp: io_bind_eq)+
        then show ?thesis using y by (auto simp: loop_end_def)
      qed
    qed
  qed
qed

text \<open>The start of the walk: the hint's directory holds every file that can match.\<close>

lemma start_queued:
  assumes "fs_inv self w" "fs_filter_ok f" "prefix_subdir (fbs_root self) f = Ok d"
    and S: "\<forall>k \<in> S. matches f k None"
  shows "queued self S (hint_dir f) d" "cover S [hint_dir f] []"
proof -
  have f: "hint_sound f" "hint_clean f" using assms(2) by (simp_all add: fs_filter_ok_def)
  have "canon (fbs_root self) (hint_dir f) d"
    by (rule prefix_subdir_canon [OF fs_invD(1) [OF assms(1)] f(2) assms(3)])
  then show "queued self S (hint_dir f) d"
    using hint_dir_names [OF f(2)] hint_dir_covers [OF f(1), of _ None] S by (fastforce simp: queued_def)
  show "cover S [hint_dir f] []"
    using hint_dir_covers [OF f(1), of _ None] S by (fastforce simp: cover_def)
qed

lemma walk_tree_run:
  assumes "act_ok self f act J T" "fs_filter_ok f" "J [] w v"
    and "walk_tree fuel self f act (w, v) = (x, (w', v'))"
  shows "loop_end (fs_blobs self) (\<lambda>k. matches f k None) J T x w' v'"
proof -
  have i: "fs_inv self w" by (rule loop_okD(1) [OF assms(1,3)])
  have er: "io_fst (ensure_root self) (w, v) = (Ok (), (w, v))"
    using ensure_root_ok [OF i] by simp
  show ?thesis
  proof (cases "prefix_subdir (fbs_root self) f")
    case (Ok d)
    then have "walk_dirs fuel self f act [d] (w, v) = (x, (w', v'))"
      using assms(4) er by (simp add: walk_tree_def)
    then show ?thesis
      using walk_dirs_run [OF assms(1) refl assms(3), of "[hint_dir f]" "[d]"]
        start_queued [OF i assms(2) Ok, of "act_keys self f J"] by (simp add: tracked_def)
  next
    case (Err e)
    then have "x = Err e" "w' = w" "v' = v" using assms(4) er by (simp_all add: walk_tree_def)
    then show ?thesis using assms(3) by (auto simp: loop_end_def)
  next
    case Hang
    then have "x = Hang" "w' = w" "v' = v" using assms(4) er by (simp_all add: walk_tree_def)
    then show ?thesis using assms(3) by (auto simp: loop_end_def)
  qed
qed

section \<open>The listings\<close>

lemma list_act_ok:
  assumes "fs_inv self w0"
  shows "act_ok self f push_key
    (\<lambda>vs w v. (v = vs \<and> distinct vs \<and> (\<forall>k \<in> set vs. k \<in> dom (fs_blobs self w0) \<and> matches f k None)) \<and>
       w = w0) (\<lambda>_ _ _. False)"
  using assms by (auto simp: push_key_def intro!: loop_okI)

lemma fs_list_effect:
  assumes "fs_inv self w" "fs_filter_ok f" "fs_list fuel self f w = (r, w')"
  shows "w' = w \<and> (\<forall>ks. r = Ok ks \<longrightarrow>
    sorted ks \<and> distinct ks \<and> set ks = {k \<in> dom (fs_blobs self w). matches f k None})"
proof -
  obtain x w1 v1 where t: "walk_tree fuel self f push_key (w, []) = (x, (w1, v1))"
    by (metis prod_cases3)
  have e: "w1 = w" "x = Ok () \<longrightarrow> distinct v1 \<and> set v1 = {k \<in> dom (fs_blobs self w). matches f k None}"
    using loop_end_const [OF walk_tree_run [OF list_act_ok [OF assms(1), of f] assms(2) _ t]] by auto
  have "r = res_bind x (\<lambda>_. Ok (sort v1))" "w' = w1"
    using assms(3) t by (cases x; simp add: fs_list_def with_acc_def io_bind_eq)+
  then show ?thesis using e by (auto simp: res_bind_Ok_iff)
qed

lemma entry_meta_found:
  assumes "fs_inv self w" "path_of self k p" "fs_blobs self w k = Some b"
  shows "\<exists>m. entry_meta self p k w = (Ok m, w) \<and> bm_key m = k \<and> stored_size m = len64 b \<and> etag m = None"
proof -
  obtain t where n: "node_at w (target w p) = Some (FileN b t)"
    using assms(2,3) by (auto simp: path_of_def target_absolute fs_blobs_Some)
  have "metadata p w = (Ok (stat_of w (target w p) (FileN b t)), w)"
    using metadata_found [OF fs_invD(2,3) [OF assms(1)] n] assms(2) by (simp add: path_of_def)
  then show ?thesis by (auto simp: entry_meta_def meta_of_stat_def stat_of_def)
qed

lemma meta_act_ok:
  assumes "fs_inv self w0"
  shows "act_ok self f (push_meta self)
    (\<lambda>vs w v. (map bm_key v = vs \<and> distinct vs \<and>
        (\<forall>m \<in> set v. matches f (bm_key m) None \<and>
           (\<exists>b. fs_blobs self w0 (bm_key m) = Some b \<and> stored_size m = len64 b))) \<and> w = w0)
    (\<lambda>_ _ _. False)"
proof (rule loop_okI)
  fix vs w v k p x w' v'
  assume J: "(map bm_key v = vs \<and> distinct vs \<and>
        (\<forall>m \<in> set v. matches f (bm_key m) None \<and>
           (\<exists>b. fs_blobs self w0 (bm_key m) = Some b \<and> stored_size m = len64 b))) \<and> w = w0"
    and k: "k \<notin> set vs" "fs_blobs self w k \<noteq> None" "matches f k None" "path_of self k p"
    and e: "push_meta self p k (w, v) = (x, w', v')"
  obtain b where b: "fs_blobs self w k = Some b" using k(2) by auto
  obtain m where m: "entry_meta self p k w = (Ok m, w)" "bm_key m = k" "stored_size m = len64 b"
    using entry_meta_found [OF _ k(4) b] assms J by blast
  then have "x = Ok True" "w' = w" "v' = v @ [m]" using e by (simp_all add: push_meta_def)
  note this [simp]
  show "x \<noteq> Ok True \<Longrightarrow> False" by simp
  show "((map bm_key v' = vs @ [k] \<and> distinct (vs @ [k]) \<and>
        (\<forall>m \<in> set v'. matches f (bm_key m) None \<and>
           (\<exists>b. fs_blobs self w0 (bm_key m) = Some b \<and> stored_size m = len64 b))) \<and> w' = w0)"
    using J k m b by auto
qed (use assms in simp)

lemma fs_lwm_effect:
  assumes "fs_inv self w" "fs_filter_ok f" "fs_list_with_metadata fuel self f w = (r, w')"
  shows "w' = w \<and> (\<forall>ms. r = Ok ms \<longrightarrow> sorted (map bm_key ms) \<and> distinct (map bm_key ms) \<and>
      bm_key ` set ms = {k \<in> dom (fs_blobs self w). matches f k None} \<and>
      (\<forall>m \<in> set ms. \<exists>b. fs_blobs self w (bm_key m) = Some b \<and> stored_size m = len64 b))"
proof -
  obtain x w1 v1 where t: "walk_tree fuel self f (push_meta self) (w, []) = (x, (w1, v1))"
    by (metis prod_cases3)
  have le: "w1 = w \<and> (x = Ok () \<longrightarrow> (\<exists>vs. (map bm_key v1 = vs \<and> distinct vs \<and>
        (\<forall>m \<in> set v1. matches f (bm_key m) None \<and>
           (\<exists>b. fs_blobs self w (bm_key m) = Some b \<and> stored_size m = len64 b))) \<and>
      (\<forall>k \<in> dom (fs_blobs self w). matches f k None \<longrightarrow> k \<in> set vs)))"
    by (rule loop_end_const [OF walk_tree_run [OF meta_act_ok [OF assms(1), of f] assms(2) _ t]]) simp
  have rw: "r = res_bind x (\<lambda>_. Ok (sort_key bm_key v1))" "w' = w1"
    using assms(3) t by (cases x; simp add: fs_list_with_metadata_def with_acc_def io_bind_eq)+
  have "distinct (map bm_key (sort_key bm_key v1))" if "distinct (map bm_key v1)"
    using that by (simp add: distinct_map)
  moreover have "bm_key ` set v1 = {k \<in> dom (fs_blobs self w). matches f k None}"
    if "x = Ok ()" using le that by (auto simp: image_iff)
  ultimately show ?thesis using le rw by (auto simp: res_bind_Ok_iff)
qed

section \<open>Listings change nothing, whatever the filter\<close>

lemma walk_entry_keeps:
  "(\<And>p k. keeps_fst (act p k)) \<Longrightarrow> keeps_fst (walk_entry self f act path)"
  unfolding walk_entry_def by (auto intro!: keeps_intros split: option.split)

lemma walk_entries_keeps:
  assumes "\<And>p k. keeps_fst (act p k)"
  shows "keeps_fst (walk_entries self f act d i names ds)"
proof (induction names arbitrary: i ds)
  case Nil
  then show ?case by (auto intro!: keeps_intros read_only_intros)
next
  case (Cons c names)
  then show ?case
    by (auto intro!: keeps_intros read_only_intros walk_entry_keeps assms split: prod.split)
qed

lemma dir_exists_read_only [read_only_intros]: "read_only (dir_exists p)"
  unfolding dir_exists_def by (intro read_only_intros)

lemma walk_dirs_keeps:
  assumes "\<And>p k. keeps_fst (act p k)"
  shows "keeps_fst (walk_dirs n self f act ds)"
proof (induction n arbitrary: ds)
  case 0
  then show ?case by (cases ds) (simp_all add: keeps_fst_def)
next
  case (Suc n)
  then show ?case
    by (cases ds; auto intro!: keeps_intros read_only_intros walk_entries_keeps assms split: prod.split)
      (simp add: keeps_fst_def)
qed

lemma walk_tree_keeps: "(\<And>p k. keeps_fst (act p k)) \<Longrightarrow> keeps_fst (walk_tree n self f act)"
  unfolding walk_tree_def by (intro keeps_intros read_only_intros walk_dirs_keeps)

lemma entry_meta_read_only [read_only_intros]: "read_only (entry_meta self p k)"
  unfolding entry_meta_def by (intro read_only_intros)

lemma fs_list_read_only: "read_only (fs_list fuel self f)"
  unfolding fs_list_def
  by (intro read_only_intros with_acc_read_only walk_tree_keeps) (simp add: keeps_fst_def push_key_def)

lemma push_meta_keeps: "keeps_fst (push_meta self p k)"
  unfolding push_meta_def
proof (rule keeps_bind)
  show "keeps_fst (io_fst (entry_meta self p k))" by (intro keeps_intros read_only_intros)
  show "keeps_fst (\<lambda>(w, metas). (Ok True, w, metas @ [m]))" for m :: blob_meta
    by (simp add: keeps_fst_def)
qed

lemma fs_lwm_read_only: "read_only (fs_list_with_metadata fuel self f)"
  unfolding fs_list_with_metadata_def
  by (intro read_only_intros with_acc_read_only walk_tree_keeps push_meta_keeps)

section \<open>Visit\<close>

lemma visit_act_ok:
  assumes "loop_ok (fs_inv self) (fs_blobs self) P meta_for (\<lambda>c k. vis k c) J T"
  shows "loop_ok (fs_inv self) (fs_blobs self) P (path_of self) (visit_entry self vis) J T"
  unfolding loop_ok_def
proof (intro conjI allI impI)
  fix vs w v k p x w' v'
  assume J: "J vs w v" and k: "k \<notin> set vs" "fs_blobs self w k \<noteq> None" "P k" "path_of self k p"
    and e: "visit_entry self vis p k (w, v) = (x, w', v')"
  obtain b where b: "fs_blobs self w k = Some b" using k(2) by auto
  obtain m where m: "entry_meta self p k w = (Ok m, w)" "bm_key m = k"
    using entry_meta_found [OF loop_okD(1) [OF assms J] k(4) b] by blast
  then have "vis k (Some m) (w, v) = (x, w', v')" using e by (simp add: visit_entry_def)
  then show "if x = Ok True then J (vs @ [k]) w' v' else T x w' v'"
    using loop_okD(2) [OF assms J k(1-3), of "Some m"] m(2) by simp
qed (use loop_okD(1) [OF assms] in blast)

lemma fs_visit_run:
  assumes "loop_ok (fs_inv self) (fs_blobs self) (\<lambda>k. matches f k None) meta_for (\<lambda>c k. vis k c) J T"
    and "fs_filter_ok f" "J [] w v" "fs_visit fuel self f vis (w, v) = (x, (w', v'))"
  shows "loop_end (fs_blobs self) (\<lambda>k. matches f k None) J T x w' v'"
  using walk_tree_run [OF visit_act_ok [OF assms(1)] assms(2,3)] assms(4) by (simp add: fs_visit_def)

section \<open>Get with metadata\<close>

lemma fs_gwm_found:
  assumes "fs_inv self w" "fs_blobs self w k = Some d" "valid_key k"
  shows "\<exists>m rd. fs_get_with_metadata self k w = (Ok (m, rd), w) \<and> bm_key m = k \<and>
    stored_size m = len64 d \<and> read_all rd = Ok d"
proof -
  obtain t where n: "node_at w (key_place self k) = Some (FileN d t)"
    using assms(2) by (auto simp: fs_blobs_Some)
  show ?thesis
    using ensure_root_ok [OF assms(1)] file_meta_found [OF assms(1,3) n] fs_get_eq [OF assms(1,3)] n
    by (simp add: fs_get_with_metadata_def meta_of_stat_def stat_of_def)
qed

section \<open>The contract holds\<close>

lemma fs_store_simps [simp]:
  "bs_put (fs_store fuel self) = fs_put self"
  "bs_get (fs_store fuel self) = fs_get self"
  "bs_delete (fs_store fuel self) = fs_delete self"
  "bs_list (fs_store fuel self) = fs_list fuel self"
  "bs_exists (fs_store fuel self) = fs_exists self"
  "bs_get_with_metadata (fs_store fuel self) = fs_get_with_metadata self"
  "bs_visit (fs_store fuel self) = fs_visit fuel self"
  "bs_list_with_metadata (fs_store fuel self) = fs_list_with_metadata fuel self"
  by (simp_all add: fs_store_def)

interpretation fs: robust_contract "fs_store fuel self" "fs_inv self" "fs_blobs self" valid_key utf8
  fs_filter_ok
  for fuel self
proof unfold_locales
  fix k assume "valid_key k" then show "valid_key k" .
next
  fix b :: blob_input and bs and w :: "'a fsys_scheme"
  assume "b \<in> set bs" "\<not> valid_key (bi_key b)"
  then show "\<exists>m. bs_put (fs_store fuel self) bs w = (Err (InvalidInput m), w)"
    using fs_put_invalid by (simp add: fs_store_def)
next
  fix w :: "'a fsys_scheme" and bs :: "blob_input list" and res w'
  assume "fs_inv self w" "\<forall>b \<in> set bs. utf8 (bi_key b)" "bs_put (fs_store fuel self) bs w = (Ok res, w')"
  then show "fs_inv self w' \<and> fs_blobs self w' = put_blobs bs (fs_blobs self w) \<and>
      (\<forall>b \<in> set bs. rd_end (bi_data b) = Eof) \<and> map bm_key (pr_blobs res) = map bi_key bs"
    using fs_put_effect [of self w bs "Ok res" w'] by (simp add: fs_store_def)
next
  fix w :: "'a fsys_scheme" and bs :: "blob_input list" and pr w' k
  assume "fs_inv self w" "\<forall>b \<in> set bs. utf8 (bi_key b)" "bs_put (fs_store fuel self) bs w = (pr, w')"
    "k \<notin> bi_key ` set bs"
  then show "fs_blobs self w' k = fs_blobs self w k"
    using fs_put_effect [of self w bs pr w'] by (simp add: fs_store_def)
next
  fix w :: "'a fsys_scheme" and k d gr w'
  assume "fs_inv self w" "valid_key k" "fs_blobs self w k = Some d"
    "bs_get (fs_store fuel self) k w = (gr, w')"
  then show "\<exists>rd. gr = Ok rd \<and> read_all rd = Ok d"
    by (auto simp: fs_store_def fs_get_eq fs_blobs_Some)
next
  fix w :: "'a fsys_scheme" and k d rd w'
  assume a: "fs_inv self w" "bs_get (fs_store fuel self) k w = (Ok rd, w')" "read_all rd = Ok d"
  then have "valid_key k" using fs_get_invalid [of self w k] by (auto simp: fs_store_def)
  with a show "fs_blobs self w k = Some d"
    by (auto simp: fs_store_def fs_get_eq fs_blobs_Some reader_of_def rd_bytes_def read_all_def failing_reader_def
        split: option.splits node.splits)
next
  fix w :: "'a fsys_scheme" and k gr w'
  assume "fs_inv self w" "bs_get (fs_store fuel self) k w = (gr, w')"
  then show "fs_inv self w' \<and> fs_blobs self w' = fs_blobs self w"
    by (auto simp: fs_store_def dest!: read_only_eq [OF fs_get_read_only])
next
  fix w :: "'a fsys_scheme" and k er w'
  assume "fs_inv self w" "valid_key k" "bs_exists (fs_store fuel self) k w = (er, w')"
  then show "er = Ok (fs_blobs self w k \<noteq> None)"
    by (auto simp: fs_store_def fs_exists_eq)
next
  fix w :: "'a fsys_scheme" and k b w'
  assume a: "fs_inv self w" "bs_exists (fs_store fuel self) k w = (Ok b, w')"
  then have "valid_key k" using fs_exists_invalid [of self w k] by (auto simp: fs_store_def)
  then show "b = (fs_blobs self w k \<noteq> None)" using a by (auto simp: fs_store_def fs_exists_eq)
next
  fix w :: "'a fsys_scheme" and k er w'
  assume "fs_inv self w" "bs_exists (fs_store fuel self) k w = (er, w')"
  then show "fs_inv self w' \<and> fs_blobs self w' = fs_blobs self w"
    by (auto simp: fs_store_def dest!: read_only_eq [OF fs_exists_read_only])
next
  fix k ks and w :: "'a fsys_scheme"
  assume "k \<in> set ks" "\<not> valid_key k"
  then show "\<exists>m. bs_delete (fs_store fuel self) ks w = (Err (InvalidInput m), w)"
    using fs_delete_invalid by (simp add: fs_store_def)
next
  fix w :: "'a fsys_scheme" and ks w'
  assume "fs_inv self w" "bs_delete (fs_store fuel self) ks w = (Ok (), w')"
  then have i: "fs_inv self w" and d: "fs_delete self ks w = (Ok (), w')" by (simp_all add: fs_store_def)
  show "fs_blobs self w' = (fs_blobs self w) |` (- set ks)"
    by (cases rule: fs_delete_cases [OF i d]) (auto simp: restrict_map_def)
next
  fix w :: "'a fsys_scheme" and ks be w'
  assume "fs_inv self w" "bs_delete (fs_store fuel self) ks w = (Err (Batch be), w')"
  then have i: "fs_inv self w" and d: "fs_delete self ks w = (Err (Batch be), w')"
    by (simp_all add: fs_store_def)
  show "(\<forall>k \<in> set (succeeded be). k \<in> set ks \<and> fs_blobs self w' k = None) \<and>
      (\<forall>e \<in> set (errors be). ke_key e \<in> set ks) \<and>
      (\<forall>k \<in> set ks. k \<in> set (succeeded be) \<or> k \<in> ke_key ` set (errors be))"
    by (cases rule: fs_delete_cases [OF i d]) auto
next
  fix w :: "'a fsys_scheme" and ks dr w'
  assume "fs_inv self w" "bs_delete (fs_store fuel self) ks w = (dr, w')"
  then have i: "fs_inv self w" and d: "fs_delete self ks w = (dr, w')" by (simp_all add: fs_store_def)
  show "fs_inv self w' \<and> (\<forall>k. fs_blobs self w' k = fs_blobs self w k \<or>
      k \<in> set ks \<and> fs_blobs self w' k = None)"
    by (cases rule: fs_delete_cases [OF i d]) (use i in auto)
next
  fix w :: "'a fsys_scheme" and f ks w'
  assume "fs_inv self w" "fs_filter_ok f" "bs_list (fs_store fuel self) f w = (Ok ks, w')"
  then show "sorted ks \<and> distinct ks \<and> set ks = {k \<in> dom (fs_blobs self w). matches f k None}"
    using fs_list_effect [of self w f fuel "Ok ks" w'] by (simp add: fs_store_def)
next
  fix w :: "'a fsys_scheme" and f lr w'
  assume "fs_inv self w" "bs_list (fs_store fuel self) f w = (lr, w')"
  then show "fs_inv self w' \<and> fs_blobs self w' = fs_blobs self w"
    by (auto simp: fs_store_def dest!: read_only_eq [OF fs_list_read_only])
next
  fix w :: "'a fsys_scheme" and k d mr w'
  assume "fs_inv self w" "valid_key k" "fs_blobs self w k = Some d"
    "bs_get_with_metadata (fs_store fuel self) k w = (mr, w')"
  then show "\<exists>m rd. mr = Ok (m, rd) \<and> bm_key m = k \<and> read_all rd = Ok d"
    using fs_gwm_found [of self w k d] by (auto simp: fs_store_def)
next
  fix w :: "'a fsys_scheme" and k mr w'
  assume "fs_inv self w" "bs_get_with_metadata (fs_store fuel self) k w = (mr, w')"
  then show "fs_inv self w' \<and> fs_blobs self w' = fs_blobs self w"
    by (auto simp: fs_store_def dest!: read_only_eq [OF fs_gwm_read_only])
next
  fix w :: "'a fsys_scheme" and f ms w'
  assume "fs_inv self w" "fs_filter_ok f" "bs_list_with_metadata (fs_store fuel self) f w = (Ok ms, w')"
  then show "sorted (map bm_key ms) \<and> distinct (map bm_key ms) \<and>
      bm_key ` set ms = {k \<in> dom (fs_blobs self w). matches f k None}"
    using fs_lwm_effect [of self w f fuel "Ok ms" w'] by (simp add: fs_store_def)
next
  fix w :: "'a fsys_scheme" and f nr w'
  assume "fs_inv self w" "bs_list_with_metadata (fs_store fuel self) f w = (nr, w')"
  then show "fs_inv self w' \<and> fs_blobs self w' = fs_blobs self w"
    by (auto simp: fs_store_def dest!: read_only_eq [OF fs_lwm_read_only])
next
  fix f vis J T and w :: "'a fsys_scheme" and v vr w' v'
  assume "loop_ok (fs_inv self) (fs_blobs self) (\<lambda>k. matches f k None) meta_for (\<lambda>c k. vis k c) J T"
    "fs_filter_ok f" "meta_free f" "J [] w v" "bs_visit (fs_store fuel self) f vis (w, v) = (vr, w', v')"
  then show "loop_end (fs_blobs self) (\<lambda>k. matches f k None) J T vr w' v'"
    using fs_visit_run by (simp add: fs_store_def)
next
  fix w :: "'a fsys_scheme" and bs :: "blob_input list" and r w'
  assume "fs_inv self w" "\<forall>b \<in> set bs. utf8 (bi_key b)" "bs_put (fs_store fuel self) bs w = (r, w')"
  then show "fs_inv self w'"
    using fs_put_effect [of self w bs r w'] by (simp add: fs_store_def)
qed

end
