(* ===== verification/Fs_Progress.thy ===== *)
theory Fs_Progress
  imports Fs_Walk
begin

text \<open>
  When the filesystem backend succeeds: the walk ends with fuel for one round per directory, a listing
  returns, \<open>put\<close> writes when no file stands where a directory is needed (and the other way round),
  \<open>delete\<close> of stored keys succeeds, and \<open>new\<close> leaves a usable root.
\<close>

section \<open>The walk ends\<close>

definition dirs_at :: "fs_blob_store \<Rightarrow> 'z fsys_scheme \<Rightarrow> place set" where
  "dirs_at self w = {u. node_at w (root_place self @ u) = Some DirN}"

lemma finite_dirs: "finite (dirs_at self w)" "card (dirs_at self w) \<le> length (fs_nodes w) + 1"
proof -
  let ?S = "insert [] (fst ` set (fs_nodes w))"
  have sub: "(\<lambda>u. root_place self @ u) ` dirs_at self w \<subseteq> ?S"
  proof (intro image_subsetI)
    fix u assume "u \<in> dirs_at self w"
    then show "root_place self @ u \<in> ?S"
      by (cases "root_place self @ u = []")
        (force simp: dirs_at_def node_at_def image_iff dest!: map_of_SomeD)+
  qed
  have fin: "finite ?S" by simp
  have inj: "inj_on (\<lambda>u. root_place self @ u) (dirs_at self w)" by (simp add: inj_on_def)
  show "finite (dirs_at self w)"
    using finite_subset [OF sub fin] finite_image_iff [OF inj] by simp
  have "card (dirs_at self w) = card ((\<lambda>u. root_place self @ u) ` dirs_at self w)"
    using card_image [OF inj] by simp
  also have "\<dots> \<le> card ?S" by (rule card_mono [OF fin sub])
  also have "\<dots> \<le> Suc (card (fst ` set (fs_nodes w)))" by (simp add: card_insert_if)
  also have "\<dots> \<le> Suc (length (fs_nodes w))"
    using card_length [of "map fst (fs_nodes w)"] by simp
  finally show "card (dirs_at self w) \<le> length (fs_nodes w) + 1" by simp
qed

text \<open>
  An action that keeps an invariant with a fixed set of directories and never fails. That covers the
  listings and every visitor that only deletes files or rewrites existing ones.
\<close>

definition act_total where
  "act_total self D act K \<longleftrightarrow>
     (\<forall>w v. K w v \<longrightarrow> fs_inv self w \<and> dirs_at self w = D) \<and>
     (\<forall>w v k p. K w v \<longrightarrow> path_of self k p \<longrightarrow> fs_blobs self w k \<noteq> None \<longrightarrow>
        (\<exists>b w' v'. act p k (w, v) = (Ok b, (w', v')) \<and> K w' v'))"

lemma act_totalD:
  assumes "act_total self D act K" "K w v"
  shows "fs_inv self w" "dirs_at self w = D"
    and "path_of self k p \<Longrightarrow> fs_blobs self w k \<noteq> None \<Longrightarrow>
      \<exists>b w' v'. act p k (w, v) = (Ok b, (w', v')) \<and> K w' v'"
  using assms unfolding act_total_def by blast+

definition canon_dir :: "fs_blob_store \<Rightarrow> place \<Rightarrow> path \<Rightarrow> bool" where
  "canon_dir self r d \<longleftrightarrow> canon (fbs_root self) r d \<and> list_all name_ok r"

lemma walk_entry_total:
  assumes t: "act_total self D act K" "K w v"
    and c: "canon (fbs_root self) r p" "list_all name_ok r" "r \<noteq> []" "\<not> ends_with p [KEY_SEPARATOR]"
  shows "\<exists>b ds w' v'. walk_entry self f act p (w, v) = (Ok (b, ds), (w', v')) \<and> K w' v' \<and>
    (ds = [] \<or> ds = [p] \<and> r \<in> D)"
proof -
  let ?k = "join_with KEY_SEPARATOR r"
  note i = act_totalD(1) [OF t]
  note d = fs_invD [OF i]
  have kp: "key_parts ?k = r" by (rule split_names [OF c(2,3)])
  have place: "path_comps p = key_place self ?k"
    using canon_comps [OF c(1,2)] kp by (simp add: key_place_def)
  have tgt: "target w p = key_place self ?k"
    using place canon_absolute [OF c(1)] by (simp add: target_absolute)
  have po: "path_of self ?k p" using place canon_absolute [OF c(1)] c(4) by (simp add: path_of_def)
  show ?thesis
  proof (cases "fs_blobs self w ?k = None")
    case False
    then have f: "is_file w (key_place self ?k)" by (simp add: fs_blobs_None)
    then have u: "utf8 ?k" using d(5) [OF c(3)] kp by (simp add: key_place_def)
    obtain b w' v' where "act p ?k (w, v) = (Ok b, (w', v'))" "K w' v'"
      using act_totalD(3) [OF t po False] by blast
    then show ?thesis
      using f u t(2) path_is_file_iff [OF d(2,3) c(4)] tgt canon_strip [OF c(1) d(1) c(2,3)]
      by (cases "matches f ?k None") (auto simp: walk_entry_def)
  next
    case True
    then have f: "\<not> is_file w (key_place self ?k)" by (simp add: fs_blobs_None)
    show ?thesis
      using f t(2) path_is_file_iff [OF d(2,3) c(4)] path_is_dir_iff [OF d(2,3), of p] tgt kp
        act_totalD(2) [OF t]
      by (auto simp: walk_entry_def dirs_at_def key_place_def)
  qed
qed

lemma walk_entries_total:
  assumes t: "act_total self D act K" and c: "canon_dir self r d"
    and "K w v" "list_all name_ok names" "distinct names"
  shows "\<exists>b rs sub w' v'. walk_entries self f act d i names ds (w, v) = (Ok (b, ds @ sub), (w', v')) \<and>
    K w' v' \<and> list_all2 (canon_dir self) rs sub \<and> distinct rs \<and>
    set rs \<subseteq> D \<inter> (\<lambda>c. r @ [c]) ` set names"
  using assms(3-)
proof (induction names arbitrary: i ds w v)
  case Nil
  have "fault_free w" by (rule fs_invD(3) [OF act_totalD(1) [OF t Nil.prems(1)]])
  then have "walk_entries self f act d i [] ds (w, v) = (Ok (False, ds @ []), (w, v))"
    by (simp add: io_q_eq io_bind_eq)
  then show ?case using Nil.prems(1) by (intro exI [of _ False] exI [of _ "[]"]) auto
next
  case (Cons n names)
  let ?p = "path_join d n"
  have nn: "name_ok n" using Cons.prems(2) by simp
  have cd: "canon (fbs_root self) r d" "list_all name_ok r" using c by (simp_all add: canon_dir_def)
  have ff: "fault_free w" by (rule fs_invD(3) [OF act_totalD(1) [OF t Cons.prems(1)]])
  have cp: "canon (fbs_root self) (r @ [n]) ?p" by (rule canon_join [OF cd(1) nn cd(2)])
  obtain b1 d1 w1 v1 where e1: "walk_entry self f act ?p (w, v) = (Ok (b1, d1), (w1, v1))" "K w1 v1"
      "d1 = [] \<or> d1 = [?p] \<and> r @ [n] \<in> D"
    using walk_entry_total [OF t Cons.prems(1) cp _ _ not_slash_join [OF nn], of f] cd(2) nn by auto
  have eq: "walk_entries self f act d i (n # names) ds (w, v) =
      (if b1 then (Ok (True, ds), (w1, v1))
       else walk_entries self f act d (Suc i) names (ds @ d1) (w1, v1))"
    using ff e1(1) by (simp add: io_q_eq io_bind_eq)
  show ?case
  proof (cases b1)
    case True
    then show ?thesis using eq e1(2) by (intro exI [of _ True] exI [of _ "[]"]) auto
  next
    case False
    define r1 where "r1 = (if d1 = [] then [] else [r @ [n]])"
    have r1: "list_all2 (canon_dir self) r1 d1" "set r1 \<subseteq> D \<inter> {r @ [n]}" "distinct r1"
      using e1(3) cp cd(2) nn by (auto simp: r1_def canon_dir_def)
    obtain b rs sub w' v' where rec:
        "walk_entries self f act d (Suc i) names (ds @ d1) (w1, v1) = (Ok (b, (ds @ d1) @ sub), (w', v'))"
        "K w' v'" "list_all2 (canon_dir self) rs sub" "distinct rs"
        "set rs \<subseteq> D \<inter> (\<lambda>c. r @ [c]) ` set names"
      using Cons.IH [OF e1(2), of "Suc i" "ds @ d1"] Cons.prems(2,3) by auto
    have "n \<notin> set names" using Cons.prems(3) by simp
    then have "distinct (r1 @ rs)" "set (r1 @ rs) \<subseteq> D \<inter> (\<lambda>c. r @ [c]) ` set (n # names)"
      using r1(2,3) rec(4,5) by auto
    then show ?thesis
      using eq False rec(1,2) list_all2_appendI [OF r1(1) rec(3)]
      by (intro exI [of _ b] exI [of _ "r1 @ rs"] exI [of _ "d1 @ sub"]) auto
  qed
qed

text \<open>The measure: the directories that are still below a queued place.\<close>

definition todo :: "place set \<Rightarrow> place list \<Rightarrow> place set" where
  "todo D rs = {u \<in> D. \<exists>r \<in> set rs. prefix r u}"

lemma todo_step:
  assumes "finite D" "r \<in> D" "distinct (r # rs)" "pairwise (\<parallel>) (set (r # rs))"
    and "set new \<subseteq> D \<inter> (\<lambda>c. r @ [c]) ` X" "distinct new"
  shows "card (todo D (rs @ new)) < card (todo D (r # rs))"
    and "distinct (rs @ new)" "pairwise (\<parallel>) (set (rs @ new))"
proof -
  have par: "r \<parallel> s" "s \<parallel> r" if "s \<in> set rs" for s
    using assms(3,4) that by (auto simp: pairwise_insert)
  have new: "\<exists>c. s = r @ [c]" if "s \<in> set new" for s using assms(5) that by auto
  have parn: "s \<parallel> t" "t \<parallel> s" if "s \<in> set new" "t \<in> set rs" for s t
    using par(1) [OF that(2)] new [OF that(1)] parallel_snoc [of r t] parallel_commute by blast+
  have "todo D (rs @ new) \<subseteq> todo D (r # rs)"
  proof
    fix u assume "u \<in> todo D (rs @ new)"
    then obtain s where "u \<in> D" "s \<in> set rs \<or> s \<in> set new" "prefix s u" by (auto simp: todo_def)
    then show "u \<in> todo D (r # rs)"
      using new [of s] by (auto simp: todo_def dest: append_prefixD)
  qed
  moreover have "r \<in> todo D (r # rs)" using assms(2) by (simp add: todo_def)
  moreover have "r \<notin> todo D (rs @ new)"
    using par(2) new by (fastforce simp: todo_def parallel_def)
  ultimately have "todo D (rs @ new) \<subset> todo D (r # rs)" by blast
  moreover have "finite (todo D (r # rs))" using assms(1) by (simp add: todo_def)
  ultimately show "card (todo D (rs @ new)) < card (todo D (r # rs))" by (rule psubset_card_mono [rotated])
  show "distinct (rs @ new)" using assms(3,6) parn by (auto simp: parallel_def)
  have "s \<parallel> t" if "s \<in> set new" "t \<in> set new" "s \<noteq> t" for s t
    using new [OF that(1)] new [OF that(2)] that(3) by (auto simp: parallel_def)
  note pn = this
  have rs: "s \<parallel> t" if "s \<in> set rs" "t \<in> set rs" "s \<noteq> t" for s t
    using assms(4) that by (auto simp: pairwise_def)
  show "pairwise (\<parallel>) (set (rs @ new))"
  proof (rule pairwiseI)
    fix s t assume "s \<in> set (rs @ new)" "t \<in> set (rs @ new)" "s \<noteq> t"
    then show "s \<parallel> t" using pn [of s t] rs [of s t] parn by (metis Un_iff set_append)
  qed
qed

lemma dir_exists_found:
  assumes "fs_inv self w" "canon_dir self r d" "r \<in> dirs_at self w"
  shows "dir_exists d w = (Ok True, w)" "read_dir d w = (Ok (child_names w (root_place self @ r)), w)"
proof -
  note i = fs_invD [OF assms(1)]
  have t: "target w d = root_place self @ r"
    using assms(2) canon_comps canon_absolute by (auto simp: canon_dir_def target_absolute)
  have n: "node_at w (target w d) = Some DirN" using assms(3) t by (simp add: dirs_at_def)
  show "dir_exists d w = (Ok True, w)"
    using metadata_found [OF i(2,3) n] by (simp add: dir_exists_def)
  show "read_dir d w = (Ok (child_names w (root_place self @ r)), w)"
    using read_dir_found [OF i(2,3) n] t by simp
qed

lemma walk_dirs_total:
  assumes t: "act_total self D act K" and "K w v" "list_all2 (canon_dir self) rs ds"
    and "set rs \<subseteq> D" "distinct rs" "pairwise (\<parallel>) (set rs)" "card (todo D rs) \<le> n"
  shows "\<exists>w' v'. walk_dirs n self f act ds (w, v) = (Ok (), (w', v')) \<and> K w' v'"
  using assms(2-)
proof (induction n arbitrary: rs ds w v)
  case (0 rs ds w v)
  have "finite D" using act_totalD(2) [OF t 0(1)] finite_dirs(1) by metis
  then have "todo D rs = {}" using 0 by (simp add: todo_def)
  then have "rs = []" using 0(3) by (cases rs) (auto simp: todo_def)
  then show ?case using 0 by simp
next
  case (Suc n rs ds w v)
  show ?case
  proof (cases ds)
    case Nil
    then show ?thesis using Suc.prems(1) by simp
  next
    case (Cons d ds')
    then obtain r rs' where rs: "rs = r # rs'" "canon_dir self r d" "list_all2 (canon_dir self) rs' ds'"
      using Suc.prems(2) by (auto simp: list_all2_Cons2)
    note i = act_totalD(1) [OF t Suc.prems(1)] and D = act_totalD(2) [OF t Suc.prems(1)]
    have r: "r \<in> dirs_at self w" using Suc.prems(3) rs(1) D by simp
    let ?ns = "child_names w (root_place self @ r)"
    obtain b new sub w1 v1 where e: "walk_entries self f act d 0 ?ns [] (w, v) = (Ok (b, sub), (w1, v1))"
        "K w1 v1" "list_all2 (canon_dir self) new sub" "distinct new"
        "set new \<subseteq> D \<inter> (\<lambda>c. r @ [c]) ` set ?ns"
      using walk_entries_total [OF t rs(2) Suc.prems(1) child_names_ok [OF fs_invD(2) [OF i]]
          child_names_distinct [OF fs_invD(2) [OF i]], where ds = "[]" and i = 0 and f = f]
      by (metis append_Nil)
    have eq: "walk_dirs (Suc n) self f act ds (w, v) =
        (if b then (Ok (), (w1, v1)) else walk_dirs n self f act (ds' @ sub) (w1, v1))"
      using Cons dir_exists_found [OF i rs(2) r] e(1) by (simp add: io_q_eq io_bind_eq)
    have st: "card (todo D (rs' @ new)) < card (todo D (r # rs'))"
      "distinct (rs' @ new)" "pairwise (\<parallel>) (set (rs' @ new))"
      using todo_step [OF _ _ _ _ e(5,4), of rs'] Suc.prems(4,5) rs(1) r D finite_dirs(1) [of self w]
      by auto
    show ?thesis
    proof (cases b)
      case False
      have "set (rs' @ new) \<subseteq> D" using Suc.prems(3) rs(1) e(5) by auto
      then show ?thesis
        using Suc.IH [OF e(2) list_all2_appendI [OF rs(3) e(3)]] st Suc.prems(6) rs(1) eq False by simp
    qed (use eq e(2) in simp)
  qed
qed

definition hint_ready :: "fs_blob_store \<Rightarrow> list_filter \<Rightarrow> 'z fsys_scheme \<Rightarrow> bool" where
  "hint_ready self f w \<longleftrightarrow> hint_clean f \<and> hint_dir f \<in> dirs_at self w \<and>
     (\<forall>h. prefix_hint f = Some h \<longrightarrow> validate_prefix_hint h = Ok ())"

lemma walk_tree_total:
  assumes "act_total self D act K" "K w v" "hint_ready self f w" "length (fs_nodes w) + 1 \<le> fuel"
  shows "\<exists>w' v'. walk_tree fuel self f act (w, v) = (Ok (), (w', v')) \<and> K w' v'"
proof -
  note i = act_totalD(1) [OF assms(1,2)] and D = act_totalD(2) [OF assms(1,2)]
  have "\<exists>d. prefix_subdir (fbs_root self) f = Ok d"
    using assms(3) by (auto simp: prefix_subdir_def hint_ready_def Let_def split: option.splits)
  then obtain d where d: "prefix_subdir (fbs_root self) f = Ok d" by blast
  have hc: "hint_clean f" using assms(3) by (simp add: hint_ready_def)
  have cd: "canon_dir self (hint_dir f) d"
    using prefix_subdir_canon [OF fs_invD(1) [OF i] hc d] hint_dir_names [OF hc]
    by (simp add: canon_dir_def)
  have "card (todo D [hint_dir f]) \<le> card D"
    using finite_dirs(1) [of self w] D by (intro card_mono) (auto simp: todo_def)
  then have "card (todo D [hint_dir f]) \<le> fuel"
    using finite_dirs(2) [of self w] D assms(4) by simp
  then have "\<exists>w' v'. walk_dirs fuel self f act [d] (w, v) = (Ok (), (w', v')) \<and> K w' v'"
    using walk_dirs_total [OF assms(1,2), of "[hint_dir f]" "[d]" fuel f] cd assms(3) D
    by (simp add: hint_ready_def)
  then show ?thesis using ensure_root_ok [OF i] d by (simp add: walk_tree_def)
qed

lemma fs_list_succeeds:
  assumes "fs_inv self w" "fs_filter_ok f" "hint_ready self f w" "length (fs_nodes w) + 1 \<le> fuel"
  shows "\<exists>ks. fs_list fuel self f w = (Ok ks, w)"
proof -
  have "act_total self (dirs_at self w) push_key (\<lambda>w1 (v :: key list). w1 = w)"
    using assms(1) by (auto simp: act_total_def push_key_def)
  from walk_tree_total [OF this _ assms(3,4), of "[]"] show ?thesis
    by (auto simp: fs_list_def with_acc_def io_bind_eq)
qed

lemma fs_lwm_succeeds:
  assumes "fs_inv self w" "fs_filter_ok f" "hint_ready self f w" "length (fs_nodes w) + 1 \<le> fuel"
  shows "\<exists>ms. fs_list_with_metadata fuel self f w = (Ok ms, w)"
proof -
  have "act_total self (dirs_at self w) (push_meta self) (\<lambda>w1 (v :: blob_meta list). w1 = w)"
    unfolding act_total_def
  proof (intro conjI allI impI)
    fix w1 :: "'a fsys_scheme" and v :: "blob_meta list" and k p
    assume "w1 = w" "path_of self k p" "fs_blobs self w1 k \<noteq> None"
    then show "\<exists>b w' v'. push_meta self p k (w1, v) = (Ok b, w', v') \<and> w' = w"
      using entry_meta_found [OF assms(1), of k p] by (fastforce simp: push_meta_def)
  qed (use assms(1) in simp_all)
  from walk_tree_total [OF this _ assms(3,4), of "[]"] show ?thesis
    by (auto simp: fs_list_with_metadata_def with_acc_def io_bind_eq)
qed

lemma hint_ready_none: "fs_inv self w \<Longrightarrow> prefix_hint f = None \<Longrightarrow> hint_ready self f w"
  using fs_invD(4) by (simp add: hint_ready_def hint_clean_def hint_dir_def dirs_at_def)

section \<open>Put and delete succeed\<close>

text \<open>Nothing in the way of a key: no file where a directory is needed, no directory at the key.\<close>

definition room_for :: "fs_blob_store \<Rightarrow> 'z fsys_scheme \<Rightarrow> key \<Rightarrow> bool" where
  "room_for self w k \<longleftrightarrow> node_at w (key_place self k) \<noteq> Some DirN \<and>
     (\<forall>u v. key_place self k = u @ v \<longrightarrow> v \<noteq> [] \<longrightarrow> \<not> is_file w u)"

lemma fs_put_one_succeeds:
  assumes i: "fs_inv self w" and v: "valid_key (bi_key b)" and rd: "rd_end (bi_data b) = Eof"
    and room: "room_for self w (bi_key b)"
  shows "\<exists>m w'. fs_put_one self b w = (Ok m, w') \<and> stored_size m = len64 (rd_bytes (bi_data b))"
proof -
  let ?k = "bi_key b" and ?t = "key_place self (bi_key b)"
  obtain p where p: "key_to_path self ?k = Ok p" "is_absolute p" "path_comps p = ?t"
      "\<not> ends_with p [KEY_SEPARATOR]" "list_all name_ok ?t"
    using key_path [OF i v] by metis
  obtain q where q: "path_parent p = Some q" "is_absolute q" "path_comps q = butlast ?t"
    using path_parent_comps [OF p(2)] p(3) by auto
  have qn: "list_all name_ok (path_comps q)"
    using p(5) q(3) by (auto simp: list_all_iff dest: in_set_butlastD)
  have nf: "\<not> is_file w u" if "path_comps q = u @ v" for u v
  proof -
    have "?t = u @ v @ [last ?t]" using that q(3) append_butlast_last_id [of ?t] by simp
    then show ?thesis using room unfolding room_for_def by blast
  qed
  obtain w1 where c1: "create_dir_all q w = (Ok (), w1)"
    using create_dir_all_succeeds [OF fs_invD(2,3) [OF i] q(2) qn nf]
    by (cases "create_dir_all q w") auto
  have g1: "fs_grows w w1" "node_at w1 (butlast ?t) = Some DirN"
    using create_dir_all_effect [OF fs_invD(2,3) [OF i] q(2) qn c1] q(3) by auto
  have w1: "fs_wf w1" "fault_free w1"
    using g1(1) fs_invD(3) [OF i] fault_free_frame [of w w1] by (auto simp: fs_grows_def files_but_def)
  have nd: "node_at w1 ?t \<noteq> Some DirN"
    using create_dir_all_adds [OF fs_invD(2,3) [OF i] q(2) qn c1, of ?t] room q(3)
      key_place_not_Nil [of self ?k]
    by (cases ?t) (auto simp: room_for_def split: if_splits)
  obtain w2 where c2: "create_file p w1 = (Ok (), w2)"
    using create_file_succeeds [OF w1 p(2,4)] p(3) g1(2) nd by (cases "create_file p w1") auto
  have f2: "files_but ?t w1 w2" "is_file w2 ?t"
    using create_file_effect [OF w1 p(2) _ c2] p(3,5) by auto
  have w2: "fs_wf w2" "fault_free w2"
    using f2(1) w1(2) fault_free_frame [of w1 w2] by (auto simp: files_but_def)
  obtain r3 w3 where c3: "copy_to_file p (bi_data b) w2 = (r3, w3)" by (cases "copy_to_file p (bi_data b) w2")
  have f3: "files_but ?t w2 w3" "r3 = Ok ()"
      "node_at w3 ?t = Some (FileN (rd_bytes (bi_data b)) (fs_clock w2))"
    using copy_to_file_effect [OF w2 p(2) _ _ c3] p(3) f2(2) rd by auto
  have w3: "fs_wf w3" "fault_free w3"
    using f3(1) w2(2) fault_free_frame [of w2 w3] by (auto simp: files_but_def)
  have "metadata p w3 = (Ok (stat_of w3 ?t (FileN (rd_bytes (bi_data b)) (fs_clock w2))), w3)"
    using metadata_found [OF w3] f3(3) p(2,3,4) by (simp add: target_absolute)
  then show ?thesis
    using p(1) q(1) c1 c2 c3 f3(2) by (simp add: fs_put_one_def meta_of_stat_def stat_of_def)
qed

lemma fs_put_single_succeeds:
  assumes "fs_inv self w" "valid_key (bi_key b)" "rd_end (bi_data b) = Eof" "room_for self w (bi_key b)"
  shows "\<exists>m w'. fs_put self [b] w = (Ok \<lparr>pr_blobs = [m]\<rparr>, w') \<and>
    stored_size m = len64 (rd_bytes (bi_data b))"
proof -
  obtain m w' where m: "fs_put_one self b w = (Ok m, w')" "stored_size m = len64 (rd_bytes (bi_data b))"
    using fs_put_one_succeeds [OF assms] by blast
  show ?thesis
    using m validate_all_valid [of "[b]" bi_key] assms(2) ensure_root_ok [OF assms(1)]
    by (simp add: fs_put_def put_result_multiple_def)
qed

text \<open>Deleting keys that are stored, each once, succeeds.\<close>

text \<open>
  Deleting a key succeeds, whether it is stored or not, as long as nothing but a file can be at its
  place: removing a file only takes its node away, and a missing path below directories is \<open>ENOENT\<close>.
\<close>

lemma walk_missing:
  assumes "\<forall>u v. cs = u @ v \<longrightarrow> v \<noteq> [] \<longrightarrow> \<not> is_file fs (cur @ u)" "node_at fs (cur @ cs) = None"
  shows "walk fs cur cs = Err enoent"
  using assms
proof (induction cs arbitrary: cur)
  case (Cons c cs)
  have nf: "\<not> is_file fs cur" using Cons.prems(1) [rule_format, of "[]" "c # cs"] by simp
  have "\<not> is_file fs ((cur @ [c]) @ u)" if "cs = u @ v" "v \<noteq> []" for u v
    using Cons.prems(1) [rule_format, of "c # u" v] that by simp
  then have "walk fs (cur @ [c]) cs = Err enoent" using Cons.prems(2) by (intro Cons.IH) auto
  then show ?case using nf by (auto simp: is_file_def split: option.split node.split)
qed simp

lemma remove_file_room:
  assumes i: "fs_inv self w" and v: "valid_key k" and room: "room_for self w k"
    and p: "key_to_path self k = Ok p"
  shows "\<exists>w'. (remove_file p w = (Ok (), w') \<or>
      (\<exists>e. remove_file p w = (Err e, w') \<and> io_error_kind e = KNotFound)) \<and>
    (\<forall>u. node_at w' u = (if u = key_place self k then None else node_at w u))"
proof -
  have q: "is_absolute p" "path_comps p = key_place self k" "\<not> ends_with p [KEY_SEPARATOR]"
    using key_path [OF i v] p by auto
  note d = fs_invD [OF i]
  show ?thesis
  proof (cases "node_at w (key_place self k)")
    case None
    have "walk w [] (key_place self k) = Err enoent"
      by (rule walk_missing) (use room None in \<open>simp_all add: room_for_def\<close>)
    then have "remove_file p w = (Err enoent, w)"
      using d(3) q by (simp add: remove_file_def resolve_def target_absolute)
    then show ?thesis using None by (auto simp: enoent_def)
  next
    case (Some n)
    then obtain b m where n: "n = FileN b m" using room by (cases n) (auto simp: room_for_def)
    have "resolve w p = Ok n" using resolve_Ok [OF d(2), of p n] Some q by (simp add: target_absolute)
    then have "remove_file p w = (Ok (), del_node (key_place self k) w)"
      using d(3) q n by (simp add: remove_file_def target_absolute)
    then show ?thesis by (auto simp: node_at_del_node)
  qed
qed

lemma room_for_less:
  assumes "\<forall>u. node_at w' u = (if u = t then None else node_at w u)" "room_for self w k"
  shows "room_for self w' k"
  using assms by (auto simp: room_for_def is_file_def)

lemma fs_delete_keys_room:
  assumes "fs_inv self w" "\<forall>k \<in> set ks. valid_key k \<and> room_for self w k"
  shows "\<exists>w'. fs_delete_keys self ks succ errs w = (Ok (succ @ ks, errs), w') \<and>
    (\<forall>u. node_at w' u = (if u \<in> key_place self ` set ks then None else node_at w u))"
  using assms
proof (induction ks arbitrary: w succ)
  case Nil
  then show ?case by simp
next
  case (Cons k ks)
  have k: "valid_key k" "room_for self w k" using Cons.prems(2) by simp_all
  obtain p where p: "key_to_path self k = Ok p" using key_path [OF Cons.prems(1) k(1)] by metis
  obtain w1 where w1: "remove_file p w = (Ok (), w1) \<or>
      (\<exists>e. remove_file p w = (Err e, w1) \<and> io_error_kind e = KNotFound)"
      "\<forall>u. node_at w1 u = (if u = key_place self k then None else node_at w u)"
    using remove_file_room [OF Cons.prems(1) k p] by blast
  have eq: "fs_delete_keys self (k # xs) succ errs w = fs_delete_keys self xs (succ @ [k]) errs w1"
    for xs succ errs
    using w1(1) p by auto
  have one: "fs_delete_keys self [k] [] [] w = (Ok ([k], []), w1)" unfolding eq by simp
  have i1: "fs_inv self w1" using fs_delete_keys_effect [OF Cons.prems(1) _ one] k(1) by simp
  have "\<forall>k' \<in> set ks. valid_key k' \<and> room_for self w1 k'"
    using Cons.prems(2) room_for_less [OF w1(2)] by simp
  then obtain w2 where w2: "fs_delete_keys self ks (succ @ [k]) errs w1 = (Ok ((succ @ [k]) @ ks, errs), w2)"
      "\<forall>u. node_at w2 u = (if u \<in> key_place self ` set ks then None else node_at w1 u)"
    using Cons.IH [OF i1, of "succ @ [k]"] by blast
  show ?case unfolding eq using w2 w1(2) by (intro exI [of _ w2]) auto
qed

lemma fs_delete_room:
  assumes "fs_inv self w" "\<forall>k \<in> set ks. valid_key k \<and> room_for self w k"
  shows "\<exists>w'. fs_delete self ks w = (Ok (), w') \<and>
    (\<forall>u. node_at w' u = (if u \<in> key_place self ` set ks then None else node_at w u))"
proof -
  have "res_for validate_blob_key ks = Ok ()" using assms(2) by (simp add: res_for_Ok_iff)
  moreover obtain w' where "fs_delete_keys self ks [] [] w = (Ok (ks, []), w')"
      "\<forall>u. node_at w' u = (if u \<in> key_place self ` set ks then None else node_at w u)"
    using fs_delete_keys_room [OF assms, of "[]" "[]"] by auto
  ultimately show ?thesis
    using ensure_root_ok [OF assms(1)] by (simp add: fs_delete_def)
qed

lemma stored_room: "fs_inv self w \<Longrightarrow> fs_blobs self w k \<noteq> None \<Longrightarrow> room_for self w k"
proof -
  assume i: "fs_inv self w" and s: "fs_blobs self w k \<noteq> None"
  then have f: "is_file w (key_place self k)" by (simp add: fs_blobs_None)
  have "\<not> is_file w u" if "key_place self k = u @ v" "v \<noteq> []" for u v
    using node_at_prefix [OF fs_invD(2) [OF i], of u v] f that by (auto simp: is_file_def)
  then show ?thesis using f by (auto simp: room_for_def is_file_def)
qed

lemma fs_delete_succeeds:
  assumes "fs_inv self w" "\<forall>k \<in> set ks. valid_key k \<and> fs_blobs self w k \<noteq> None"
  shows "\<exists>w'. fs_delete self ks w = (Ok (), w')"
  using fs_delete_room [OF assms(1), of ks] stored_room [OF assms(1)] assms(2) by blast

lemma normalise_root_ok:
  assumes "is_absolute r" "list_all name_ok (path_comps r)"
  shows "root_ok (normalise_root r)" "path_comps (normalise_root r) = path_comps r"
proof -
  have "path_comps (r @ [KEY_SEPARATOR]) = path_comps r" using path_comps_sep [of r "[]"] by simp
  moreover have "r \<noteq> []" by (rule is_absolute_not_Nil [OF assms(1)])
  moreover have "\<not> is_absolute []" by (simp add: is_absolute_def starts_with_def)
  ultimately show "path_comps (normalise_root r) = path_comps r"
    by (simp add: normalise_root_def path_join_def)
  then show "root_ok (normalise_root r)"
    using assms \<open>r \<noteq> []\<close> \<open>\<not> is_absolute []\<close> is_absolute_append [OF assms(1)]
    by (auto simp: root_ok_def normalise_root_def path_join_def ends_with_iff)
qed

lemma fs_new_effect:
  assumes "fs_wf w" "fault_free w" "is_absolute r" "list_all name_ok (path_comps r)"
    and "\<And>rel. rel \<noteq> [] \<Longrightarrow> is_file w (path_comps r @ rel) \<Longrightarrow> utf8 (join_with KEY_SEPARATOR rel)"
    and "fs_new ts r w = (Ok self, w')"
  shows "fs_inv self w' \<and> fbs_root self = normalise_root r \<and> fs_blobs self w' = fs_blobs self w"
proof -
  note n = normalise_root_ok [OF assms(3,4)]
  have na: "is_absolute (normalise_root r)" "list_all name_ok (path_comps (normalise_root r))"
    using n by (simp_all add: root_ok_def)
  obtain x where c: "create_dir_all (normalise_root r) w = (Ok x, w')"
      and self: "self = \<lparr>fbs_root = normalise_root r, fbs_from_timestamp = ts\<rparr>"
    using assms(6) by (auto simp: fs_new_def Let_def elim!: io_bind_OkE dest!: io_map_err_OkD)
  have g: "fs_grows w w'" "node_at w' (path_comps r) = Some DirN"
    using create_dir_all_effect [OF assms(1,2) na c] n(2) by auto
  have same: "node_at w' u = Some (FileN b m) \<longleftrightarrow> node_at w u = Some (FileN b m)" for u b m
    using fs_grows_files_but [OF g(1), of "u @ [[]]"] by (auto simp: files_but_def)
  have "fs_inv self w'"
    using n g assms(5) same fault_free_frame [of w w'] assms(2) unfolding fs_inv_def
    by (auto simp: self is_file_def fs_grows_def files_but_def)
  moreover have "fs_blobs self w' k = Some b \<longleftrightarrow> fs_blobs self w k = Some b" for k b
    by (simp add: fs_blobs_Some same)
  then have "fs_blobs self w' = fs_blobs self w" by (intro ext) (metis option.exhaust)
  ultimately show ?thesis using self by simp
qed

end
