(* ===== verification/Prefix_Fs.thy ===== *)
theory Prefix_Fs
  imports Prefix Fs_Progress
begin

text \<open>
  The prefix layer over the filesystem backend: the layer's locale on the backend's definitions, and
  what the two do together.
\<close>

interpretation pfs: robust_prefix_layer "fs_store fuel self" "fs_inv self" "fs_blobs self" valid_key utf8
  fs_filter_ok p
  for fuel self p
  by unfold_locales

end
