(* ===== verification/Examples.thy ===== *)
theory Examples
  imports Prefix_Fs
begin

text \<open>
  A small concrete filesystem and backend, on which the properties are exercised: a root directory
  \<open>/d/\<close> that holds the file \<open>a\<close> and a directory \<open>s\<close> with the file \<open>b\<close>.
\<close>

definition demo_store :: fs_blob_store where
  "demo_store = \<lparr>fbs_root = ''/d/'', fbs_from_timestamp = (\<lambda>s n. Some (s * 1000000000 + int n))\<rparr>"

definition demo_fs :: fsys where
  "demo_fs = \<lparr>fs_nodes = [([''d''], DirN), ([''d'', ''a''], FileN [1, 2] (Some 5)),
       ([''d'', ''s''], DirN), ([''d'', ''s'', ''b''], FileN [3] (Some 6))],
     fs_cwd = [], fs_fault = (\<lambda>_. None), fs_flushed = (\<lambda>_. 0), fs_clock = Some 7,
     fs_dir_stat = (\<lambda>_. (0, None))\<rparr>"

lemma demo_inv: "fs_inv demo_store demo_fs"
proof -
  have r: "path_comps ''/d/'' = [''d'']"
    by (simp add: path_comps_def junk_def KEY_SEPARATOR_def)
  have "fs_wf demo_fs"
    by (auto simp: fs_wf_def demo_fs_def node_at_def name_ok_def good_component_def KEY_SEPARATOR_def
        split: if_splits)
  moreover have "root_ok ''/d/''"
    using r by (simp add: root_ok_def is_absolute_def starts_with_def ends_with_def KEY_SEPARATOR_def
        name_ok_def good_component_def)
  moreover have "utf8 ''a''" "utf8 ''s/b''" by code_simp+
  ultimately show ?thesis
    using r by (auto simp: fs_inv_def demo_store_def demo_fs_def fault_free_def node_at_def is_file_def
        KEY_SEPARATOR_def split: if_splits)
qed

lemma demo_list: "fst (fs_list 5 demo_store (suffix_filter []) demo_fs) = Ok [''a'', ''s/b'']"
  by code_simp

lemma demo_put:
  "fst (fs_put demo_store [blob_input_new ''t/c'' (reader_of [9])] demo_fs) =
   Ok \<lparr>pr_blobs = [\<lparr>bm_key = ''t/c'', stored_size = 1, modified_at = 7, etag = None\<rparr>]\<rparr>"
  by code_simp

end
