(* ===== verification/Fs_Properties.thy ===== *)
theory Fs_Properties
  imports Examples
begin

text \<open>
  The properties of key validation, the filters, the filesystem backend and the prefix layer, each
  with an instance on the filesystem of \<open>Examples\<close>.
\<close>

section \<open>Validation and paths\<close>

text \<open>
  C1: a key that passes validation names a path strictly below the backend's root: the path's
  components are those of the root followed by the key's own components, none of which is empty,
  \<open>.\<close> or \<open>..\<close>, and distinct keys have distinct paths. A key that fails it gets no path.
\<close>
theorem key_path_safe:
  assumes "root_ok (fbs_root self)"
  shows "(validate_blob_key k = Ok () \<longrightarrow>
      (\<exists>p. key_to_path self k = Ok p \<and> is_absolute p \<and>
         path_comps p = path_comps (fbs_root self) @ key_parts k \<and>
         (\<forall>c \<in> set (key_parts k). c \<noteq> [] \<and> c \<noteq> ''.'' \<and> c \<noteq> ''..''))) \<and>
    (validate_blob_key k \<noteq> Ok () \<longrightarrow> (\<exists>m. key_to_path self k = Err (InvalidInput m))) \<and>
    (key_to_path self k = Ok p \<longrightarrow> key_to_path self k' = Ok p \<longrightarrow> k = k')"
proof (intro conjI impI)
  assume "validate_blob_key k = Ok ()"
  then have v: "valid_key k" by (simp add: validate_Ok_iff)
  then show "\<exists>p. key_to_path self k = Ok p \<and> is_absolute p \<and>
      path_comps p = path_comps (fbs_root self) @ key_parts k \<and>
      (\<forall>c \<in> set (key_parts k). c \<noteq> [] \<and> c \<noteq> ''.'' \<and> c \<noteq> ''..'')"
    using key_to_path_Ok [OF assms v] by (auto simp: valid_key_def good_component_def list_all_iff)
next
  assume "validate_blob_key k \<noteq> Ok ()"
  then show "\<exists>m. key_to_path self k = Err (InvalidInput m)"
    using key_to_path_invalid by (simp add: validate_Ok_iff)
next
  assume p: "key_to_path self k = Ok p" "key_to_path self k' = Ok p"
  then have "valid_key k" "valid_key k'"
    using key_to_path_invalid [of k self] key_to_path_invalid [of k' self] by auto
  then have "key_parts k = key_parts k'"
    using p key_to_path_Ok [OF assms, of k] key_to_path_Ok [OF assms, of k'] by auto
  then show "k = k'" by (rule split_on_inj)
qed

theorem key_path_safe_witness:
  "key_to_path demo_store ''s/b'' = Ok ''/d/s/b'' \<and> ''s/b'' = ''s/b'' \<and>
   (\<exists>m. key_to_path demo_store ''s/../b'' = Err (InvalidInput m))"
proof -
  have r: "root_ok (fbs_root demo_store)" by (rule fs_invD(1) [OF demo_inv])
  have "key_to_path demo_store ''s/b'' = Ok ''/d/s/b''" by code_simp
  moreover have "validate_blob_key ''s/../b'' \<noteq> Ok ()" by code_simp
  ultimately show ?thesis using key_path_safe [OF r, of "''s/../b''"] by blast
qed


section \<open>The filesystem backend\<close>



text \<open>
  C4: what was put can be read back: after a successful \<open>put\<close> of a batch, \<open>get\<close> of a key of the store
  returns a stream with exactly the contents that the batch left there (the last input of the
  batch for that key), whatever the chunking of the input streams was.
\<close>
theorem fs_put_get:
  assumes "fs_inv self w" "\<forall>b \<in> set bs. utf8 (bi_key b)" "fs_put self bs w = (Ok res, w1)"
    and "bs = as @ b # cs" "bi_key b \<notin> bi_key ` set cs" "fs_get self (bi_key b) w1 = (r, w2)"
  shows "\<exists>rd. r = Ok rd \<and> read_all rd = Ok (rd_bytes (bi_data b))"
proof -
  have "put_blobs bs (fs_blobs self w) (bi_key b) = Some (rd_bytes (bi_data b))"
    using assms(4,5) put_blobs_append [of as "b # cs"] by (simp add: put_blobs_other)
  moreover have "valid_key (bi_key b)"
  proof (rule ccontr)
    assume "\<not> valid_key (bi_key b)"
    then show False using fs_put_invalid [of b bs self w] assms(3,4) by auto
  qed
  ultimately show ?thesis
    using fs.put_get_roundtrip [of self w bs 0 res w1 "bi_key b" _ r w2] assms by simp
qed

theorem fs_put_get_witness:
  "\<exists>rd. fst (fs_get demo_store ''t/c'' (snd (fs_put demo_store
      [blob_input_new ''t/c'' \<lparr>rd_chunks = [[9], [], [8, 7]], rd_end = Eof\<rparr>] demo_fs))) = Ok rd \<and>
    read_all rd = Ok [9, 8, 7]"
proof -
  let ?b = "blob_input_new ''t/c'' \<lparr>rd_chunks = [[9], [], [8, 7]], rd_end = Eof\<rparr>"
  let ?w1 = "snd (fs_put demo_store [?b] demo_fs)"
  have u: "\<forall>b \<in> set [?b]. utf8 (bi_key b)" by code_simp
  have "fst (fs_put demo_store [?b] demo_fs) =
      Ok \<lparr>pr_blobs = [\<lparr>bm_key = ''t/c'', stored_size = 3, modified_at = 7, etag = None\<rparr>]\<rparr>"
    by code_simp
  then have p: "fs_put demo_store [?b] demo_fs =
      (Ok \<lparr>pr_blobs = [\<lparr>bm_key = ''t/c'', stored_size = 3, modified_at = 7, etag = None\<rparr>]\<rparr>, ?w1)"
    by (metis prod.collapse)
  have k: "bi_key ?b = ''t/c''" "rd_bytes (bi_data ?b) = [9, 8, 7]"
    by (simp_all add: blob_input_new_def rd_bytes_def)
  show ?thesis
    using fs_put_get [OF demo_inv u p, of "[]" ?b "[]", OF _ _ surjective_pairing] by (simp add: k)
qed

text \<open>
  C5: \<open>put\<close> of one blob succeeds when the key is valid, its stream ends, and nothing is in the way:
  no file where a directory is needed, no directory at the key. The reported size is the number of
  bytes of the stream, as a 64-bit value.
\<close>
theorem fs_put_succeeds:
  assumes "fs_inv self w" "valid_key (bi_key b)" "rd_end (bi_data b) = Eof" "room_for self w (bi_key b)"
  shows "\<exists>m w'. fs_put self [b] w = (Ok \<lparr>pr_blobs = [m]\<rparr>, w') \<and>
    stored_size m = of_nat (length (rd_bytes (bi_data b)))"
  using fs_put_single_succeeds [OF assms] by (simp add: len64_def)

theorem fs_put_succeeds_witness:
  "\<exists>m w'. fs_put demo_store [blob_input_new ''a'' (reader_of [4, 5, 6])] demo_fs =
     (Ok \<lparr>pr_blobs = [m]\<rparr>, w') \<and> stored_size m = 3"
proof -
  let ?b = "blob_input_new ''a'' (reader_of [4, 5, 6])"
  have k: "bi_key ?b = ''a''" "bi_data ?b = reader_of [4, 5, 6]" by (simp_all add: blob_input_new_def)
  have v: "valid_key (bi_key ?b)" "rd_end (bi_data ?b) = Eof" by code_simp+
  have p: "key_place demo_store ''a'' = [''d'', ''a'']" by code_simp
  have "room_for demo_store demo_fs (bi_key ?b)"
    unfolding room_for_def k p
    by (auto simp: demo_fs_def node_at_def is_file_def append_eq_Cons_conv Cons_eq_append_conv)
  from fs_put_succeeds [OF demo_inv v this] show ?thesis by (simp add: k)
qed

text \<open>
  C6: a batch with an invalid key is rejected as a whole: \<open>put\<close> and \<open>delete\<close> return \<open>InvalidInput\<close>
  before anything is touched, and so do \<open>get\<close> and \<open>exists\<close>.
\<close>
theorem fs_invalid_rejected:
  assumes "fs_inv self w" "\<not> valid_key k"
  shows "(\<forall>bs. k \<in> bi_key ` set bs \<longrightarrow> (\<exists>m. fs_put self bs w = (Err (InvalidInput m), w))) \<and>
    (\<forall>ks. k \<in> set ks \<longrightarrow> (\<exists>m. fs_delete self ks w = (Err (InvalidInput m), w))) \<and>
    (\<exists>m. fs_get self k w = (Err (InvalidInput m), w)) \<and>
    (\<exists>m. fs_exists self k w = (Err (InvalidInput m), w))"
proof (intro conjI allI impI)
  fix bs :: "blob_input list" assume "k \<in> bi_key ` set bs"
  then obtain b where "b \<in> set bs" "\<not> valid_key (bi_key b)" using assms(2) by auto
  then show "\<exists>m. fs_put self bs w = (Err (InvalidInput m), w)" by (rule fs_put_invalid)
next
  fix ks assume "k \<in> set ks"
  then show "\<exists>m. fs_delete self ks w = (Err (InvalidInput m), w)"
    by (rule fs_delete_invalid [OF _ assms(2)])
qed (use fs_get_invalid [OF assms] fs_exists_invalid [OF assms] in blast)+

theorem fs_invalid_rejected_witness:
  "snd (fs_delete demo_store [''a'', ''../a''] demo_fs) = demo_fs"
proof -
  have "\<not> valid_key ''../a''" by code_simp
  from fs_invalid_rejected [OF demo_inv this] show ?thesis by (metis list.set_intros snd_conv)
qed

text \<open>
  C7: \<open>get\<close>, \<open>exists\<close> and \<open>get_with_metadata\<close> agree with the store's contents and change nothing:
  a stored key is returned in full with its size, a key that is not stored does not exist, and a
  stream that \<open>get\<close> hands out and that can be read to its end is the stored contents.
\<close>
theorem fs_reads_agree:
  assumes "fs_inv self w" "valid_key k"
  shows "fs_exists self k w = (Ok (fs_blobs self w k \<noteq> None), w) \<and>
    snd (fs_get self k w) = w \<and>
    (\<forall>d. (\<exists>rd. fst (fs_get self k w) = Ok rd \<and> read_all rd = Ok d) \<longleftrightarrow> fs_blobs self w k = Some d) \<and>
    (\<forall>d. fs_blobs self w k = Some d \<longrightarrow> (\<exists>m rd. fs_get_with_metadata self k w = (Ok (m, rd), w) \<and>
       bm_key m = k \<and> stored_size m = len64 d \<and> read_all rd = Ok d))"
  using fs_exists_eq [OF assms] fs_get_eq [OF assms] fs_gwm_found [OF assms(1) _ assms(2)]
  by (auto simp: fs_blobs_Some failing_reader_def read_all_def [of "\<lparr>rd_chunks = [], rd_end = Fails _\<rparr>"]
      split: option.splits node.splits)

theorem fs_reads_agree_witness:
  "fs_exists demo_store ''s/b'' demo_fs = (Ok True, demo_fs) \<and>
   (\<exists>rd. fst (fs_get demo_store ''s/b'' demo_fs) = Ok rd \<and> read_all rd = Ok [3])"
proof -
  have v: "valid_key ''s/b''" by code_simp
  have "fs_blobs demo_store demo_fs ''s/b'' = Some [3]" by code_simp
  then show ?thesis using fs_reads_agree [OF demo_inv v] by simp
qed



text \<open>
  C9: \<open>list\<close> is exact. A successful listing is sorted, without duplicates, and holds exactly the
  stored keys that the filter matches, for every filter whose hint is sound and free of empty
  components; it changes nothing, whatever its outcome.
\<close>
theorem fs_list_exact:
  assumes "fs_inv self w" "fs_filter_ok f" "fs_list fuel self f w = (r, w')"
  shows "w' = w \<and> (\<forall>ks. r = Ok ks \<longrightarrow>
    sorted ks \<and> distinct ks \<and> set ks = {k \<in> dom (fs_blobs self w). matches f k None})"
  by (rule fs_list_effect [OF assms])

theorem fs_list_exact_witness:
  "fs_list 5 demo_store (prefix_filter ''s/'') demo_fs = (Ok [''s/b''], demo_fs) \<and>
   {k \<in> dom (fs_blobs demo_store demo_fs). starts_with k ''s/''} = {''s/b''}"
proof -
  have f: "fs_filter_ok (prefix_filter ''s/'')"
    by (simp add: fs_filter_ok_def hint_clean_def hint_dir_def KEY_SEPARATOR_def good_component_def)
  have l: "fst (fs_list 5 demo_store (prefix_filter ''s/'') demo_fs) = Ok [''s/b'']" by code_simp
  obtain r w' where e: "fs_list 5 demo_store (prefix_filter ''s/'') demo_fs = (r, w')"
    by (metis surj_pair)
  have "r = Ok [''s/b'']" using l e by simp
  then show ?thesis using fs_list_exact [OF demo_inv f e] e by auto
qed

text \<open>
  C10: the breadth-first walk ends and the listing succeeds. For a filter without a hint, or whose
  hint names an existing directory, fuel for one round per node of the tree and one for the root is
  enough, and the result is the sorted list of the matching keys.
\<close>
theorem fs_list_terminates:
  assumes "fs_inv self w" "fs_filter_ok f" "hint_ready self f w" "length (fs_nodes w) + 1 \<le> fuel"
  shows "\<exists>ks. fs_list fuel self f w = (Ok ks, w) \<and> sorted ks \<and> distinct ks \<and>
    set ks = {k \<in> dom (fs_blobs self w). matches f k None}"
proof -
  obtain ks where "fs_list fuel self f w = (Ok ks, w)" using fs_list_succeeds [OF assms] by blast
  then show ?thesis using fs_list_effect [OF assms(1,2)] by blast
qed

theorem fs_list_terminates_witness:
  "\<exists>ks. fs_list 5 demo_store (suffix_filter ''b'') demo_fs = (Ok ks, demo_fs) \<and> sorted ks \<and> distinct ks \<and>
    set ks = {k \<in> dom (fs_blobs demo_store demo_fs). ends_with k ''b''}"
proof -
  have f: "fs_filter_ok (suffix_filter ''b'')"
    by (simp add: fs_filter_ok_def hint_clean_def hint_dir_def)
  have h: "hint_ready demo_store (suffix_filter ''b'') demo_fs" by (rule hint_ready_none [OF demo_inv]) simp
  have "length (fs_nodes demo_fs) + 1 \<le> 5" by (simp add: demo_fs_def)
  from fs_list_terminates [OF demo_inv f h this] show ?thesis by simp
qed

text \<open>A visitor that collects what it is given.\<close>

definition collecting :: "('w, (key \<times> blob_meta option) list) visitor" where
  "collecting key meta = (\<lambda>(w, seen). (Ok True, (w, seen @ [(key, meta)])))"

lemma collecting_act_ok:
  assumes "fs_inv self w0"
  shows "act_ok self f (visit_entry self collecting)
    (\<lambda>vs w v. (map fst v = vs \<and> distinct vs \<and> (\<forall>(k, m) \<in> set v. matches f k None \<and>
        (\<exists>b meta. m = Some meta \<and> fs_blobs self w0 k = Some b \<and> bm_key meta = k \<and>
           stored_size meta = len64 b))) \<and> w = w0)
    (\<lambda>_ _ _. False)"
proof (rule loop_okI)
  fix vs w v k p x w' v'
  assume J: "(map fst v = vs \<and> distinct vs \<and> (\<forall>(k, m) \<in> set v. matches f k None \<and>
        (\<exists>b meta. m = Some meta \<and> fs_blobs self w0 k = Some b \<and> bm_key meta = k \<and>
           stored_size meta = len64 b))) \<and> w = w0"
    and k: "k \<notin> set vs" "fs_blobs self w k \<noteq> None" "matches f k None" "path_of self k p"
    and e: "visit_entry self collecting p k (w, v) = (x, w', v')"
  obtain b where b: "fs_blobs self w k = Some b" using k(2) by auto
  obtain m where m: "entry_meta self p k w = (Ok m, w)" "bm_key m = k" "stored_size m = len64 b"
    using entry_meta_found [OF _ k(4) b] assms J by blast
  have out: "x = Ok True" "w' = w" "v' = v @ [(k, Some m)]"
    using e m(1) by (simp_all add: visit_entry_def collecting_def)
  show "x \<noteq> Ok True \<Longrightarrow> False" using out by simp
  show "(map fst v' = vs @ [k] \<and> distinct (vs @ [k]) \<and> (\<forall>(k, m) \<in> set v'. matches f k None \<and>
        (\<exists>b meta. m = Some meta \<and> fs_blobs self w0 k = Some b \<and> bm_key meta = k \<and>
           stored_size meta = len64 b))) \<and> w' = w0"
    using J k m b out by auto
qed (use assms in simp)

text \<open>
  C11: \<open>visit\<close> hands every matching blob to the visitor exactly once, with its metadata, and
  agrees with \<open>list\<close>: a visitor that collects what it is given ends up with the listing, in the
  order of the walk, each key with the size of its contents.
\<close>
theorem fs_visit_once:
  assumes "fs_inv self w" "fs_filter_ok f" "fs_visit fuel self f collecting (w, []) = (Ok (), (w', seen))"
  shows "w' = w \<and> distinct (map fst seen) \<and>
    set (map fst seen) = {k \<in> dom (fs_blobs self w). matches f k None} \<and>
    (\<forall>(k, m) \<in> set seen. \<exists>b meta. m = Some meta \<and> fs_blobs self w k = Some b \<and> bm_key meta = k \<and>
       stored_size meta = len64 b) \<and>
    (\<forall>ks w''. fs_list fuel self f w = (Ok ks, w'') \<longrightarrow> sort (map fst seen) = ks)"
proof -
  have t: "walk_tree fuel self f (visit_entry self collecting) (w, []) = (Ok (), (w', seen))"
    using assms(3) by (simp add: fs_visit_def)
  have le: "w' = w \<and> (Ok () = (Ok () :: unit res) \<longrightarrow> (\<exists>vs. (map fst seen = vs \<and> distinct vs \<and>
        (\<forall>(k, m) \<in> set seen. matches f k None \<and>
        (\<exists>b meta. m = Some meta \<and> fs_blobs self w k = Some b \<and> bm_key meta = k \<and>
           stored_size meta = len64 b))) \<and>
      (\<forall>k \<in> dom (fs_blobs self w). matches f k None \<longrightarrow> k \<in> set vs)))"
    by (rule loop_end_const [OF walk_tree_run [OF collecting_act_ok [OF assms(1), of f] assms(2) _ t]]) simp
  then have d: "distinct (map fst seen)"
      and m: "\<forall>(k, m) \<in> set seen. matches f k None \<and> (\<exists>b meta. m = Some meta \<and>
        fs_blobs self w k = Some b \<and> bm_key meta = k \<and> stored_size meta = len64 b)"
      and c: "\<forall>k \<in> dom (fs_blobs self w). matches f k None \<longrightarrow> k \<in> set (map fst seen)"
    by simp_all
  have "k \<in> dom (fs_blobs self w) \<and> matches f k None" if "k \<in> set (map fst seen)" for k
    using m that by auto
  then have s: "set (map fst seen) = {k \<in> dom (fs_blobs self w). matches f k None}" using c by blast
  have "sort (map fst seen) = ks" if "fs_list fuel self f w = (Ok ks, w'')" for ks w''
  proof -
    have "sorted ks" "distinct ks" "set ks = set (map fst seen)"
      using fs_list_effect [OF assms(1,2) that] s by auto
    then show ?thesis using d by (metis distinct_sort set_sort sorted_distinct_set_unique sorted_sort)
  qed
  moreover have "w' = w" using le by simp
  moreover have "\<forall>(k, m) \<in> set seen. \<exists>b meta. m = Some meta \<and> fs_blobs self w k = Some b \<and>
      bm_key meta = k \<and> stored_size meta = len64 b"
    using m by auto
  ultimately show ?thesis using s d by simp
qed

theorem fs_visit_once_witness:
  "\<exists>seen. fst (snd (fs_visit 5 demo_store (suffix_filter []) collecting (demo_fs, []))) = demo_fs \<and>
    distinct (map fst (snd (snd (fs_visit 5 demo_store (suffix_filter []) collecting (demo_fs, [])))))"
proof -
  have f: "fs_filter_ok (suffix_filter [])"
    by (simp add: fs_filter_ok_def hint_clean_def hint_dir_def)
  have "fst (fs_visit 5 demo_store (suffix_filter []) collecting (demo_fs, [])) = Ok ()" by code_simp
  then obtain w' seen where e:
      "fs_visit 5 demo_store (suffix_filter []) collecting (demo_fs, []) = (Ok (), (w', seen))"
    by (metis prod.collapse)
  show ?thesis using fs_visit_once [OF demo_inv f e] e by simp
qed

text \<open>
  C12: \<open>FsBlobStore::new\<close> leaves a usable backend: on a sound tree, with an absolute root whose
  components are ordinary names, a successful construction establishes the invariant, with the root
  directory in place and every file that was there before.
\<close>
theorem fs_new_establishes:
  assumes "fs_wf w" "fault_free w" "is_absolute r" "list_all name_ok (path_comps r)"
    and "\<forall>rel. rel \<noteq> [] \<longrightarrow> is_file w (path_comps r @ rel) \<longrightarrow> utf8 (join_with KEY_SEPARATOR rel)"
    and "fs_new ts r w = (Ok self, w')"
  shows "fs_inv self w' \<and> fs_blobs self w' = fs_blobs self w \<and> ends_with (fbs_root self) ''/'' \<and>
    path_comps (fbs_root self) = path_comps r"
  using fs_new_effect [OF assms(1-4) _ assms(6)] assms(5) normalise_root_ok [OF assms(3,4)]
  by (auto simp: root_ok_def KEY_SEPARATOR_def)

theorem fs_new_establishes_witness:
  "fs_inv \<lparr>fbs_root = ''/d/x/'', fbs_from_timestamp = (\<lambda>s n. None)\<rparr> (snd (fs_new (\<lambda>s n. None) ''/d/x'' demo_fs))"
proof -
  let ?self = "\<lparr>fbs_root = ''/d/x/'', fbs_from_timestamp = (\<lambda>s n. None)\<rparr>"
  have c: "path_comps ''/d/x'' = [''d'', ''x'']" by code_simp
  have w: "fs_wf demo_fs" "fault_free demo_fs" using fs_invD [OF demo_inv] by auto
  have a: "is_absolute ''/d/x''" "list_all name_ok (path_comps ''/d/x'')" by code_simp+
  have u: "\<forall>rel. rel \<noteq> [] \<longrightarrow> is_file demo_fs (path_comps ''/d/x'' @ rel) \<longrightarrow> utf8 (join_with KEY_SEPARATOR rel)"
    unfolding c by (auto simp: demo_fs_def is_file_def node_at_def)
  obtain self w' where n: "fs_new (\<lambda>s n. None) ''/d/x'' demo_fs = (Ok self, w')"
  proof -
    have "(case fst (fs_new (\<lambda>s n. None) ''/d/x'' demo_fs) of Ok s \<Rightarrow> True | _ \<Rightarrow> False)" by code_simp
    then show thesis using that by (cases "fs_new (\<lambda>s n. None) ''/d/x'' demo_fs") (auto split: result.splits)
  qed
  have "normalise_root ''/d/x'' = ''/d/x/''" by code_simp
  then have "self = ?self"
    using n by (auto simp: fs_new_def Let_def elim!: io_bind_OkE)
  then show ?thesis using fs_new_establishes [OF w a u n] n by simp
qed

section \<open>The prefix layer\<close>

text \<open>
  C13: isolation. Whatever a store with prefix \<open>p\<close> over the filesystem backend is asked to put or
  delete, and however the call ends, the blobs whose keys do not start with \<open>p\<close> are untouched.
\<close>
theorem prefix_isolation:
  assumes "fs_inv self w" "\<not> starts_with k p"
  shows "(\<forall>bs r w'. (\<forall>b \<in> set bs. utf8 (p @ bi_key b)) \<longrightarrow>
      bs_put (prefix_store (fs_store fuel self) p) bs w = (r, w') \<longrightarrow> fs_blobs self w' k = fs_blobs self w k) \<and>
    (\<forall>ks r w'. bs_delete (prefix_store (fs_store fuel self) p) ks w = (r, w') \<longrightarrow>
      fs_blobs self w' k = fs_blobs self w k)"
proof (intro conjI allI impI)
  fix bs r w'
  assume "\<forall>b \<in> set bs. utf8 (p @ bi_key b)" "bs_put (prefix_store (fs_store fuel self) p) bs w = (r, w')"
  then show "fs_blobs self w' k = fs_blobs self w k"
    using pfs.outside_put [OF assms(1) _ _ assms(2)] by simp
next
  fix ks r w'
  assume "bs_delete (prefix_store (fs_store fuel self) p) ks w = (r, w')"
  then show "fs_blobs self w' k = fs_blobs self w k"
    using pfs.outside_delete [OF assms(1) _ assms(2)] by simp
qed

theorem prefix_isolation_witness:
  "fs_blobs demo_store (snd (bs_delete (prefix_store (fs_store 5 demo_store) ''s/'') [''b''] demo_fs)) ''a'' =
   fs_blobs demo_store demo_fs ''a''"
proof -
  have "\<not> starts_with ''a'' ''s/''" by code_simp
  from prefix_isolation [OF demo_inv this] show ?thesis by (metis surj_pair snd_conv)
qed

text \<open>
  C14: the prefix layer over the filesystem backend is the backend restricted to the prefix: a
  successful listing holds exactly the keys \<open>k\<close> for which \<open>p @ k\<close> is stored and the filter matches
  \<open>k\<close>, sorted; and what was put through the layer is read back through it and lies at \<open>p @ k\<close>.
\<close>
theorem prefix_store_refines:
  assumes "fs_inv self w" "prefix_filter_ok p fs_filter_ok f"
  shows "(\<forall>ks w'. bs_list (prefix_store (fs_store fuel self :: ('z fsys_scheme, 'v) blob_store) p) f w = (Ok ks, w') \<longrightarrow>
      sorted ks \<and> distinct ks \<and> set ks = {k. fs_blobs self w (p @ k) \<noteq> None \<and> matches f k None}) \<and>
    (\<forall>b res w1. utf8 (p @ bi_key b) \<longrightarrow> bs_put (prefix_store (fs_store fuel self :: ('z fsys_scheme, 'v) blob_store) p) [b] w = (Ok res, w1) \<longrightarrow>
      map bm_key (pr_blobs res) = [bi_key b] \<and>
      fs_blobs self w1 = (fs_blobs self w)(p @ bi_key b \<mapsto> rd_bytes (bi_data b)) \<and>
      (\<exists>rd. fst (bs_get (prefix_store (fs_store fuel self :: ('z fsys_scheme, 'v) blob_store) p) (bi_key b) w1) = Ok rd \<and>
         read_all rd = Ok (rd_bytes (bi_data b))))"
proof (intro conjI allI impI)
  fix ks w' assume l: "bs_list (prefix_store (fs_store fuel self :: ('z fsys_scheme, 'v) blob_store) p) f w = (Ok ks, w')"
  from pfs.pre.list_done [OF assms l] show "sorted ks" "distinct ks"
    "set ks = {k. fs_blobs self w (p @ k) \<noteq> None \<and> matches f k None}"
    by (auto simp: prefix_blobs_fun)
next
  fix b res w1
  assume u: "utf8 (p @ bi_key b)" and put: "bs_put (prefix_store (fs_store fuel self :: ('z fsys_scheme, 'v) blob_store) p) [b] w = (Ok res, w1)"
  have u': "\<forall>b \<in> set [b]. utf8 (p @ bi_key b)" using u by simp
  note d = pfs.pre.put_done [OF assms(1) u' put]
  show "map bm_key (pr_blobs res) = [bi_key b]" using d by simp
  have ok: "prefix_ok p valid_key (bi_key b)"
  proof (rule ccontr)
    assume "\<not> prefix_ok p valid_key (bi_key b)"
    have "\<exists>m. bs_put (prefix_store (fs_store fuel self :: ('z fsys_scheme, 'v) blob_store) p) [b] w = (Err (InvalidInput m), w)"
      by (rule pfs.pre.put_invalid [OF _ \<open>\<not> prefix_ok p valid_key (bi_key b)\<close>]) simp
    then show False using put by auto
  qed
  have at: "fs_blobs self w1 (p @ bi_key b) = Some (rd_bytes (bi_data b))"
    using d by (simp add: prefix_blobs_fun fun_eq_iff)
  show "fs_blobs self w1 = (fs_blobs self w)(p @ bi_key b \<mapsto> rd_bytes (bi_data b))"
  proof
    fix k show "fs_blobs self w1 k = ((fs_blobs self w)(p @ bi_key b \<mapsto> rd_bytes (bi_data b))) k"
    proof (cases "starts_with k p")
      case True
      then obtain j where "k = p @ j" by (auto simp: starts_with_iff)
      then show ?thesis using d by (auto simp: prefix_blobs_fun fun_eq_iff)
    next
      case False
      then have "k \<noteq> p @ bi_key b" by auto
      then show ?thesis using pfs.outside_put [OF assms(1) u' _ False] put by simp
    qed
  qed
  obtain gr w2 where g: "bs_get (prefix_store (fs_store fuel self :: ('z fsys_scheme, 'v) blob_store) p) (bi_key b) w1 = (gr, w2)"
    by (metis surj_pair)
  show "\<exists>rd. fst (bs_get (prefix_store (fs_store fuel self :: ('z fsys_scheme, 'v) blob_store) p) (bi_key b) w1) = Ok rd \<and>
      read_all rd = Ok (rd_bytes (bi_data b))"
    using pfs.pre.get_found [OF _ ok _ g] d at g by (simp add: prefix_blobs_fun)
qed

theorem prefix_store_refines_witness:
  "bs_list (prefix_store (fs_store 5 demo_store :: (fsys, unit) blob_store) ''s/'') (suffix_filter []) demo_fs =
     (Ok [''b''], demo_fs) \<and>
   {k. fs_blobs demo_store demo_fs (''s/'' @ k) \<noteq> None} = {''b''}"
proof -
  let ?st = "fs_store 5 demo_store :: (fsys, unit) blob_store"
  let ?self = "\<lparr>pbs_inner = ?st, pbs_prefix = ''s/''\<rparr>"
  have f: "prefix_filter_ok ''s/'' fs_filter_ok (suffix_filter [])"
    by (simp add: prefix_filter_ok_def fs_filter_ok_def combined_sound hint_clean_def hint_dir_def
        combined_matches combined_full_eq KEY_SEPARATOR_def good_component_def)
  have r: "fst (prefix_list ?self (suffix_filter []) demo_fs) = Ok [''b'']" by code_simp
  have "read_only (prefix_list ?self (suffix_filter []))"
    unfolding prefix_list_def by (intro read_only_intros) (simp add: fs_list_read_only)
  then have "snd (prefix_list ?self (suffix_filter []) demo_fs) = demo_fs" by (simp add: read_only_def)
  then have l: "bs_list (prefix_store ?st ''s/'') (suffix_filter []) demo_fs = (Ok [''b''], demo_fs)"
    using r by (simp add: prod_eq_iff)
  from prefix_store_refines [OF demo_inv f, THEN conjunct1, rule_format, OF l] l show ?thesis by auto
qed

end
