(* ===== verification/Encrypt.thy ===== *)
theory Encrypt
  imports Blob_Store
begin

text \<open>
  The encryption layer: \<open>encrypt/store.rs\<close>, \<open>encrypt/visitors.rs\<close>, \<open>encrypt/rekey.rs\<close>, and the
  provider interface of \<open>xtax-encryption\<close>. A blob \<open>k\<close> becomes two blobs of the inner store, the
  ciphertext at \<open>k\<close> and the header at \<open>k\<close> followed by a reserved suffix.

  The provider is not part of the repository: \<open>encryption_provider\<close> is the record of its three methods
  as computations on the world. The layer runs \<open>encrypt_stream\<close> and \<open>decrypt_stream\<close> in spawned tasks
  that are connected to it by a pipe. What it can observe of such a task is the stream that came out
  of the pipe and how, and when, the task ended; that is what the model's methods return.
\<close>

section \<open>The provider\<close>

datatype task_result = TaskOk bytes | TaskErr "dyn_error encryption_error" | TaskPanicked string

text \<open>
  How the encryption task ended, as seen from the moment the ciphertext has been stored: after some
  time (in milliseconds), or not at all.
\<close>

datatype task_end = Completes nat task_result | Pending

datatype decrypt_end = DecryptOk | DecryptErr "dyn_error encryption_error" | DecryptPanicked | DecryptPending

text \<open>
  A run of the decryption task: what it wrote into the pipe, how it ended, and whether it shut the
  pipe down before it ended, so that the reader can see the end of the stream first.
\<close>

record decrypt_run =
  dr_chunks :: "bytes list"
  dr_end :: decrypt_end
  dr_closed_early :: bool

record 'w encryption_provider =
  ep_encrypt_stream :: "reader \<Rightarrow> 'w \<Rightarrow> (reader \<times> task_end) \<times> 'w"
  ep_decrypt_stream :: "reader \<Rightarrow> bytes \<Rightarrow> 'w \<Rightarrow> decrypt_run \<times> 'w"
  ep_rekey_header :: "bytes \<Rightarrow> ('w, bytes option, dyn_error encryption_error) comp"

text \<open>\<open>NoopEncryption\<close>, the provider of the documentation of \<open>encrypt.rs\<close>.\<close>

definition noop_encryption :: "'w encryption_provider" where
  "noop_encryption =
     \<lparr>ep_encrypt_stream = (\<lambda>input w.
        (case read_all input of
           Ok buf \<Rightarrow> ((reader_of buf, Completes 0 (TaskOk [])), w)
         | Err e \<Rightarrow> ((reader_of [], Completes 0 (TaskPanicked (io_error_text e))), w)
         | Hang \<Rightarrow> ((\<lparr>rd_chunks = [], rd_end = Stalls\<rparr>, Pending), w))),
      ep_decrypt_stream = (\<lambda>input header w.
        (case read_all input of
           Ok buf \<Rightarrow> (\<lparr>dr_chunks = [buf], dr_end = DecryptOk, dr_closed_early = False\<rparr>, w)
         | Err e \<Rightarrow> (\<lparr>dr_chunks = [], dr_end = DecryptPanicked, dr_closed_early = False\<rparr>, w)
         | Hang \<Rightarrow> (\<lparr>dr_chunks = [], dr_end = DecryptPending, dr_closed_early = False\<rparr>, w))),
      ep_rekey_header = (\<lambda>header. io_ret None)\<rparr>"

section \<open>The error-aware reader\<close>

text \<open>
  \<open>ErrorAwareReader\<close>: the pipe and the slot that the decryption task may have filled. \<open>poll_read\<close> is
  one poll with room for \<open>cap\<close> bytes; an empty read takes the error out of the slot.
\<close>

record error_aware_reader =
  ear_inner :: reader
  ear_decryption_error :: "blob_storage_error option"

definition poll_read ::
  "nat \<Rightarrow> error_aware_reader \<Rightarrow> (bytes, io_error) result \<times> error_aware_reader"
where
  "poll_read cap self =
     (case read_buf cap (ear_inner self) of
        (Ok x, inner') \<Rightarrow>
          (if x = [] then
             (case ear_decryption_error self of
                Some err \<Rightarrow> (Err (IoError KOther (display_error err)),
                             self\<lparr>ear_inner := inner', ear_decryption_error := None\<rparr>)
              | None \<Rightarrow> (Ok x, self\<lparr>ear_inner := inner'\<rparr>))
           else (Ok x, self\<lparr>ear_inner := inner'\<rparr>))
      | (Err e, inner') \<Rightarrow> (Err e, self\<lparr>ear_inner := inner'\<rparr>)
      | (Hang, inner') \<Rightarrow> (Hang, self\<lparr>ear_inner := inner'\<rparr>))"

text \<open>What reading it to the end delivers, as a reader.\<close>

definition aware_reader :: "error_aware_reader \<Rightarrow> reader" where
  "aware_reader self =
     \<lparr>rd_chunks = rd_chunks (ear_inner self),
      rd_end = (case (rd_end (ear_inner self), ear_decryption_error self) of
          (Eof, Some err) \<Rightarrow> Fails (IoError KOther (display_error err))
        | (e, _) \<Rightarrow> e)\<rparr>"

text \<open>
  The pipe and the slot after a run. The slot is filled before the task drops its end of the pipe,
  so the reader finds it at the end of the stream unless the pipe was shut down early.
\<close>

definition decryption_failed :: "key \<Rightarrow> dyn_error encryption_error \<Rightarrow> blob_storage_error" where
  "decryption_failed key e =
     Encryption (''decryption failed for key '' @ squoted key) (Some (DynEncryption e))"

definition reader_of_run :: "key \<Rightarrow> decrypt_run \<Rightarrow> error_aware_reader" where
  "reader_of_run key run =
     \<lparr>ear_inner = \<lparr>rd_chunks = dr_chunks run,
        rd_end = (if dr_end run = DecryptPending \<and> \<not> dr_closed_early run then Stalls else Eof)\<rparr>,
      ear_decryption_error =
        (case dr_end run of
           DecryptErr e \<Rightarrow> if dr_closed_early run then None else Some (decryption_failed key e)
         | _ \<Rightarrow> None)\<rparr>"

section \<open>The layer\<close>

record ('w, 'v) encrypted_blob_store =
  ebs_inner :: "('w, 'v) blob_store"
  ebs_encryption :: "'w encryption_provider"
  ebs_header_suffix :: string
  ebs_header_completion_timeout :: nat

definition DEFAULT_HEADER_COMPLETION_TIMEOUT :: nat where
  "DEFAULT_HEADER_COMPLETION_TIMEOUT = 30000"

definition DEFAULT_HEADER_SUFFIX :: string where
  "DEFAULT_HEADER_SUFFIX = ''.enc-header''"

definition encrypted_new ::
  "('w, 'v) blob_store \<Rightarrow> 'w encryption_provider \<Rightarrow> ('w, 'v) encrypted_blob_store"
where
  "encrypted_new inner encryption =
     \<lparr>ebs_inner = inner, ebs_encryption = encryption, ebs_header_suffix = DEFAULT_HEADER_SUFFIX,
      ebs_header_completion_timeout = DEFAULT_HEADER_COMPLETION_TIMEOUT\<rparr>"

definition encrypted_with_suffix ::
  "('w, 'v) blob_store \<Rightarrow> 'w encryption_provider \<Rightarrow> string \<Rightarrow> ('w, 'v) encrypted_blob_store"
where
  "encrypted_with_suffix inner encryption header_suffix =
     \<lparr>ebs_inner = inner, ebs_encryption = encryption, ebs_header_suffix = header_suffix,
      ebs_header_completion_timeout = DEFAULT_HEADER_COMPLETION_TIMEOUT\<rparr>"

definition with_header_completion_timeout ::
  "nat \<Rightarrow> ('w, 'v) encrypted_blob_store \<Rightarrow> ('w, 'v) encrypted_blob_store"
where
  "with_header_completion_timeout timeout self = self\<lparr>ebs_header_completion_timeout := timeout\<rparr>"

definition header_key :: "('w, 'v) encrypted_blob_store \<Rightarrow> key \<Rightarrow> key" where
  "header_key self key = key @ ebs_header_suffix self"

definition validate_key_no_header_collision ::
  "('w, 'v) encrypted_blob_store \<Rightarrow> key \<Rightarrow> unit res"
where
  "validate_key_no_header_collision self key =
     (if ends_with key (ebs_header_suffix self) then
        Err (InvalidInput (''blob key must not end with reserved header suffix '' @
          squoted (ebs_header_suffix self) @ '': '' @ squoted key))
      else Ok ())"

text \<open>The caller's view of \<open>NotFound\<close>: always the data key.\<close>

definition not_found_as :: "key \<Rightarrow> blob_storage_error \<Rightarrow> blob_storage_error" where
  "not_found_as key e = (case e of NotFound _ \<Rightarrow> NotFound key | other \<Rightarrow> other)"

definition enc_decrypt_stream ::
  "('w, 'v) encrypted_blob_store \<Rightarrow> key \<Rightarrow> reader \<Rightarrow> ('w, reader) io"
where
  "enc_decrypt_stream self key enc_data =
     io_bind (io_map_err (not_found_as key) (bs_get (ebs_inner self) (header_key self key)))
       (\<lambda>header_data.
     io_bind (io_q (io_lift (read_all header_data))) (\<lambda>header_buf w.
       (case ep_decrypt_stream (ebs_encryption self) enc_data header_buf w of
          (run, w') \<Rightarrow> (Ok (aware_reader (reader_of_run key run)), w'))))"

section \<open>Put\<close>

definition enc_validate :: "('w, 'v) encrypted_blob_store \<Rightarrow> blob_input \<Rightarrow> unit res" where
  "enc_validate self blob =
     res_bind (validate_blob_key (bi_key blob)) (\<lambda>_.
     res_bind (validate_key_no_header_collision self (bi_key blob)) (\<lambda>_.
     validate_blob_key (header_key self (bi_key blob))))"

text \<open>The \<open>timeout\<close> around the task's handle and the two layers of results it returns.\<close>

definition encryption_result ::
  "('w, 'v) encrypted_blob_store \<Rightarrow> key \<Rightarrow> task_end \<Rightarrow> bytes res"
where
  "encryption_result self key t =
     (let timed_out = Err (Encryption (''timed out waiting for encryption header for key '' @
          squoted key) (Some DynElapsed)) in
      case t of
        Completes delay r \<Rightarrow>
          if ebs_header_completion_timeout self < delay then timed_out
          else (case r of
              TaskOk header \<Rightarrow> Ok header
            | TaskErr e \<Rightarrow> Err (Encryption (''encryption failed for key '' @ squoted key)
                (Some (DynEncryption e)))
            | TaskPanicked s \<Rightarrow> Err (Encryption (''encryption task failed for key '' @ squoted key)
                (Some (DynJoin s))))
      | Pending \<Rightarrow> timed_out)"

definition enc_rollback ::
  "('w, 'v) encrypted_blob_store \<Rightarrow> key \<Rightarrow> blob_storage_error \<Rightarrow> ('w, blob_meta list) io"
where
  "enc_rollback self key e =
     io_bind (io_ignore (bs_delete (ebs_inner self) [key])) (\<lambda>_. io_err e)"

definition enc_put_header ::
  "('w, 'v) encrypted_blob_store \<Rightarrow> key \<Rightarrow> put_result \<Rightarrow> bytes \<Rightarrow> ('w, blob_meta list) io"
where
  "enc_put_header self key result header_bytes =
     io_catch (bs_put (ebs_inner self)
         [blob_input_with_size (header_key self key) (reader_of header_bytes) (len64 header_bytes)])
       (\<lambda>_. io_ret (filter (\<lambda>b. \<not> ends_with (bm_key b) (ebs_header_suffix self)) (pr_blobs result)))
       (\<lambda>e. enc_rollback self key e)"

definition enc_put_one ::
  "('w, 'v) encrypted_blob_store \<Rightarrow> blob_input \<Rightarrow> ('w, blob_meta list) io"
where
  "enc_put_one self blob = (\<lambda>w.
     let key = bi_key blob in
     case ep_encrypt_stream (ebs_encryption self) (bi_data blob) w of
       ((rx, task), w1) \<Rightarrow>
         io_bind (bs_put (ebs_inner self)
             [blob_input_with_size key rx (case bi_size_hint blob of Some h \<Rightarrow> h | None \<Rightarrow> 0)])
           (\<lambda>result. case encryption_result self key task of
              Ok header_bytes \<Rightarrow> enc_put_header self key result header_bytes
            | Err enc_err \<Rightarrow> enc_rollback self key enc_err
            | Hang \<Rightarrow> io_lift Hang) w1)"

definition enc_put ::
  "('w, 'v) encrypted_blob_store \<Rightarrow> blob_input list \<Rightarrow> ('w, put_result) io"
where
  "enc_put self blobs =
     io_bind (io_lift (res_for (enc_validate self) blobs)) (\<lambda>_.
     io_bind (io_mapM (enc_put_one self) blobs) (\<lambda>metas.
     io_ret (put_result_multiple (concat metas))))"

section \<open>The other operations\<close>

definition enc_get :: "('w, 'v) encrypted_blob_store \<Rightarrow> key \<Rightarrow> ('w, reader) io" where
  "enc_get self key =
     io_bind (io_lift (validate_key_no_header_collision self key)) (\<lambda>_.
     io_bind (io_map_err (not_found_as key) (bs_get (ebs_inner self) key)) (\<lambda>enc_data.
     enc_decrypt_stream self key enc_data))"

definition enc_delete_error :: "key list \<Rightarrow> blob_storage_error \<Rightarrow> ('w, unit) io" where
  "enc_delete_error keys e =
     (case e of
        Batch batch \<Rightarrow>
          (let filtered_errors = filter (\<lambda>e. ke_key e \<in> set keys) (errors batch);
               filtered_succeeded = filter (\<lambda>s. s \<in> set keys) (succeeded batch) in
           if filtered_errors = [] then io_ret ()
           else io_err (Batch \<lparr>succeeded = filtered_succeeded, errors = filtered_errors\<rparr>))
      | other \<Rightarrow> io_err other)"

definition enc_delete :: "('w, 'v) encrypted_blob_store \<Rightarrow> key list \<Rightarrow> ('w, unit) io" where
  "enc_delete self keys =
     io_bind (io_lift (res_for (validate_key_no_header_collision self) keys)) (\<lambda>_.
     io_catch (bs_delete (ebs_inner self) (concat (map (\<lambda>k. [k, header_key self k]) keys)))
       io_ret (enc_delete_error keys))"

text \<open>The loop that drops data blobs without a header.\<close>

fun keep_complete :: "('w, 'v) encrypted_blob_store \<Rightarrow> key list \<Rightarrow> ('w, key list) io" where
  "keep_complete self [] = io_ret []"
| "keep_complete self (key # keys) =
     io_bind (bs_exists (ebs_inner self) (header_key self key)) (\<lambda>header_exists.
     io_bind (keep_complete self keys) (\<lambda>rest.
     io_ret (if header_exists then key # rest else rest)))"

definition enc_list :: "('w, 'v) encrypted_blob_store \<Rightarrow> list_filter \<Rightarrow> ('w, key list) io" where
  "enc_list self f =
     io_bind (bs_list (ebs_inner self) (suffix_filter [])) (\<lambda>all_keys.
     keep_complete self (filter (\<lambda>k. matches f k None)
       (filter (\<lambda>k. \<not> ends_with k (ebs_header_suffix self)) all_keys)))"

text \<open>\<open>EncryptVisitor::visit\<close>.\<close>

definition encrypt_visitor ::
  "('w, 'v) encrypted_blob_store \<Rightarrow> list_filter \<Rightarrow> ('w, 'v) visitor \<Rightarrow> ('w, 'v) visitor"
where
  "encrypt_visitor self f inner key meta =
     (if ends_with key (ebs_header_suffix self) then io_ret True
      else io_bind (io_fst (bs_exists (ebs_inner self) (key @ ebs_header_suffix self))) (\<lambda>ex.
        if \<not> ex then io_ret True
        else if \<not> matches f key meta then io_ret True
        else inner key meta))"

definition enc_visit ::
  "('w, 'v) encrypted_blob_store \<Rightarrow> list_filter \<Rightarrow> ('w, 'v) visitor \<Rightarrow> ('w \<times> 'v, unit) io"
where
  "enc_visit self f vis = bs_visit (ebs_inner self) (suffix_filter []) (encrypt_visitor self f vis)"

definition enc_exists :: "('w, 'v) encrypted_blob_store \<Rightarrow> key \<Rightarrow> ('w, bool) io" where
  "enc_exists self key =
     io_bind (io_lift (validate_key_no_header_collision self key)) (\<lambda>_.
     io_bind (bs_exists (ebs_inner self) key) (\<lambda>data_exists.
     if \<not> data_exists then io_ret False
     else bs_exists (ebs_inner self) (header_key self key)))"

definition enc_get_with_metadata ::
  "('w, 'v) encrypted_blob_store \<Rightarrow> key \<Rightarrow> ('w, blob_meta \<times> reader) io"
where
  "enc_get_with_metadata self key =
     io_bind (io_lift (validate_key_no_header_collision self key)) (\<lambda>_.
     io_bind (io_map_err (not_found_as key) (bs_get_with_metadata (ebs_inner self) key))
       (\<lambda>(inner_meta, reader).
     io_bind (enc_decrypt_stream self key reader) (\<lambda>decrypted.
     io_ret (\<lparr>bm_key = key, stored_size = stored_size inner_meta,
              modified_at = modified_at inner_meta, etag = etag inner_meta\<rparr>, decrypted))))"

definition enc_meta_of ::
  "('w, 'v) encrypted_blob_store \<Rightarrow> list_filter \<Rightarrow> key \<Rightarrow> ('w, blob_meta list) io"
where
  "enc_meta_of self f key =
     (if ends_with key (ebs_header_suffix self) then io_ret []
      else if \<not> matches f key None then io_ret []
      else io_bind (io_catch (bs_exists (ebs_inner self) (header_key self key)) io_ret
                     (\<lambda>e. io_ret False)) (\<lambda>header_exists.
        if \<not> header_exists then io_ret []
        else io_catch (bs_get_with_metadata (ebs_inner self) key)
          (\<lambda>(inner_meta, _). io_ret [\<lparr>bm_key = key, stored_size = stored_size inner_meta,
              modified_at = modified_at inner_meta, etag = etag inner_meta\<rparr>])
          (\<lambda>e. case e of NotFound _ \<Rightarrow> io_ret [] | _ \<Rightarrow> io_err e)))"

definition enc_list_with_metadata ::
  "('w, 'v) encrypted_blob_store \<Rightarrow> list_filter \<Rightarrow> ('w, blob_meta list) io"
where
  "enc_list_with_metadata self f =
     io_bind (bs_list (ebs_inner self) (suffix_filter [])) (\<lambda>all_keys.
     io_bind (io_mapM (enc_meta_of self f) all_keys) (\<lambda>metas.
     io_ret (sort_key bm_key (concat metas))))"

text \<open>\<open>impl BlobStore for EncryptedBlobStore\<close>.\<close>

definition enc_store :: "('w, 'v) encrypted_blob_store \<Rightarrow> ('w, 'v) blob_store" where
  "enc_store self =
     \<lparr>bs_put = enc_put self, bs_get = enc_get self, bs_delete = enc_delete self,
      bs_list = enc_list self, bs_exists = enc_exists self,
      bs_get_with_metadata = enc_get_with_metadata self,
      bs_visit = enc_visit self,
      bs_list_with_metadata = enc_list_with_metadata self\<rparr>"

section \<open>Re-keying\<close>

text \<open>\<open>RekeyVisitor::visit\<close>; its private state is the count.\<close>

definition rekey_visitor ::
  "('w, 'v) blob_store \<Rightarrow> 'w encryption_provider \<Rightarrow> ('w, u64) visitor"
where
  "rekey_visitor store encryption key meta =
     io_catch (io_fst (bs_get store key))
       (\<lambda>reader.
         io_bind (io_map_err (\<lambda>e. Storage (''failed to read header '' @ squoted key) (Some (DynIo e)))
             (io_lift (read_all reader))) (\<lambda>header_data.
         io_catch (io_fst (ep_rekey_header encryption header_data))
           (\<lambda>new. case new of
              Some new_header \<Rightarrow>
                io_catch (io_fst (bs_put store
                    [blob_input_with_size key (reader_of new_header) (len64 header_data)]))
                  (\<lambda>_ (w, rekeyed). (Ok True, (w, rekeyed + 1)))
                  (\<lambda>_. io_ret True)
            | None \<Rightarrow> io_ret True)
           (\<lambda>_. io_ret True)))
       (\<lambda>_. io_ret True)"

definition enc_rekey :: "('w, u64) encrypted_blob_store \<Rightarrow> ('w, rekey_result) io" where
  "enc_rekey self = (\<lambda>w.
     case bs_visit (ebs_inner self) (suffix_filter (ebs_header_suffix self))
            (rekey_visitor (ebs_inner self) (ebs_encryption self)) (w, 0) of
       (r, (w', count)) \<Rightarrow> (res_bind r (\<lambda>_. Ok \<lparr>rekeyed_count = count\<rparr>), w'))"

end
