(* ===== verification/Encrypt_Contract.thy ===== *)
theory Encrypt_Contract
  imports Encrypt
begin

text \<open>
  The encryption layer meets the contract of the store it wraps. \<open>opens ct h\<close> is what the provider's
  scheme makes of a ciphertext and a header; the locale's hypotheses say what the documentation of
  \<open>EncryptionProvider\<close> asks of an implementation: a header that was returned opens what was written
  to the output, decryption succeeds exactly on what opens, and a failed decryption is reported.
\<close>

section \<open>Reading the error-aware reader\<close>

text \<open>Reading in a loop with a buffer of \<open>cap\<close> bytes, as \<open>tokio::io::copy\<close> does.\<close>

fun drain :: "nat \<Rightarrow> nat \<Rightarrow> error_aware_reader \<Rightarrow> (bytes, io_error) result" where
  "drain 0 cap self = Hang"
| "drain (Suc fuel) cap self =
     (case poll_read cap self of
        (Ok x, self') \<Rightarrow>
          if x = [] then Ok [] else res_bind (drain fuel cap self') (\<lambda>rest. Ok (x @ rest))
      | (Err e, self') \<Rightarrow> Err e
      | (Hang, self') \<Rightarrow> Hang)"

lemma read_all_aware:
  "read_all (aware_reader self) =
     (case rd_end (ear_inner self) of
        Eof \<Rightarrow> (case ear_decryption_error self of
            None \<Rightarrow> Ok (rd_bytes (ear_inner self))
          | Some err \<Rightarrow> Err (IoError KOther (display_error err)))
      | Fails e \<Rightarrow> Err e | Stalls \<Rightarrow> Hang)"
  by (auto simp: read_all_def aware_reader_def rd_bytes_def split: stream_end.split option.split)

lemma drain_aware:
  assumes "0 < cap" "length (rd_bytes (ear_inner self)) < fuel"
  shows "drain fuel cap self = read_all (aware_reader self)"
  using assms(2)
proof (induction fuel arbitrary: self)
  case 0
  then show ?case by simp
next
  case (Suc fuel)
  let ?r = "ear_inner self"
  obtain x r' where b: "read_buf cap ?r = (x, r')" by (cases "read_buf cap ?r")
  show ?case
  proof (cases x)
    case (Ok y)
    have y: "read_buf cap ?r = (Ok y, r')" using b Ok by simp
    note rb = read_buf_Ok [OF y]
    show ?thesis
    proof (cases "y = []")
      case True
      then have "rd_bytes ?r = []" "rd_end ?r = Eof" using rb(4) [OF assms(1)] by auto
      then show ?thesis
        using True y by (auto simp: poll_read_def read_all_aware split: option.split)
    next
      case False
      let ?s = "self\<lparr>ear_inner := r'\<rparr>"
      note r = rb(1,3)
      then have "drain fuel cap ?s = read_all (aware_reader ?s)"
        using Suc.prems False by (intro Suc.IH) (cases y; simp)
      then show ?thesis
        using False y r by (auto simp: poll_read_def read_all_aware split: option.split stream_end.split)
    qed
  next
    case (Err e)
    then show ?thesis using read_buf_not_Ok(1) [of cap ?r e r'] b by (simp add: poll_read_def read_all_aware)
  next
    case Hang
    then show ?thesis using read_buf_not_Ok(2) [of cap ?r r'] b by (simp add: poll_read_def read_all_aware)
  qed
qed

lemma read_all_run:
  assumes "\<not> dr_closed_early run"
  shows "read_all (aware_reader (reader_of_run k run)) =
    (case dr_end run of
       DecryptErr e \<Rightarrow> Err (IoError KOther (display_error (decryption_failed k e)))
     | DecryptPending \<Rightarrow> Hang
     | _ \<Rightarrow> Ok (concat (dr_chunks run)))"
  using assms by (simp add: read_all_aware reader_of_run_def rd_bytes_def split: decrypt_end.split)

section \<open>The hypotheses on the provider\<close>

definition enc_blobs ::
  "string \<Rightarrow> (bytes \<Rightarrow> bytes \<Rightarrow> bytes option) \<Rightarrow> ('w \<Rightarrow> key \<Rightarrow> bytes option) \<Rightarrow> 'w \<Rightarrow> key \<Rightarrow> bytes option"
where
  "enc_blobs suf opens blobs w k =
     (if ends_with k suf then None
      else case (blobs w k, blobs w (k @ suf)) of
          (Some ct, Some h) \<Rightarrow> opens ct h
        | _ \<Rightarrow> None)"

text \<open>Every complete pair opens, and every stored key is valid.\<close>

definition enc_inv ::
  "string \<Rightarrow> (bytes \<Rightarrow> bytes \<Rightarrow> bytes option) \<Rightarrow> ('w \<Rightarrow> bool) \<Rightarrow> ('w \<Rightarrow> key \<Rightarrow> bytes option) \<Rightarrow> 'w \<Rightarrow> bool"
where
  "enc_inv suf opens Inv blobs w \<longleftrightarrow> Inv w \<and> (\<forall>k. blobs w k \<noteq> None \<longrightarrow> valid_key k) \<and>
     (\<forall>k ct h. \<not> ends_with k suf \<longrightarrow> blobs w k = Some ct \<longrightarrow> blobs w (k @ suf) = Some h \<longrightarrow>
        opens ct h \<noteq> None)"

definition enc_ok :: "string \<Rightarrow> key \<Rightarrow> bool" where
  "enc_ok suf k \<longleftrightarrow> valid_key k \<and> valid_key (k @ suf) \<and> \<not> ends_with k suf"

text \<open>
  What a provider owes the layer, where \<open>opens ct h\<close> is the plaintext of a ciphertext under a header:
  its methods leave the store alone; a task that ends with a header has read its input to the end and
  written a ciphertext that the header opens; decryption succeeds on what opens, and only there; and
  the decryption task reports a failure before it closes the pipe.
\<close>

definition provider_ok ::
  "('w \<Rightarrow> bool) \<Rightarrow> ('w \<Rightarrow> key \<Rightarrow> bytes option) \<Rightarrow> 'w encryption_provider \<Rightarrow>
   (bytes \<Rightarrow> bytes \<Rightarrow> bytes option) \<Rightarrow> bool"
where
  "provider_ok Inv blobs enc opens \<longleftrightarrow>
     (\<forall>rd w e w'. Inv w \<longrightarrow> ep_encrypt_stream enc rd w = (e, w') \<longrightarrow> Inv w' \<and> blobs w' = blobs w) \<and>
     (\<forall>rd h w run w'. Inv w \<longrightarrow> ep_decrypt_stream enc rd h w = (run, w') \<longrightarrow>
        Inv w' \<and> blobs w' = blobs w) \<and>
     (\<forall>rd w pipe d h w'. ep_encrypt_stream enc rd w = ((pipe, Completes d (TaskOk h)), w') \<longrightarrow>
        rd_end rd = Eof \<and> opens (rd_bytes pipe) h = Some (rd_bytes rd)) \<and>
     (\<forall>rd ct h pt w run w'. read_all rd = Ok ct \<longrightarrow> opens ct h = Some pt \<longrightarrow>
        ep_decrypt_stream enc rd h w = (run, w') \<longrightarrow> dr_end run = DecryptOk \<and> concat (dr_chunks run) = pt) \<and>
     (\<forall>rd h w run w'. ep_decrypt_stream enc rd h w = (run, w') \<longrightarrow> dr_end run = DecryptOk \<longrightarrow>
        (\<exists>ct. read_all rd = Ok ct \<and> opens ct h = Some (concat (dr_chunks run)))) \<and>
     (\<forall>rd h w run w'. ep_decrypt_stream enc rd h w = (run, w') \<longrightarrow>
        \<not> dr_closed_early run \<and> dr_end run \<noteq> DecryptPanicked)"

locale encryption_layer = robust_ops st inv blobs ok text_ok filter_ok
  for st :: "('w, 'v) blob_store" and inv blobs ok text_ok filter_ok +
  fixes enc :: "'w encryption_provider"
    and suf :: string
    and timeout :: nat
    and opens :: "bytes \<Rightarrow> bytes \<Rightarrow> bytes option"
  assumes all_ok: "valid_key k \<Longrightarrow> ok k"
    and lists_all: "filter_ok (suffix_filter [])"
    and provider: "provider_ok inv blobs enc opens"
    and exists_pure: "inv w \<Longrightarrow> bs_exists st k w = (x, w') \<Longrightarrow> w' = w"
begin

lemma encrypt_frame:
  "inv w \<Longrightarrow> ep_encrypt_stream enc rd w = (e, w') \<Longrightarrow> inv w' \<and> blobs w' = blobs w"
  using provider unfolding provider_ok_def by metis

lemma decrypt_frame:
  "inv w \<Longrightarrow> ep_decrypt_stream enc rd h w = (run, w') \<Longrightarrow> inv w' \<and> blobs w' = blobs w"
  using provider unfolding provider_ok_def by metis

lemma encrypt_opens:
  "ep_encrypt_stream enc rd w = ((pipe, Completes d (TaskOk h)), w') \<Longrightarrow>
   rd_end rd = Eof \<and> opens (rd_bytes pipe) h = Some (rd_bytes rd)"
  using provider unfolding provider_ok_def by metis

lemma decrypt_done:
  "read_all rd = Ok ct \<Longrightarrow> opens ct h = Some pt \<Longrightarrow> ep_decrypt_stream enc rd h w = (run, w') \<Longrightarrow>
   dr_end run = DecryptOk \<and> concat (dr_chunks run) = pt"
  using provider unfolding provider_ok_def by metis

lemma decrypt_sound:
  "ep_decrypt_stream enc rd h w = (run, w') \<Longrightarrow> dr_end run = DecryptOk \<Longrightarrow>
   \<exists>ct. read_all rd = Ok ct \<and> opens ct h = Some (concat (dr_chunks run))"
  using provider unfolding provider_ok_def by metis

lemma decrypt_reports:
  "ep_decrypt_stream enc rd h w = (run, w') \<Longrightarrow> \<not> dr_closed_early run \<and> dr_end run \<noteq> DecryptPanicked"
  using provider unfolding provider_ok_def by metis

abbreviation this_enc where
  "this_enc \<equiv> \<lparr>ebs_inner = st, ebs_encryption = enc, ebs_header_suffix = suf,
     ebs_header_completion_timeout = timeout\<rparr>"

abbreviation plain where
  "plain \<equiv> enc_blobs suf opens blobs"

abbreviation good where
  "good \<equiv> enc_inv suf opens inv blobs"

lemma goodD:
  assumes "good w"
  shows "inv w" "blobs w k \<noteq> None \<Longrightarrow> valid_key k"
    "\<not> ends_with k suf \<Longrightarrow> blobs w k = Some ct \<Longrightarrow> blobs w (k @ suf) = Some h \<Longrightarrow> opens ct h \<noteq> None"
  using assms unfolding enc_inv_def by blast+

lemma plain_eq: "blobs w' = blobs w \<Longrightarrow> plain w' = plain w"
  by (simp add: enc_blobs_def fun_eq_iff)

lemma good_eq: "good w \<Longrightarrow> inv w' \<Longrightarrow> blobs w' = blobs w \<Longrightarrow> good w'"
  by (simp add: enc_inv_def)

lemma plain_Some:
  "plain w k = Some pt \<longleftrightarrow> \<not> ends_with k suf \<and>
     (\<exists>ct h. blobs w k = Some ct \<and> blobs w (k @ suf) = Some h \<and> opens ct h = Some pt)"
  by (auto simp: enc_blobs_def split: option.split)

lemma plain_complete:
  "good w \<Longrightarrow> plain w k \<noteq> None \<longleftrightarrow> \<not> ends_with k suf \<and> blobs w k \<noteq> None \<and> blobs w (k @ suf) \<noteq> None"
  using goodD(3) [of w k] by (auto simp: enc_blobs_def split: option.split)

lemma plain_local:
  "blobs w' k = blobs w k \<Longrightarrow> blobs w' (k @ suf) = blobs w (k @ suf) \<Longrightarrow> plain w' k = plain w k"
  by (simp add: enc_blobs_def)

lemma header_key_simp [simp]: "header_key this_enc k = k @ suf"
  by (simp add: header_key_def)

lemma collision_Ok [simp]:
  "validate_key_no_header_collision this_enc k = Ok () \<longleftrightarrow> \<not> ends_with k suf"
  by (simp add: validate_key_no_header_collision_def)

lemma collision_cases:
  "validate_key_no_header_collision this_enc k = (if ends_with k suf then
     Err (InvalidInput (''blob key must not end with reserved header suffix '' @
          squoted suf @ '': '' @ squoted k)) else Ok ())"
  by (simp add: validate_key_no_header_collision_def)

section \<open>Get\<close>

lemma enc_decrypt_found:
  assumes "inv w" "ok (k @ suf)" "blobs w (k @ suf) = Some h" "read_all rd = Ok ct"
    and "opens ct h = Some pt" "enc_decrypt_stream this_enc k rd w = (r, w')"
  shows "\<exists>x. r = Ok x \<and> read_all x = Ok pt"
proof -
  obtain hr w1 where g: "bs_get st (k @ suf) w = (hr, w1)" by (cases "bs_get st (k @ suf) w")
  obtain rh where rh: "hr = Ok rh" "read_all rh = Ok h" using get_found [OF assms(1-3) g] by blast
  obtain run w2 where d: "ep_decrypt_stream enc rd h w1 = (run, w2)"
    by (cases "ep_decrypt_stream enc rd h w1")
  have "r = Ok (aware_reader (reader_of_run k run))"
    using assms(6) g rh d by (simp add: enc_decrypt_stream_def io_q_eq io_map_err_eq)
  then show ?thesis
    using decrypt_done [OF assms(4,5) d] decrypt_reports [OF d] read_all_run [of run k] by simp
qed

lemma enc_decrypt_sound:
  assumes "inv w" "enc_decrypt_stream this_enc k rd w = (Ok x, w')" "read_all x = Ok pt"
  shows "\<exists>ct h. read_all rd = Ok ct \<and> blobs w (k @ suf) = Some h \<and> opens ct h = Some pt"
proof -
  from assms(2) obtain rh w1 where g: "bs_get st (k @ suf) w = (Ok rh, w1)"
    and rest: "io_bind (io_q (io_lift (read_all rh))) (\<lambda>header_buf w.
       (case ep_decrypt_stream enc rd header_buf w of
          (run, w') \<Rightarrow> (Ok (aware_reader (reader_of_run k run)), w'))) w1 = (Ok x, w')"
    by (auto simp: enc_decrypt_stream_def elim!: io_bind_OkE dest!: io_map_err_OkD)
  then obtain h where h: "read_all rh = Ok h" by (cases "read_all rh") (auto simp: io_q_eq io_bind_eq)
  obtain run w2 where d: "ep_decrypt_stream enc rd h w1 = (run, w2)"
    by (cases "ep_decrypt_stream enc rd h w1")
  have x: "x = aware_reader (reader_of_run k run)" using rest h d by (simp add: io_q_eq io_bind_eq)
  have "dr_end run = DecryptOk" "concat (dr_chunks run) = pt"
    using assms(3) decrypt_reports [OF d] read_all_run [of run k] unfolding x
    by (auto split: decrypt_end.splits)
  then show ?thesis using decrypt_sound [OF d] get_sound [OF assms(1) g h] by auto
qed

lemma enc_decrypt_frame:
  assumes "inv w" "enc_decrypt_stream this_enc k rd w = (r, w')"
  shows "inv w' \<and> blobs w' = blobs w"
proof -
  obtain hr w1 where g: "bs_get st (k @ suf) w = (hr, w1)" by (cases "bs_get st (k @ suf) w")
  have f: "inv w1" "blobs w1 = blobs w" using get_frame [OF assms(1) g] by auto
  show ?thesis
  proof (cases "\<exists>rh h. hr = Ok rh \<and> read_all rh = Ok h")
    case True
    then obtain rh h where h: "hr = Ok rh" "read_all rh = Ok h" by blast
    obtain run w2 where d: "ep_decrypt_stream enc rd h w1 = (run, w2)"
      by (cases "ep_decrypt_stream enc rd h w1")
    then have "w' = w2" using assms(2) g h by (simp add: enc_decrypt_stream_def io_q_eq io_map_err_eq)
    then show ?thesis using decrypt_frame [OF f(1) d] f(2) by simp
  next
    case False
    then have "w' = w1"
      using assms(2) g by (cases hr; cases "read_all (case hr of Ok rh \<Rightarrow> rh | _ \<Rightarrow> reader_of [])")
        (auto simp: enc_decrypt_stream_def io_q_eq io_map_err_eq io_bind_eq)
    then show ?thesis using f by simp
  qed
qed

lemma enc_get_found:
  assumes "good w" "enc_ok suf k" "plain w k = Some pt" "enc_get this_enc k w = (r, w')"
  shows "\<exists>rd. r = Ok rd \<and> read_all rd = Ok pt"
proof -
  obtain ct h where b: "blobs w k = Some ct" "blobs w (k @ suf) = Some h" "opens ct h = Some pt"
    using assms(3) by (auto simp: plain_Some)
  note k = assms(2) [unfolded enc_ok_def]
  obtain gr w1 where g: "bs_get st k w = (gr, w1)" by (cases "bs_get st k w")
  obtain rd where rd: "gr = Ok rd" "read_all rd = Ok ct"
    using get_found [OF goodD(1) [OF assms(1)] _ b(1) g] all_ok k by blast
  have f: "inv w1" "blobs w1 = blobs w" using get_frame [OF goodD(1) [OF assms(1)] g] by auto
  have "enc_decrypt_stream this_enc k rd w1 = (r, w')"
    using assms(4) g rd k by (simp add: enc_get_def collision_cases io_map_err_eq)
  then show ?thesis
    using enc_decrypt_found [OF f(1) _ _ rd(2) b(3), of k r w'] all_ok [of "k @ suf"] k b(2) f(2) by simp
qed

lemma enc_get_sound:
  assumes "good w" "enc_get this_enc k w = (Ok x, w')" "read_all x = Ok pt"
  shows "plain w k = Some pt"
proof -
  from assms(2) have c: "\<not> ends_with k suf"
    by (cases "ends_with k suf") (auto simp: enc_get_def collision_cases)
  from assms(2) obtain rd w1 where g: "bs_get st k w = (Ok rd, w1)"
      "enc_decrypt_stream this_enc k rd w1 = (Ok x, w')"
    by (auto simp: enc_get_def elim!: io_bind_OkE dest!: io_map_err_OkD)
  have f: "inv w1" "blobs w1 = blobs w" using get_frame [OF goodD(1) [OF assms(1)] g(1)] by auto
  show ?thesis
    using enc_decrypt_sound [OF f(1) g(2) assms(3)] get_sound [OF goodD(1) [OF assms(1)] g(1)] f(2) c
    by (auto simp: plain_Some)
qed

lemma enc_get_frame:
  assumes "good w" "enc_get this_enc k w = (r, w')"
  shows "good w' \<and> plain w' = plain w"
proof -
  obtain gr w1 where g: "bs_get st k w = (gr, w1)" by (cases "bs_get st k w")
  have f: "inv w1" "blobs w1 = blobs w" using get_frame [OF goodD(1) [OF assms(1)] g] by auto
  consider "w' = w" | "w' = w1" | rd where "enc_decrypt_stream this_enc k rd w1 = (r, w')"
    using assms(2) g by (cases "ends_with k suf"; cases gr)
      (auto simp: enc_get_def collision_cases io_map_err_eq io_bind_eq)
  then have "inv w' \<and> blobs w' = blobs w"
    using enc_decrypt_frame [OF f(1)] f goodD(1) [OF assms(1)] by cases auto
  then show ?thesis using good_eq [OF assms(1)] plain_eq by blast
qed

section \<open>Exists\<close>

lemma enc_exists_eq:
  assumes "good w" "enc_ok suf k" "enc_exists this_enc k w = (r, w')"
  shows "r = Ok (plain w k \<noteq> None)"
proof -
  note k = assms(2) [unfolded enc_ok_def]
  obtain x w1 where e1: "bs_exists st k w = (x, w1)" by (cases "bs_exists st k w")
  have x: "x = Ok (blobs w k \<noteq> None)" using exists_iff [OF goodD(1) [OF assms(1)] all_ok e1] k by simp
  have f: "inv w1" "blobs w1 = blobs w" using exists_frame [OF goodD(1) [OF assms(1)] e1] by auto
  obtain y w2 where e2: "bs_exists st (k @ suf) w1 = (y, w2)" by (cases "bs_exists st (k @ suf) w1")
  have "y = Ok (blobs w (k @ suf) \<noteq> None)" using exists_iff [OF f(1) all_ok e2] k f(2) by simp
  then show ?thesis
    using assms(3) k e1 x e2 plain_complete [OF assms(1), of k]
    by (auto simp: enc_exists_def collision_cases split: if_splits)
qed

lemma enc_exists_sound:
  assumes "good w" "enc_exists this_enc k w = (Ok b, w')"
  shows "b = (plain w k \<noteq> None)"
proof -
  from assms(2) have c: "\<not> ends_with k suf"
    by (cases "ends_with k suf") (auto simp: enc_exists_def collision_cases)
  then obtain x w1 where e1: "bs_exists st k w = (Ok x, w1)"
      and e2: "(if \<not> x then io_ret False else bs_exists st (k @ suf)) w1 = (Ok b, w')"
    using assms(2) by (auto simp: enc_exists_def collision_cases cong: if_cong elim!: io_bind_OkE)
  have x: "x = (blobs w k \<noteq> None)" by (rule exists_sound [OF goodD(1) [OF assms(1)] e1])
  have f: "inv w1" "blobs w1 = blobs w" using exists_frame [OF goodD(1) [OF assms(1)] e1] by auto
  show ?thesis
    using e2 x exists_sound [OF f(1), of "k @ suf" b w'] f(2) c plain_complete [OF assms(1), of k]
    by (auto split: if_splits)
qed

lemma enc_exists_frame:
  assumes "good w" "enc_exists this_enc k w = (r, w')"
  shows "good w' \<and> plain w' = plain w"
proof -
  obtain x w1 where e1: "bs_exists st k w = (x, w1)" by (cases "bs_exists st k w")
  have f: "inv w1" "blobs w1 = blobs w" using exists_frame [OF goodD(1) [OF assms(1)] e1] by auto
  consider "w' = w" | "w' = w1" | "bs_exists st (k @ suf) w1 = (r, w')"
    using assms(2) e1 by (cases "ends_with k suf"; cases x)
      (auto simp: enc_exists_def collision_cases io_bind_eq split: if_splits)
  then have "inv w' \<and> blobs w' = blobs w"
    using exists_frame [OF f(1)] f goodD(1) [OF assms(1)] by cases auto
  then show ?thesis using good_eq [OF assms(1)] plain_eq by blast
qed

section \<open>Put\<close>

lemma enc_rollback_effect:
  assumes "inv w" "enc_rollback this_enc k e w = (r, w')"
  shows "inv w' \<and> (\<forall>j. j \<noteq> k \<longrightarrow> blobs w' j = blobs w j) \<and> (r = Err e \<or> r = Hang)"
proof -
  obtain x w1 where d: "bs_delete st [k] w = (x, w1)" by (cases "bs_delete st [k] w")
  have "w' = w1" "r = Err e \<or> r = Hang"
    using assms(2) d by (cases x; simp add: enc_rollback_def io_ignore_eq io_bind_eq)+
  then show ?thesis using delete_frame [OF assms(1) d] by auto
qed

lemma encryption_result_Ok:
  "encryption_result this_enc k task = Ok h \<Longrightarrow> \<exists>d. task = Completes d (TaskOk h) \<and> d \<le> timeout"
  by (auto simp: encryption_result_def Let_def split: task_end.splits if_splits task_result.splits)

lemma encryption_result_not_Hang: "encryption_result this_enc k task \<noteq> Hang"
  by (auto simp: encryption_result_def Let_def split: task_end.splits task_result.splits)

lemma put_single:
  assumes "inv w" "text_ok k" "bs_put st [blob_input_with_size k rd n] w = (r, w')"
  shows "inv w'" "\<And>j. j \<noteq> k \<Longrightarrow> blobs w' j = blobs w j"
    and "r = Ok res \<Longrightarrow> blobs w' = (blobs w)(k \<mapsto> rd_bytes rd) \<and> rd_end rd = Eof \<and>
      map bm_key (pr_blobs res) = [k]"
  using put_inv [OF assms(1) _ assms(3)] put_frame [OF assms(1) _ assms(3)]
    put_done [OF assms(1), of "[blob_input_with_size k rd n]" res w'] assms(2,3)
  by (auto simp: blob_input_with_size_def)

lemma enc_put_header_effect:
  assumes i: "inv w" and t: "text_ok (k @ suf)" and ne: "\<not> ends_with k suf"
    and e: "enc_put_header this_enc k res h w = (r, w')"
  shows "inv w' \<and> (\<forall>j. j \<noteq> k \<longrightarrow> j \<noteq> k @ suf \<longrightarrow> blobs w' j = blobs w j) \<and>
    (\<forall>ms. r = Ok ms \<longrightarrow> blobs w' = (blobs w)(k @ suf \<mapsto> h) \<and>
       ms = filter (\<lambda>b. \<not> ends_with (bm_key b) suf) (pr_blobs res))"
proof -
  obtain x w1 where p: "bs_put st [blob_input_with_size (k @ suf) (reader_of h) (len64 h)] w = (x, w1)"
    by (cases "bs_put st [blob_input_with_size (k @ suf) (reader_of h) (len64 h)] w")
  note ps = put_single [OF i t p]
  show ?thesis
  proof (cases x)
    case (Ok y)
    then have "w' = w1" "r = Ok (filter (\<lambda>b. \<not> ends_with (bm_key b) suf) (pr_blobs res))"
      using e p by (simp_all add: enc_put_header_def)
    then show ?thesis using ps Ok by auto
  next
    case (Err y)
    then have "enc_rollback this_enc k y w1 = (r, w')" using e p by (simp add: enc_put_header_def)
    from enc_rollback_effect [OF ps(1) this] show ?thesis using ps(2) by auto
  next
    case Hang
    then have "w' = w1" "r = Hang" using e p by (simp_all add: enc_put_header_def)
    then show ?thesis using ps by auto
  qed
qed

lemma enc_put_one_effect:
  assumes i: "inv w" and t: "text_ok (bi_key b)" "text_ok (bi_key b @ suf)"
    and ne: "\<not> ends_with (bi_key b) suf" and e: "enc_put_one this_enc b w = (r, w')"
  shows "inv w' \<and> (\<forall>j. j \<noteq> bi_key b \<longrightarrow> j \<noteq> bi_key b @ suf \<longrightarrow> blobs w' j = blobs w j) \<and>
    (\<forall>ms. r = Ok ms \<longrightarrow> rd_end (bi_data b) = Eof \<and> map bm_key ms = [bi_key b] \<and>
       (\<exists>ct h. blobs w' (bi_key b) = Some ct \<and> blobs w' (bi_key b @ suf) = Some h \<and>
          opens ct h = Some (rd_bytes (bi_data b))))"
proof -
  let ?k = "bi_key b"
  let ?n = "case bi_size_hint b of Some h \<Rightarrow> h | None \<Rightarrow> 0"
  obtain pipe task w1 where en: "ep_encrypt_stream enc (bi_data b) w = ((pipe, task), w1)"
    by (metis surj_pair)
  have f1: "inv w1" "blobs w1 = blobs w" using encrypt_frame [OF i en] by auto
  obtain x w2 where p: "bs_put st [blob_input_with_size ?k pipe ?n] w1 = (x, w2)"
    by (cases "bs_put st [blob_input_with_size ?k pipe ?n] w1")
  note ps = put_single [OF f1(1) t(1) p]
  show ?thesis
  proof (cases x)
    case (Ok res)
    have d: "blobs w2 = (blobs w)(?k \<mapsto> rd_bytes pipe)" "map bm_key (pr_blobs res) = [?k]"
      using ps(3) [OF Ok] f1(2) by auto
    show ?thesis
    proof (cases "encryption_result this_enc ?k task")
      case er: (Ok h)
      then have eq: "enc_put_header this_enc ?k res h w2 = (r, w')"
        using e en p Ok by (simp add: enc_put_one_def)
      note h = enc_put_header_effect [OF ps(1) t(2) ne eq]
      obtain n where "task = Completes n (TaskOk h)" using encryption_result_Ok [OF er] by blast
      then have op: "rd_end (bi_data b) = Eof" "opens (rd_bytes pipe) h = Some (rd_bytes (bi_data b))"
        using encrypt_opens [of "bi_data b" w pipe n h w1] en by auto
      have k: "?k \<noteq> ?k @ suf" using ne by (auto simp: ends_with_iff)
      have "map bm_key (filter (\<lambda>b. \<not> ends_with (bm_key b) suf) (pr_blobs res)) = [?k]"
        using d(2) ne by (cases "pr_blobs res") auto
      then show ?thesis using h op d(1) k by auto
    next
      case (Err y)
      then have eq: "enc_rollback this_enc ?k y w2 = (r, w')"
        using e en p Ok by (simp add: enc_put_one_def)
      from enc_rollback_effect [OF ps(1) eq] show ?thesis using ps(2) f1(2) by auto
    next
      case Hang
      then show ?thesis using encryption_result_not_Hang by blast
    qed
  next
    case (Err y)
    then have "w' = w2" "r = Err y" using e en p by (simp_all add: enc_put_one_def)
    then show ?thesis using ps f1(2) by auto
  next
    case Hang
    then have "w' = w2" "r = Hang" using e en p by (simp_all add: enc_put_one_def)
    then show ?thesis using ps f1(2) by auto
  qed
qed

text \<open>The loop. A later blob of the batch with the same key replaces an earlier one.\<close>

lemma header_not_data: "\<not> ends_with k suf \<Longrightarrow> k \<noteq> j @ suf"
  by (auto simp: ends_with_iff)

lemma headers_apart:
  assumes "\<forall>b \<in> set bs. \<not> ends_with (bi_key b) suf" "\<not> ends_with k suf"
  shows "k @ suf \<notin> bi_key ` set bs" "k \<notin> (\<lambda>b. bi_key b @ suf) ` set bs"
    "k \<notin> bi_key ` set bs \<Longrightarrow> k @ suf \<notin> (\<lambda>b. bi_key b @ suf) ` set bs"
proof -
  show "k @ suf \<notin> bi_key ` set bs"
  proof
    assume "k @ suf \<in> bi_key ` set bs"
    then obtain b where "b \<in> set bs" "bi_key b = k @ suf" by (metis imageE)
    then show False using assms(1) ends_with_append [of k suf] by metis
  qed
qed (use header_not_data [OF assms(2)] in auto)

lemma enc_put_all_effect:
  assumes "inv w" "\<forall>b \<in> set bs. text_ok (bi_key b) \<and> text_ok (bi_key b @ suf) \<and> \<not> ends_with (bi_key b) suf"
    and "io_mapM (enc_put_one this_enc) bs w = (r, w')"
  shows "inv w' \<and>
    (\<forall>j. j \<notin> bi_key ` set bs \<longrightarrow> j \<notin> (\<lambda>b. bi_key b @ suf) ` set bs \<longrightarrow> blobs w' j = blobs w j) \<and>
    (\<forall>mss. r = Ok mss \<longrightarrow> (\<forall>b \<in> set bs. rd_end (bi_data b) = Eof) \<and>
       map bm_key (concat mss) = map bi_key bs \<and> plain w' = put_blobs bs (plain w))"
  using assms
proof (induction bs arbitrary: w r)
  case Nil
  then have "w' = w" "r = Ok []" by simp_all
  then show ?case using Nil.prems(1) by simp
next
  case (Cons b bs)
  let ?k = "bi_key b"
  have b: "text_ok ?k" "text_ok (?k @ suf)" "\<not> ends_with ?k suf" using Cons.prems(2) by simp_all
  obtain r1 w1 where e1: "enc_put_one this_enc b w = (r1, w1)" by (cases "enc_put_one this_enc b w")
  note one = enc_put_one_effect [OF Cons.prems(1) b e1]
  show ?case
  proof (cases r1)
    case (Ok ms)
    obtain r2 w2 where e2: "io_mapM (enc_put_one this_enc) bs w1 = (r2, w2)"
      by (cases "io_mapM (enc_put_one this_enc) bs w1")
    have "io_mapM (enc_put_one this_enc) (b # bs) w = (res_bind r2 (\<lambda>mss. Ok (ms # mss)), w2)"
      using e1 Ok e2 by (cases r2) simp_all
    then have rw: "w' = w2" "r = res_bind r2 (\<lambda>mss. Ok (ms # mss))"
      using Cons.prems(3) by simp_all
    have ih: "inv w2 \<and>
      (\<forall>j. j \<notin> bi_key ` set bs \<longrightarrow> j \<notin> (\<lambda>b. bi_key b @ suf) ` set bs \<longrightarrow> blobs w2 j = blobs w1 j) \<and>
      (\<forall>mss. r2 = Ok mss \<longrightarrow> (\<forall>b \<in> set bs. rd_end (bi_data b) = Eof) \<and>
         map bm_key (concat mss) = map bi_key bs \<and> plain w2 = put_blobs bs (plain w1))"
      using Cons.IH [of w1 r2] Cons.prems(2) one e2 rw(1) by simp
    have pk: "plain w1 = (plain w)(?k \<mapsto> rd_bytes (bi_data b))"
    proof
      fix j show "plain w1 j = ((plain w)(?k \<mapsto> rd_bytes (bi_data b))) j"
      proof (cases "j = ?k")
        case True
        then show ?thesis using one Ok b(3) by (auto simp: plain_Some)
      next
        case False
        show ?thesis
        proof (cases "ends_with j suf")
          case True
          then show ?thesis using False by (simp add: enc_blobs_def)
        next
          case nj: False
          have "blobs w1 j = blobs w j" "blobs w1 (j @ suf) = blobs w (j @ suf)"
            using one False header_not_data [OF nj, of ?k] header_not_data [OF b(3), of j] by auto
          then show ?thesis using False plain_local [of w1 j w] by simp
        qed
      qed
    qed
    have fr: "blobs w' j = blobs w j" if "j \<notin> bi_key ` set (b # bs)" "j \<notin> (\<lambda>b. bi_key b @ suf) ` set (b # bs)" for j
      using ih one rw(1) that by simp
    show ?thesis
    proof (cases r2)
      case (Ok mss)
      then have "map bm_key (concat (ms # mss)) = map bi_key (b # bs)" "rd_end (bi_data b) = Eof"
        using ih one \<open>r1 = Ok ms\<close> by simp_all
      then show ?thesis using fr ih rw Ok by (simp add: pk [symmetric])
    qed (use fr ih rw in auto)
  next
    case (Err x)
    then have "w' = w1" "r = Err x" using Cons.prems(3) e1 by simp_all
    then show ?thesis using one by auto
  next
    case Hang
    then have "w' = w1" "r = Hang" using Cons.prems(3) e1 by simp_all
    then show ?thesis using one by auto
  qed
qed

lemma enc_validate_Ok: "enc_validate this_enc b = Ok () \<longleftrightarrow> enc_ok suf (bi_key b)"
  by (auto simp: enc_validate_def enc_ok_def res_bind_Ok_iff validate_Ok_iff)

lemma enc_validate_Err: "\<not> enc_ok suf (bi_key b) \<Longrightarrow> \<exists>m. enc_validate this_enc b = Err (InvalidInput m)"
  using validate_invalid [of "bi_key b"] validate_invalid [of "bi_key b @ suf"]
  by (cases "valid_key (bi_key b)"; cases "ends_with (bi_key b) suf")
    (auto simp: enc_validate_def enc_ok_def collision_cases)

lemma enc_put_invalid:
  assumes "b \<in> set bs" "\<not> enc_ok suf (bi_key b)"
  shows "\<exists>m. enc_put this_enc bs w = (Err (InvalidInput m), w)"
proof -
  have nh: "enc_validate this_enc y \<noteq> Hang" for y
    using enc_validate_Ok [of y] enc_validate_Err [of y] by (cases "enc_ok suf (bi_key y)") auto
  obtain m0 where "enc_validate this_enc b = Err (InvalidInput m0)" using enc_validate_Err [OF assms(2)] by blast
  then obtain y e where "enc_validate this_enc y = Err e" "res_for (enc_validate this_enc) bs = Err e"
    using res_for_first_Err [of b bs "enc_validate this_enc", OF assms(1) _ nh] by blast
  moreover from this(1) have "\<exists>m. e = InvalidInput m"
    using enc_validate_Ok [of y] enc_validate_Err [of y] by (cases "enc_ok suf (bi_key y)") auto
  ultimately show ?thesis by (auto simp: enc_put_def)
qed

lemma enc_put_effect:
  assumes "good w" "\<forall>b \<in> set bs. text_ok (bi_key b) \<and> text_ok (bi_key b @ suf)"
    and "enc_put this_enc bs w = (r, w')"
  shows "inv w' \<and> (\<forall>k. k \<notin> bi_key ` set bs \<longrightarrow> plain w' k = plain w k) \<and>
    (\<forall>res. r = Ok res \<longrightarrow> good w' \<and> plain w' = put_blobs bs (plain w) \<and>
       (\<forall>b \<in> set bs. rd_end (bi_data b) = Eof) \<and> map bm_key (pr_blobs res) = map bi_key bs)"
proof (cases "\<forall>b \<in> set bs. enc_ok suf (bi_key b)")
  case False
  then show ?thesis using enc_put_invalid [of _ bs w] assms(1,3) goodD(1) by fastforce
next
  case True
  obtain r1 w1 where m: "io_mapM (enc_put_one this_enc) bs w = (r1, w1)"
    by (cases "io_mapM (enc_put_one this_enc) bs w")
  have "res_for (enc_validate this_enc) bs = Ok ()"
    using True by (simp add: res_for_Ok_iff enc_validate_Ok)
  then have "enc_put this_enc bs w = (res_bind r1 (\<lambda>mss. Ok (put_result_multiple (concat mss))), w1)"
    using m by (cases r1) (simp_all add: enc_put_def)
  then have rw: "w' = w1" "r = res_bind r1 (\<lambda>mss. Ok (put_result_multiple (concat mss)))"
    using assms(3) by simp_all
  have c: "\<forall>b \<in> set bs. text_ok (bi_key b) \<and> text_ok (bi_key b @ suf) \<and> \<not> ends_with (bi_key b) suf"
    using assms(2) True by (simp add: enc_ok_def)
  then have c2: "\<forall>b \<in> set bs. \<not> ends_with (bi_key b) suf" by blast
  note e = enc_put_all_effect [OF goodD(1) [OF assms(1)] c m]
  have fr: "plain w' k = plain w k" if k: "k \<notin> bi_key ` set bs" for k
  proof (cases "ends_with k suf")
    case False
    have "blobs w1 k = blobs w k" "blobs w1 (k @ suf) = blobs w (k @ suf)"
      using e k headers_apart [OF c2 False] by blast+
    then show ?thesis using rw(1) plain_local [of w1 k w] by simp
  qed (simp add: enc_blobs_def)
  have gd: "good w'" if "r1 = Ok mss" for mss
    unfolding enc_inv_def
  proof (intro conjI allI impI)
    show "inv w'" using e rw(1) by simp
    show "valid_key k" if "blobs w' k \<noteq> None" for k
    proof (cases "k \<in> bi_key ` set bs \<or> k \<in> (\<lambda>b. bi_key b @ suf) ` set bs")
      case True
      then show ?thesis using \<open>\<forall>b \<in> set bs. enc_ok suf (bi_key b)\<close> by (auto simp: enc_ok_def)
    next
      case False
      then show ?thesis using that e rw(1) goodD(2) [OF assms(1)] by auto
    qed
    fix k ct h
    assume k: "\<not> ends_with k suf" "blobs w' k = Some ct" "blobs w' (k @ suf) = Some h"
    have pl: "plain w' k = opens ct h" using k by (simp add: enc_blobs_def)
    show "opens ct h \<noteq> None"
    proof (cases "k \<in> bi_key ` set bs")
      case True
      then have "k \<in> dom (put_blobs bs (plain w))" by (simp add: dom_put_blobs)
      moreover have "plain w' = put_blobs bs (plain w)" using e that rw(1) by simp
      ultimately have "plain w' k \<noteq> None" by (metis domIff)
      then show ?thesis using pl by simp
    next
      case False
      have "blobs w1 k = blobs w k" "blobs w1 (k @ suf) = blobs w (k @ suf)"
        using e False headers_apart [OF c2 k(1)] by blast+
      then show ?thesis using goodD(3) [OF assms(1) k(1)] k rw(1) by auto
    qed
  qed
  show ?thesis
  proof (cases r1)
    case (Ok mss)
    then show ?thesis using e rw fr gd [OF Ok] by (auto simp: put_result_multiple_def)
  qed (use e rw fr in auto)
qed

section \<open>Delete\<close>

abbreviation pairs where
  "pairs ks \<equiv> concat (map (\<lambda>k. [k, k @ suf]) ks)"

lemma set_pairs: "set (pairs ks) = set ks \<union> (\<lambda>k. k @ suf) ` set ks"
  by auto

lemma shrink_good:
  assumes "good w" "inv w'" "\<forall>k. blobs w' k = blobs w k \<or> blobs w' k = None"
  shows "good w'"
  unfolding enc_inv_def
proof (intro conjI allI impI)
  show "blobs w' k \<noteq> None \<Longrightarrow> valid_key k" for k using goodD(2) [OF assms(1)] assms(3) by metis
  show "\<not> ends_with k suf \<Longrightarrow> blobs w' k = Some ct \<Longrightarrow> blobs w' (k @ suf) = Some h \<Longrightarrow> opens ct h \<noteq> None"
    for k ct h using goodD(3) [OF assms(1)] assms(3) by (metis option.distinct(1))
qed (rule assms(2))

lemma enc_delete_invalid:
  assumes "k \<in> set ks" "\<not> enc_ok suf k"
  shows "\<exists>m. enc_delete this_enc ks w = (Err (InvalidInput m), w)"
proof (cases "res_for (validate_key_no_header_collision this_enc) ks")
  case (Ok u)
  then have "\<forall>k \<in> set ks. \<not> ends_with k suf" by (simp add: res_for_Ok_iff)
  then have "\<not> valid_key k \<or> \<not> valid_key (k @ suf)" using assms by (auto simp: enc_ok_def)
  then have "\<not> ok k \<or> \<not> ok (k @ suf)" using ok_valid by blast
  moreover have "k \<in> set (pairs ks)" "k @ suf \<in> set (pairs ks)"
    using assms(1) by (simp_all add: set_pairs del: set_concat)
  ultimately obtain m where "bs_delete st (pairs ks) w = (Err (InvalidInput m), w)"
    using delete_invalid [of k "pairs ks" w] delete_invalid [of "k @ suf" "pairs ks" w] by blast
  then show ?thesis using Ok by (simp add: enc_delete_def enc_delete_error_def)
next
  case (Err e)
  obtain y where "validate_key_no_header_collision this_enc y = Err e"
    using res_for_Err [OF Err] by blast
  then have "\<exists>m. e = InvalidInput m" by (auto simp: collision_cases split: if_splits)
  then show ?thesis using Err by (auto simp: enc_delete_def)
next
  case Hang
  moreover have "res_for (validate_key_no_header_collision this_enc) ks \<noteq> Hang"
    by (rule res_for_not_Hang) (simp add: collision_cases)
  ultimately show ?thesis by simp
qed

lemma enc_delete_cases:
  assumes "enc_delete this_enc ks w = (r, w')"
  obtains (invalid) m where "r = Err (InvalidInput m)" "w' = w"
  | (inner) r1 where "\<forall>k \<in> set ks. \<not> ends_with k suf" "bs_delete st (pairs ks) w = (r1, w')"
      "r = (case r1 of Ok u \<Rightarrow> Ok u | Err e \<Rightarrow> fst (enc_delete_error ks e w') | Hang \<Rightarrow> Hang)"
proof (cases "\<exists>k \<in> set ks. \<not> enc_ok suf k")
  case True
  then show thesis using invalid enc_delete_invalid assms by (metis Pair_inject)
next
  case False
  then have c: "\<forall>k \<in> set ks. \<not> ends_with k suf" by (auto simp: enc_ok_def)
  then have v: "res_for (validate_key_no_header_collision this_enc) ks = Ok ()"
    by (simp add: res_for_Ok_iff)
  obtain r1 w1 where d: "bs_delete st (pairs ks) w = (r1, w1)" by (cases "bs_delete st (pairs ks) w")
  have st: "snd (enc_delete_error ks e w1) = w1" for e
    by (auto simp: enc_delete_error_def Let_def split: blob_storage_error.split)
  have "enc_delete this_enc ks w =
      (case r1 of Ok u \<Rightarrow> Ok u | Err e \<Rightarrow> fst (enc_delete_error ks e w1) | Hang \<Rightarrow> Hang, w1)"
    using v d st by (cases r1) (simp_all add: enc_delete_def prod_eq_iff)
  then show thesis using inner [OF c, of r1] d assms by auto
qed

lemma enc_delete_frame:
  assumes "good w" "enc_delete this_enc ks w = (r, w')"
  shows "good w' \<and> (\<forall>k. plain w' k = plain w k \<or> k \<in> set ks \<and> plain w' k = None)"
  using assms(2)
proof (cases rule: enc_delete_cases)
  case (inner r1)
  note f = delete_frame [OF goodD(1) [OF assms(1)] inner(2)]
  have g: "good w'" using f by (intro shrink_good [OF assms(1)]) auto
  have "plain w' k = plain w k \<or> k \<in> set ks \<and> plain w' k = None" for k
  proof (cases "ends_with k suf")
    case True
    then show ?thesis by (simp add: enc_blobs_def)
  next
    case False
    show ?thesis
    proof (cases "k \<in> set ks")
      case True
      consider "blobs w' k = None" | "blobs w' (k @ suf) = None"
        | "blobs w' k = blobs w k" "blobs w' (k @ suf) = blobs w (k @ suf)"
        using f by metis
      then show ?thesis
      proof cases
        case 3
        then show ?thesis using plain_local [of w' k w] by simp
      qed (use True in \<open>auto simp: enc_blobs_def split: option.split\<close>)
    next
      case nin: False
      have "k \<notin> set (pairs ks)"
        using nin header_not_data [OF False] unfolding set_pairs by auto
      moreover have "k @ suf \<notin> set (pairs ks)"
      proof
        assume "k @ suf \<in> set (pairs ks)"
        then have "k @ suf \<in> set ks" using nin unfolding set_pairs by auto
        then show False using inner(1) ends_with_append [of k suf] by blast
      qed
      ultimately have "blobs w' k = blobs w k" "blobs w' (k @ suf) = blobs w (k @ suf)"
        using f by auto
      then show ?thesis using plain_local [of w' k w] by simp
    qed
  qed
  then show ?thesis using g by blast
qed (use assms in simp)

text \<open>After a reported success no data blob of the batch is left.\<close>

lemma enc_delete_done:
  assumes "good w" "enc_delete this_enc ks w = (Ok (), w')" "k \<in> set ks"
  shows "plain w' k = None"
  using assms(2)
proof (cases rule: enc_delete_cases)
  case (inner r1)
  note i = goodD(1) [OF assms(1)]
  have "blobs w' k = None"
  proof (cases r1)
    case (Ok u)
    then have "blobs w' = (blobs w) |` (- set (pairs ks))"
      using delete_done [OF i, of "pairs ks" w'] inner(2) by simp
    then show ?thesis using assms(3) by (auto simp: restrict_map_def)
  next
    case (Err e)
    then obtain b where b: "e = Batch b" "filter (\<lambda>e. ke_key e \<in> set ks) (errors b) = []"
      using inner(3) by (cases e) (auto simp: enc_delete_error_def Let_def split: if_splits)
    then have "k \<notin> ke_key ` set (errors b)" using assms(3) by (auto simp: filter_empty_conv)
    then show ?thesis
      using delete_batch [OF i, of "pairs ks" b w'] inner(2) Err b(1) assms(3) by auto
  next
    case Hang
    then show ?thesis using inner(3) by simp
  qed
  then show ?thesis by (simp add: enc_blobs_def)
qed simp

lemma enc_delete_batch:
  assumes "good w" "enc_delete this_enc ks w = (Err (Batch be), w')"
  shows "(\<forall>k \<in> set (succeeded be). k \<in> set ks \<and> plain w' k = None) \<and>
    (\<forall>e \<in> set (errors be). ke_key e \<in> set ks) \<and>
    (\<forall>k \<in> set ks. k \<in> set (succeeded be) \<or> k \<in> ke_key ` set (errors be))"
  using assms(2)
proof (cases rule: enc_delete_cases)
  case (inner r1)
  obtain e where e: "r1 = Err e" using inner(3) by (cases r1) auto
  obtain b where b: "e = Batch b" "be = \<lparr>succeeded = filter (\<lambda>s. s \<in> set ks) (succeeded b),
      errors = filter (\<lambda>e. ke_key e \<in> set ks) (errors b)\<rparr>"
    using inner(3) e by (cases e) (auto simp: enc_delete_error_def Let_def split: if_splits)
  note d = delete_batch [OF goodD(1) [OF assms(1)], of "pairs ks" b w']
  have d: "\<forall>k \<in> set (succeeded b). blobs w' k = None"
      "\<forall>k \<in> set (pairs ks). k \<in> set (succeeded b) \<or> k \<in> ke_key ` set (errors b)"
    using d inner(2) e b(1) by auto
  have "k \<in> set (succeeded be) \<or> k \<in> ke_key ` set (errors be)" if "k \<in> set ks" for k
    using d(2) that by (auto simp: b(2) image_iff)
  then show ?thesis using d(1) by (auto simp: b(2) enc_blobs_def)
qed simp

section \<open>Listings\<close>

lemma keep_complete_effect:
  assumes "inv w" "keep_complete this_enc ks w = (r, w')"
  shows "inv w' \<and> blobs w' = blobs w \<and>
    (\<forall>xs. r = Ok xs \<longrightarrow> xs = filter (\<lambda>k. blobs w (k @ suf) \<noteq> None) ks)"
  using assms
proof (induction ks arbitrary: w r w')
  case Nil
  then show ?case by auto
next
  case (Cons k ks)
  obtain x w1 where e: "bs_exists st (k @ suf) w = (x, w1)" by (cases "bs_exists st (k @ suf) w")
  have f: "inv w1" "blobs w1 = blobs w" using exists_frame [OF Cons.prems(1) e] by auto
  show ?case
  proof (cases x)
    case (Ok b)
    have b: "b = (blobs w (k @ suf) \<noteq> None)" using exists_sound [OF Cons.prems(1)] e Ok by simp
    obtain y w2 where k: "keep_complete this_enc ks w1 = (y, w2)" by (cases "keep_complete this_enc ks w1")
    have "keep_complete this_enc (k # ks) w =
        (res_bind y (\<lambda>rest. Ok (if b then k # rest else rest)), w2)"
      using e Ok k by (cases y) simp_all
    then show ?thesis
      using Cons.prems(2) Cons.IH [OF f(1) k] f(2) b by (auto simp: res_bind_Ok_iff)
  qed (use Cons.prems(2) e f in auto)
qed

lemma enc_list_frame:
  assumes "good w" "enc_list this_enc f w = (r, w')"
  shows "good w' \<and> plain w' = plain w"
proof -
  obtain x w1 where l: "bs_list st (suffix_filter []) w = (x, w1)" by (cases "bs_list st (suffix_filter []) w")
  have fr: "inv w1" "blobs w1 = blobs w" using list_frame [OF goodD(1) [OF assms(1)] l] by auto
  have "inv w' \<and> blobs w' = blobs w"
  proof (cases x)
    case (Ok ks)
    then have "keep_complete this_enc (filter (\<lambda>k. matches f k None)
        (filter (\<lambda>k. \<not> ends_with k suf) ks)) w1 = (r, w')"
      using assms(2) l by (simp add: enc_list_def)
    then show ?thesis using keep_complete_effect [OF fr(1)] fr(2) by metis
  qed (use assms(2) l fr in \<open>auto simp: enc_list_def\<close>)
  then show ?thesis using good_eq [OF assms(1)] plain_eq by blast
qed

lemma enc_list_done:
  assumes "good w" "enc_list this_enc f w = (Ok ks, w')"
  shows "sorted ks \<and> distinct ks \<and> set ks = {k \<in> dom (plain w). matches f k None}"
proof -
  obtain xs w1 where l: "bs_list st (suffix_filter []) w = (Ok xs, w1)"
      and k: "keep_complete this_enc (filter (\<lambda>k. matches f k None)
        (filter (\<lambda>k. \<not> ends_with k suf) xs)) w1 = (Ok ks, w')"
    using assms(2) by (auto simp: enc_list_def elim!: io_bind_OkE)
  have xs: "sorted xs" "distinct xs" "set xs = dom (blobs w)"
    using list_done [OF goodD(1) [OF assms(1)] lists_all l] by auto
  have fr: "inv w1" "blobs w1 = blobs w" using list_frame [OF goodD(1) [OF assms(1)] l] by auto
  have "ks = filter (\<lambda>k. blobs w (k @ suf) \<noteq> None) (filter (\<lambda>k. matches f k None)
      (filter (\<lambda>k. \<not> ends_with k suf) xs))"
    using keep_complete_effect [OF fr(1) k] fr(2) by simp
  then show ?thesis
    using xs plain_complete [OF assms(1)] by (auto simp: sorted_wrt_filter dom_def)
qed

lemma enc_gwm_found:
  assumes "good w" "enc_ok suf k" "plain w k = Some pt" "enc_get_with_metadata this_enc k w = (r, w')"
  shows "\<exists>m rd. r = Ok (m, rd) \<and> bm_key m = k \<and> read_all rd = Ok pt"
proof -
  obtain ct h where b: "blobs w k = Some ct" "blobs w (k @ suf) = Some h" "opens ct h = Some pt"
    using assms(3) by (auto simp: plain_Some)
  note k = assms(2) [unfolded enc_ok_def]
  obtain gr w1 where g: "bs_get_with_metadata st k w = (gr, w1)" by (cases "bs_get_with_metadata st k w")
  obtain m rd where rd: "gr = Ok (m, rd)" "read_all rd = Ok ct"
    using gwm_found [OF goodD(1) [OF assms(1)] _ b(1) g] all_ok k by blast
  have f: "inv w1" "blobs w1 = blobs w" using gwm_frame [OF goodD(1) [OF assms(1)] g] by auto
  obtain dr w2 where d: "enc_decrypt_stream this_enc k rd w1 = (dr, w2)"
    by (cases "enc_decrypt_stream this_enc k rd w1")
  obtain x where x: "dr = Ok x" "read_all x = Ok pt"
    using enc_decrypt_found [OF f(1) _ _ rd(2) b(3) d] all_ok [of "k @ suf"] k b(2) f(2) by auto
  have "r = Ok (\<lparr>bm_key = k, stored_size = stored_size m, modified_at = modified_at m, etag = etag m\<rparr>, x)"
    using assms(4) g rd d x k by (simp add: enc_get_with_metadata_def collision_cases io_map_err_eq)
  then show ?thesis using x by simp
qed

lemma enc_gwm_frame:
  assumes "good w" "enc_get_with_metadata this_enc k w = (r, w')"
  shows "good w' \<and> plain w' = plain w"
proof -
  obtain gr w1 where g: "bs_get_with_metadata st k w = (gr, w1)" by (cases "bs_get_with_metadata st k w")
  have f: "inv w1" "blobs w1 = blobs w" using gwm_frame [OF goodD(1) [OF assms(1)] g] by auto
  consider "w' = w" | "w' = w1" | rd x where "enc_decrypt_stream this_enc k rd w1 = (x, w')"
  proof (cases "ends_with k suf")
    case True
    then show thesis using assms(2) that(1) by (simp add: enc_get_with_metadata_def collision_cases)
  next
    case c: False
    show thesis
    proof (cases gr)
      case (Ok mr)
      obtain m rd where mr: "mr = (m, rd)" by (cases mr)
      obtain dr w2 where d: "enc_decrypt_stream this_enc k rd w1 = (dr, w2)"
        by (cases "enc_decrypt_stream this_enc k rd w1")
      then have "w' = w2" using assms(2) g Ok mr c
        by (cases dr) (simp_all add: enc_get_with_metadata_def collision_cases io_map_err_eq io_bind_eq)
      then show thesis using d that(3) by blast
    qed (use assms(2) g c that(2) in
      \<open>auto simp: enc_get_with_metadata_def collision_cases io_map_err_eq io_bind_eq\<close>)
  qed
  then have "inv w' \<and> blobs w' = blobs w"
    using enc_decrypt_frame [OF f(1)] f goodD(1) [OF assms(1)] by cases auto
  then show ?thesis using good_eq [OF assms(1)] plain_eq by blast
qed

lemma enc_meta_of_effect:
  assumes "good w" "blobs w k \<noteq> None" "enc_meta_of this_enc f k w = (r, w')"
  shows "inv w' \<and> blobs w' = blobs w \<and>
    (\<forall>ms. r = Ok ms \<longrightarrow> map bm_key ms = filter (\<lambda>k. plain w k \<noteq> None \<and> matches f k None) [k])"
proof -
  note i = goodD(1) [OF assms(1)]
  obtain x w1 where e: "bs_exists st (k @ suf) w = (x, w1)" by (cases "bs_exists st (k @ suf) w")
  have f1: "inv w1" "blobs w1 = blobs w" using exists_frame [OF i e] by auto
  obtain g w2 where g: "bs_get_with_metadata st k w1 = (g, w2)" by (cases "bs_get_with_metadata st k w1")
  have f2: "inv w2" "blobs w2 = blobs w" using gwm_frame [OF f1(1) g] f1(2) by auto
  have p: "plain w k \<noteq> None \<longleftrightarrow> \<not> ends_with k suf \<and> blobs w (k @ suf) \<noteq> None"
    using plain_complete [OF assms(1), of k] assms(2) by simp
  obtain d where d: "blobs w k = Some d" using assms(2) by blast
  have v: "ok k" using goodD(2) [OF assms(1,2)] by (rule all_ok)
  obtain m rd where m: "g = Ok (m, rd)"
    using gwm_found [OF f1(1) v _ g, of d] d f1(2) by auto
  have x: "b = (blobs w (k @ suf) \<noteq> None)" if "x = Ok b" for b
    using exists_sound [OF i, of "k @ suf" b w1] e that by simp
  have nx: "blobs w (k @ suf) = None" if "x = Err y" for y
  proof (rule ccontr)
    assume "blobs w (k @ suf) \<noteq> None"
    then have "ok (k @ suf)" using goodD(2) [OF assms(1)] all_ok by blast
    then show False using exists_iff [OF i _ e] that by simp
  qed
  consider "ends_with k suf" | "\<not> ends_with k suf" "\<not> matches f k None"
    | "\<not> ends_with k suf" "matches f k None" by blast
  then show ?thesis
  proof cases
    case 3
    show ?thesis
      by (cases x) (use assms(3) 3 e g m f1 f2 p x nx in
        \<open>auto simp: enc_meta_of_def split: if_splits\<close>)
  qed (use assms(3) i p in \<open>auto simp: enc_meta_of_def\<close>)
qed

lemma enc_metas_effect:
  assumes "good w" "\<forall>k \<in> set ks. blobs w k \<noteq> None"
    and "io_mapM (enc_meta_of this_enc f) ks w = (r, w')"
  shows "inv w' \<and> blobs w' = blobs w \<and>
    (\<forall>mss. r = Ok mss \<longrightarrow>
       map bm_key (concat mss) = filter (\<lambda>k. plain w k \<noteq> None \<and> matches f k None) ks)"
  using assms
proof (induction ks arbitrary: w r w')
  case Nil
  then show ?case using goodD(1) by auto
next
  case (Cons k ks)
  obtain x w1 where e: "enc_meta_of this_enc f k w = (x, w1)" by (cases "enc_meta_of this_enc f k w")
  have one: "inv w1 \<and> blobs w1 = blobs w \<and>
    (\<forall>ms. x = Ok ms \<longrightarrow> map bm_key ms = filter (\<lambda>k. plain w k \<noteq> None \<and> matches f k None) [k])"
    by (rule enc_meta_of_effect [OF Cons.prems(1) _ e]) (use Cons.prems(2) in simp)
  then have g: "good w1" "plain w1 = plain w" using good_eq [OF Cons.prems(1)] plain_eq by blast+
  show ?case
  proof (cases x)
    case (Ok ms)
    obtain y w2 where k: "io_mapM (enc_meta_of this_enc f) ks w1 = (y, w2)"
      by (cases "io_mapM (enc_meta_of this_enc f) ks w1")
    have ih: "inv w2 \<and> blobs w2 = blobs w1 \<and> (\<forall>mss. y = Ok mss \<longrightarrow>
        map bm_key (concat mss) = filter (\<lambda>k. plain w1 k \<noteq> None \<and> matches f k None) ks)"
      by (rule Cons.IH [OF g(1)]) (use Cons.prems(2) one k Cons.prems(3) e Ok in auto)
    have "io_mapM (enc_meta_of this_enc f) (k # ks) w = (res_bind y (\<lambda>mss. Ok (ms # mss)), w2)"
      using e Ok k by (cases y) simp_all
    then show ?thesis using Cons.prems(3) ih one Ok g(2) by (auto simp: res_bind_Ok_iff)
  qed (use Cons.prems(3) e one in auto)
qed

lemma enc_lwm_effect:
  assumes "good w" "enc_list_with_metadata this_enc f w = (r, w')"
  shows "inv w' \<and> blobs w' = blobs w \<and> (\<forall>ms. r = Ok ms \<longrightarrow> sorted (map bm_key ms) \<and>
    distinct (map bm_key ms) \<and> bm_key ` set ms = {k \<in> dom (plain w). matches f k None})"
proof -
  obtain x w1 where l: "bs_list st (suffix_filter []) w = (x, w1)" by (cases "bs_list st (suffix_filter []) w")
  have fr: "inv w1" "blobs w1 = blobs w" using list_frame [OF goodD(1) [OF assms(1)] l] by auto
  then have g: "good w1" "plain w1 = plain w" using good_eq [OF assms(1)] plain_eq by blast+
  show ?thesis
  proof (cases x)
    case (Ok ks)
    have ks: "distinct ks" "set ks = dom (blobs w)"
      using list_done [OF goodD(1) [OF assms(1)] lists_all, of ks w1] l Ok by auto
    obtain y w2 where m: "io_mapM (enc_meta_of this_enc f) ks w1 = (y, w2)"
      by (cases "io_mapM (enc_meta_of this_enc f) ks w1")
    have e: "inv w2 \<and> blobs w2 = blobs w1 \<and> (\<forall>mss. y = Ok mss \<longrightarrow>
        map bm_key (concat mss) = filter (\<lambda>k. plain w1 k \<noteq> None \<and> matches f k None) ks)"
      by (rule enc_metas_effect [OF g(1) _ m]) (use ks fr(2) in auto)
    have rw: "w' = w2" "r = res_bind y (\<lambda>mss. Ok (sort_key bm_key (concat mss)))"
      using assms(2) l Ok m by (cases y; simp add: enc_list_with_metadata_def)+
    have "sorted (map bm_key ms) \<and> distinct (map bm_key ms) \<and>
        bm_key ` set ms = {k \<in> dom (plain w). matches f k None}" if r: "r = Ok ms" for ms
    proof -
      obtain mss where y: "y = Ok mss" "ms = sort_key bm_key (concat mss)"
        using r rw(2) by (auto simp: res_bind_Ok_iff)
      then have c: "map bm_key (concat mss) = filter (\<lambda>k. plain w k \<noteq> None \<and> matches f k None) ks"
        using e g(2) by simp
      have "distinct (map bm_key (concat mss))" unfolding c using ks(1) by simp
      moreover have "bm_key ` set (concat mss) = {k \<in> dom (plain w). matches f k None}"
    proof -
      have "bm_key ` set (concat mss) = set (map bm_key (concat mss))" by (simp del: map_concat set_concat)
      also have "\<dots> = {k \<in> dom (blobs w). plain w k \<noteq> None \<and> matches f k None}"
        unfolding c by (simp add: ks(2) dom_def)
      also have "\<dots> = {k \<in> dom (plain w). matches f k None}"
        using plain_complete [OF assms(1)] by (auto simp del: not_None_eq)
      finally show ?thesis .
    qed
    moreover have "distinct (map bm_key (sort_key bm_key (concat mss)))"
      using \<open>distinct (map bm_key (concat mss))\<close> unfolding distinct_map by simp
    ultimately show ?thesis unfolding y(2) by (simp del: set_concat)
    qed
    then show ?thesis using e rw(1) fr(2) by simp
  qed (use assms(2) l fr in \<open>auto simp: enc_list_with_metadata_def\<close>)
qed

section \<open>Visit\<close>

text \<open>
  The inner walk hands out every key of the inner store; \<open>ws\<close> are those among them that reach the
  caller's visitor.
\<close>

lemma encrypt_visitor_loop:
  assumes lo: "loop_ok good plain (\<lambda>k. matches f k None) meta_for (\<lambda>c k. vis k c) J T"
    and mf: "meta_free f"
  shows "loop_ok inv blobs (\<lambda>k. matches (suffix_filter []) k None) meta_for
    (\<lambda>c k. encrypt_visitor this_enc f vis k c)
    (\<lambda>vs w v. \<exists>ws. J ws w v \<and> set ws \<subseteq> set vs \<and>
       (\<forall>k \<in> set vs. k \<in> tracked plain (\<lambda>k. matches f k None) J \<longrightarrow> k \<in> set ws))
    (\<lambda>x w v. T x w v \<and> x \<noteq> Ok True \<or> (\<exists>ws. J ws w v) \<and> (\<forall>b. x \<noteq> Ok b))"
    (is "loop_ok _ _ _ _ _ ?J ?T")
  unfolding loop_ok_def
proof (intro conjI allI impI)
  fix vs w v assume "?J vs w v"
  then show "inv w" using loop_okD(1) [OF lo] goodD(1) by blast
next
  fix vs w v k c x w' v'
  assume J: "?J vs w v" and nk: "k \<notin> set vs" and st: "blobs w k \<noteq> None"
    and mc: "\<forall>b. c = Some b \<longrightarrow> bm_key b = k"
    and call: "encrypt_visitor this_enc f vis k c (w, v) = (x, w', v')"
  obtain ws where ws: "J ws w v" "set ws \<subseteq> set vs"
      "\<forall>k \<in> set vs. k \<in> tracked plain (\<lambda>k. matches f k None) J \<longrightarrow> k \<in> set ws"
    using J by blast
  have g: "good w" by (rule loop_okD(1) [OF lo ws(1)])
  have nw: "k \<notin> set ws" using nk ws(2) by blast
  obtain y w1 where e: "bs_exists st (k @ suf) w = (y, w1)" by (cases "bs_exists st (k @ suf) w")
  have w1: "w1 = w" by (rule exists_pure [OF goodD(1) [OF g] e])
  have pass: "?J (vs @ [k]) w v" if "plain w k = None \<or> \<not> matches f k None"
  proof -
    have "k \<notin> tracked plain (\<lambda>k. matches f k None) J" using trackedD [where blobs = plain and J = J and P = "\<lambda>k. matches f k None", OF _ ws(1) nw] that by metis
    then show ?thesis using ws by (intro exI [of _ ws]) auto
  qed
  have mm: "matches f k c = matches f k None" using mf by (simp add: meta_free_def)
  consider (hdr) "ends_with k suf" | (fail) "\<not> ends_with k suf" "\<forall>b. y \<noteq> Ok b"
    | (orphan) "\<not> ends_with k suf" "y = Ok False"
    | (nomatch) "\<not> ends_with k suf" "y = Ok True" "\<not> matches f k None"
    | (call) "\<not> ends_with k suf" "y = Ok True" "matches f k None"
    by (metis (full_types))
  then show "if x = Ok True then ?J (vs @ [k]) w' v' else ?T x w' v'"
  proof cases
    case hdr
    then have "x = Ok True" "w' = w" "v' = v" using call by (simp_all add: encrypt_visitor_def)
    then show ?thesis using pass hdr by (simp add: enc_blobs_def)
  next
    case fail
    then have "(\<forall>b. x \<noteq> Ok b) \<and> w' = w \<and> v' = v"
      using call e w1 by (cases y) (auto simp: encrypt_visitor_def io_bind_eq)
    then show ?thesis using ws(1) by auto
  next
    case orphan
    then have o: "x = Ok True" "w' = w" "v' = v"
      using call e w1 by (simp_all add: encrypt_visitor_def io_bind_eq)
    have "blobs w (k @ suf) = None" using exists_sound [OF goodD(1) [OF g]] e orphan(2) by blast
    then have "plain w k = None" by (simp add: enc_blobs_def split: option.split)
    then show ?thesis using pass o by simp
  next
    case nomatch
    then have "x = Ok True" "w' = w" "v' = v"
      using call e w1 mm by (simp_all add: encrypt_visitor_def io_bind_eq)
    then show ?thesis using pass nomatch(3) by simp
  next
    case reach: call
    then have c: "vis k c (w, v) = (x, w', v')"
      using call e w1 mm by (simp add: encrypt_visitor_def io_bind_eq)
    have "blobs w (k @ suf) \<noteq> None" using exists_sound [OF goodD(1) [OF g]] e reach(2) by blast
    then have p: "plain w k \<noteq> None" using plain_complete [OF g, of k] reach(1) st by blast
    have "if x = Ok True then J (ws @ [k]) w' v' else T x w' v'"
      by (rule loop_okD(2) [OF lo ws(1) nw p reach(3) mc c])
    then show ?thesis using ws by (cases "x = Ok True") (auto intro!: exI [of _ "ws @ [k]"])
  qed
qed

lemma enc_store_simps [simp]:
  "bs_put (enc_store e) = enc_put e" "bs_get (enc_store e) = enc_get e"
  "bs_delete (enc_store e) = enc_delete e" "bs_list (enc_store e) = enc_list e"
  "bs_exists (enc_store e) = enc_exists e" "bs_visit (enc_store e) = enc_visit e"
  "bs_get_with_metadata (enc_store e) = enc_get_with_metadata e"
  "bs_list_with_metadata (enc_store e) = enc_list_with_metadata e"
  by (simp_all add: enc_store_def)

lemma enc_contract:
  "blob_ops (enc_store this_enc) good plain (enc_ok suf) (\<lambda>k. text_ok k \<and> text_ok (k @ suf)) (\<lambda>_. True)"
proof
  fix k :: key and w w' r be ks f ms bs b x d
  show "enc_ok suf k \<Longrightarrow> valid_key k" by (simp add: enc_ok_def)
next
  fix b bs and w
  show "b \<in> set bs \<Longrightarrow> \<not> enc_ok suf (bi_key b) \<Longrightarrow>
      \<exists>m. bs_put (enc_store this_enc) bs w = (Err (InvalidInput m), w)"
    by (simp add: enc_put_invalid)
next
  fix w bs res w'
  assume "good w" "\<forall>b \<in> set bs. text_ok (bi_key b) \<and> text_ok (bi_key b @ suf)"
    "bs_put (enc_store this_enc) bs w = (Ok res, w')"
  then show "good w' \<and> plain w' = put_blobs bs (plain w) \<and> (\<forall>b \<in> set bs. rd_end (bi_data b) = Eof) \<and>
      map bm_key (pr_blobs res) = map bi_key bs"
    using enc_put_effect [of w bs "Ok res" w'] by simp
next
  fix w bs pr w' k
  assume "good w" "\<forall>b \<in> set bs. text_ok (bi_key b) \<and> text_ok (bi_key b @ suf)"
    "bs_put (enc_store this_enc) bs w = (pr, w')" "k \<notin> bi_key ` set bs"
  then show "plain w' k = plain w k" using enc_put_effect [of w bs pr w'] by simp
next
  show "good w \<Longrightarrow> enc_ok suf k \<Longrightarrow> plain w k = Some d \<Longrightarrow> bs_get (enc_store this_enc) k w = (gr, w') \<Longrightarrow>
      \<exists>rd. gr = Ok rd \<and> read_all rd = Ok d" for w k d gr w'
    using enc_get_found by simp
  show "good w \<Longrightarrow> bs_get (enc_store this_enc) k w = (Ok rd, w') \<Longrightarrow> read_all rd = Ok d \<Longrightarrow>
      plain w k = Some d" for w k rd w' d
    using enc_get_sound by simp
  show "good w \<Longrightarrow> bs_get (enc_store this_enc) k w = (gr, w') \<Longrightarrow> good w' \<and> plain w' = plain w" for w k gr w'
    using enc_get_frame by simp
  show "good w \<Longrightarrow> enc_ok suf k \<Longrightarrow> bs_exists (enc_store this_enc) k w = (er, w') \<Longrightarrow>
      er = Ok (plain w k \<noteq> None)" for w k er w'
    using enc_exists_eq by simp
  show "good w \<Longrightarrow> bs_exists (enc_store this_enc) k w = (Ok ex, w') \<Longrightarrow> ex = (plain w k \<noteq> None)" for w k ex w'
    using enc_exists_sound by simp
  show "good w \<Longrightarrow> bs_exists (enc_store this_enc) k w = (er, w') \<Longrightarrow> good w' \<and> plain w' = plain w" for w k er w'
    using enc_exists_frame by simp
  show "k \<in> set ks \<Longrightarrow> \<not> enc_ok suf k \<Longrightarrow>
      \<exists>m. bs_delete (enc_store this_enc) ks w = (Err (InvalidInput m), w)" for k ks w
    using enc_delete_invalid by simp
  show "plain w' = (plain w) |` (- set ks)"
    if "good w" "bs_delete (enc_store this_enc) ks w = (Ok (), w')" for w ks w'
  proof
    fix k
    show "plain w' k = ((plain w) |` (- set ks)) k"
      using enc_delete_done [OF that(1), of ks w' k] enc_delete_frame [OF that(1), of ks "Ok ()" w'] that(2)
      by (cases "k \<in> set ks") (auto simp: restrict_map_def)
  qed
  show "good w \<Longrightarrow> bs_delete (enc_store this_enc) ks w = (Err (Batch be), w') \<Longrightarrow>
       (\<forall>k \<in> set (succeeded be). k \<in> set ks \<and> plain w' k = None) \<and>
       (\<forall>e \<in> set (errors be). ke_key e \<in> set ks) \<and>
       (\<forall>k \<in> set ks. k \<in> set (succeeded be) \<or> k \<in> ke_key ` set (errors be))" for w ks be w'
    using enc_delete_batch [of w ks be w'] by simp
  show "good w \<Longrightarrow> bs_delete (enc_store this_enc) ks w = (dr, w') \<Longrightarrow>
       good w' \<and> (\<forall>k. plain w' k = plain w k \<or> k \<in> set ks \<and> plain w' k = None)" for w ks dr w'
    using enc_delete_frame [of w ks dr w'] by simp
  show "good w \<Longrightarrow> True \<Longrightarrow> bs_list (enc_store this_enc) f w = (Ok ks, w') \<Longrightarrow>
       sorted ks \<and> distinct ks \<and> set ks = {k \<in> dom (plain w). matches f k None}" for w f ks w'
    using enc_list_done [of w f ks w'] by simp
  show "good w \<Longrightarrow> bs_list (enc_store this_enc) f w = (lr, w') \<Longrightarrow> good w' \<and> plain w' = plain w" for w f lr w'
    using enc_list_frame [of w f lr w'] by simp
  show "good w \<Longrightarrow> enc_ok suf k \<Longrightarrow> plain w k = Some d \<Longrightarrow>
       bs_get_with_metadata (enc_store this_enc) k w = (mr, w') \<Longrightarrow>
       \<exists>m rd. mr = Ok (m, rd) \<and> bm_key m = k \<and> read_all rd = Ok d" for w k d mr w'
    using enc_gwm_found by simp
  show "good w \<Longrightarrow> bs_get_with_metadata (enc_store this_enc) k w = (mr, w') \<Longrightarrow>
      good w' \<and> plain w' = plain w" for w k mr w'
    using enc_gwm_frame by simp
  show "good w \<Longrightarrow> True \<Longrightarrow> meta_free f \<Longrightarrow> bs_list_with_metadata (enc_store this_enc) f w = (Ok ms, w') \<Longrightarrow>
       sorted (map bm_key ms) \<and> distinct (map bm_key ms) \<and>
       bm_key ` set ms = {k \<in> dom (plain w). matches f k None}" for w f ms w'
    using enc_lwm_effect [of w f "Ok ms" w'] by simp
  show "good w \<Longrightarrow> bs_list_with_metadata (enc_store this_enc) f w = (nr, w') \<Longrightarrow> good w' \<and> plain w' = plain w"
    for w f nr w'
    using enc_lwm_effect [of w f nr w'] good_eq [of w w'] plain_eq [of w' w] by simp
qed

end

sublocale encryption_layer \<subseteq> es: blob_ops "enc_store this_enc" good plain "enc_ok suf"
  "\<lambda>k. text_ok k \<and> text_ok (k @ suf)" "\<lambda>_. True"
  by (rule enc_contract)

text \<open>Over a store that looks at each key when it hands it out, the layer does so too.\<close>

locale encryption_visit_layer = encryption_layer + blob_contract
begin

lemma enc_visit_run:
  assumes lo: "loop_ok good plain (\<lambda>k. matches f k None) meta_for (\<lambda>c k. vis k c) J T"
    and mf: "meta_free f" and J: "J [] w v" and run: "enc_visit this_enc f vis (w, v) = (r, (w', v'))"
  shows "loop_end plain (\<lambda>k. matches f k None) J T r w' v'"
proof -
  let ?P = "\<lambda>k. matches f k None"
  let ?J = "\<lambda>vs w v. \<exists>ws. J ws w v \<and> set ws \<subseteq> set vs \<and>
       (\<forall>k \<in> set vs. k \<in> tracked plain ?P J \<longrightarrow> k \<in> set ws)"
  let ?T = "\<lambda>x w v. T x w v \<and> x \<noteq> Ok True \<or> (\<exists>ws. J ws w v) \<and> (\<forall>b. x \<noteq> Ok b)"
  have mf': "meta_free (suffix_filter [])" by (simp add: meta_free_def)
  have "?J [] w v" using J by (intro exI [of _ "[]"]) simp
  from visit_rule [OF encrypt_visitor_loop [OF lo mf] lists_all mf' this run [unfolded enc_visit_def, simplified]]
  have end_: "loop_end blobs (\<lambda>k. matches (suffix_filter []) k None) ?J ?T r w' v'" .
  then consider (done_) vs where "?J vs w' v'"
      "r = Ok () \<longrightarrow> tracked blobs (\<lambda>k. matches (suffix_filter []) k None) ?J \<subseteq> set vs"
    | (stop) x where "?T x w' v'" "x \<noteq> Ok True" "r = res_bind x (\<lambda>_. Ok ())"
    unfolding loop_end_def by blast
  then show ?thesis
  proof cases
    case done_
    then obtain ws where ws: "J ws w' v'" "\<forall>k \<in> set vs. k \<in> tracked plain ?P J \<longrightarrow> k \<in> set ws" by blast
    have "tracked plain ?P J \<subseteq> set ws" if "r = Ok ()"
    proof
      fix k assume k: "k \<in> tracked plain ?P J"
      have st: "blobs w k \<noteq> None" if "?J vs w v" "k \<notin> set vs" for vs w v
      proof -
        obtain ws where "J ws w v" "k \<notin> set ws" using \<open>?J vs w v\<close> \<open>k \<notin> set vs\<close> by blast
        then have "plain w k \<noteq> None" using trackedD [OF k] by blast
        then show ?thesis by (auto simp: enc_blobs_def split: if_splits option.splits)
      qed
      then have "k \<in> tracked blobs (\<lambda>k. matches (suffix_filter []) k None) ?J"
        unfolding tracked_def mem_Collect_eq using st by (intro conjI allI impI) (simp, blast)
      then show "k \<in> set ws" using done_(2) \<open>r = Ok ()\<close> ws(2) k by blast
    qed
    then show ?thesis unfolding loop_end_def using ws(1) by blast
  next
    case stop
    show ?thesis
    proof (cases "T x w' v'")
      case True
      then show ?thesis unfolding loop_end_def using stop by blast
    next
      case False
      then obtain ws where "J ws w' v'" "\<forall>b. x \<noteq> Ok b" using stop(1) by blast
      moreover from this(2) have "r \<noteq> Ok ()" using stop(3) by (cases x) auto
      ultimately show ?thesis unfolding loop_end_def by blast
    qed
  qed
qed

lemma enc_visit_contract:
  "blob_contract (enc_store this_enc) good plain (enc_ok suf) (\<lambda>k. text_ok k \<and> text_ok (k @ suf)) (\<lambda>_. True)"
proof (intro blob_contract.intro enc_contract blob_contract_axioms.intro)
  show "loop_ok good plain (\<lambda>k. matches f k None) meta_for (\<lambda>c k. vis k c) J T \<Longrightarrow> True \<Longrightarrow>
       meta_free f \<Longrightarrow> J [] w v \<Longrightarrow> bs_visit (enc_store this_enc) f vis (w, v) = (vr, (w', v')) \<Longrightarrow>
       loop_end plain (\<lambda>k. matches f k None) J T vr w' v'" for f vis J T w v vr w' v'
    using enc_visit_run [of f vis J T w v vr w' v'] by simp
qed

end

sublocale encryption_visit_layer \<subseteq> es: blob_contract "enc_store this_enc" good plain "enc_ok suf"
  "\<lambda>k. text_ok k \<and> text_ok (k @ suf)" "\<lambda>_. True"
  by (rule enc_visit_contract)

end
