(* ===== verification/Rekey.thy ===== *)
theory Rekey
  imports Encrypt_Contract
begin

text \<open>
  Re-keying (\<open>EncryptedBlobStore::rekey\<close> and \<open>RekeyVisitor\<close>): every header is offered to the provider
  and replaced when the provider has a new one. \<open>newh h\<close> is what the provider makes of the header
  \<open>h\<close>; the locale's further hypotheses are that a new header opens what the old one did, as the
  provider's documentation asks, and that overwriting a stored blob of the inner store succeeds.
\<close>

definition headers :: "string \<Rightarrow> ('w \<Rightarrow> key \<Rightarrow> bytes option) \<Rightarrow> 'w \<Rightarrow> key set" where
  "headers suf blobs w = {k \<in> dom (blobs w). ends_with k suf}"

text \<open>The store after the headers in \<open>ks\<close> have been replaced.\<close>

definition rekeyed ::
  "(bytes \<Rightarrow> bytes option) \<Rightarrow> key set \<Rightarrow> (key \<Rightarrow> bytes option) \<Rightarrow> key \<Rightarrow> bytes option"
where
  "rekeyed newh ks m k = (if k \<in> ks then Option.bind (m k) newh else m k)"

definition rekey_ok ::
  "('w \<Rightarrow> bool) \<Rightarrow> ('w \<Rightarrow> key \<Rightarrow> bytes option) \<Rightarrow> 'w encryption_provider \<Rightarrow>
   (bytes \<Rightarrow> bytes \<Rightarrow> bytes option) \<Rightarrow> (bytes \<Rightarrow> bytes option) \<Rightarrow> bool"
where
  "rekey_ok Inv blobs enc opens newh \<longleftrightarrow>
     (\<forall>h w x w'. Inv w \<longrightarrow> ep_rekey_header enc h w = (x, w') \<longrightarrow>
        Inv w' \<and> blobs w' = blobs w \<and> (x = Ok (newh h) \<or> (\<exists>e. x = Err e))) \<and>
     (\<forall>h h' ct pt. newh h = Some h' \<longrightarrow> opens ct h = Some pt \<longrightarrow> opens ct h' = Some pt)"

locale rekey_layer = encryption_layer st inv blobs ok text_ok filter_ok enc suf timeout opens +
    steady_contract st inv blobs ok text_ok filter_ok
  for st :: "('w, u64) blob_store" and inv blobs ok text_ok filter_ok enc suf timeout opens +
  fixes newh :: "bytes \<Rightarrow> bytes option"
  assumes rekeying: "rekey_ok inv blobs enc opens newh"
    and overwrite_ok:
      "inv w \<Longrightarrow> ok k \<Longrightarrow> blobs w k \<noteq> None \<Longrightarrow> rd_end rd = Eof \<Longrightarrow>
       \<exists>res w'. bs_put st [blob_input_with_size k rd n] w = (Ok res, w')"
    and stored_text: "inv w \<Longrightarrow> blobs w k \<noteq> None \<Longrightarrow> text_ok k"
    and lists_headers: "filter_ok (suffix_filter suf)"
begin

lemma rekey_outcome:
  "inv w \<Longrightarrow> ep_rekey_header enc h w = (x, w') \<Longrightarrow>
   inv w' \<and> blobs w' = blobs w \<and> (x = Ok (newh h) \<or> (\<exists>e. x = Err e))"
  using rekeying unfolding rekey_ok_def by metis

lemma rekey_opens: "newh h = Some h' \<Longrightarrow> opens ct h = Some pt \<Longrightarrow> opens ct h' = Some pt"
  using rekeying unfolding rekey_ok_def by metis

lemma rekeyed_dom:
  assumes "\<forall>k \<in> S. m k \<noteq> None \<and> newh (the (m k)) \<noteq> None"
  shows "rekeyed newh S m k = None \<longleftrightarrow> m k = None"
  using assms by (auto simp: rekeyed_def bind_eq_None_conv)

text \<open>A store whose headers were partly replaced holds the same plaintext.\<close>

lemma rekeyed_plain:
  assumes "good w" "inv w'" "S \<subseteq> headers suf blobs w" "\<forall>k \<in> S. newh (the (blobs w k)) \<noteq> None"
    and "blobs w' = rekeyed newh S (blobs w)"
  shows "good w' \<and> plain w' = plain w"
proof -
  have st: "\<forall>k \<in> S. blobs w k \<noteq> None \<and> newh (the (blobs w k)) \<noteq> None"
    using assms(3,4) by (auto simp: headers_def)
  note dom = rekeyed_dom [OF st, folded assms(5)]
  have data: "blobs w' k = blobs w k" if "\<not> ends_with k suf" for k
    using that assms(3) unfolding assms(5) by (auto simp: rekeyed_def headers_def)
  have hdr: "opens ct h' = opens ct h"
    if k: "\<not> ends_with k suf" "blobs w k = Some ct" "blobs w (k @ suf) = Some h"
      "blobs w' (k @ suf) = Some h'" for k ct h h'
  proof (cases "k @ suf \<in> S")
    case True
    then have "newh h = Some h'" using k(3,4) unfolding assms(5) by (simp add: rekeyed_def)
    then show ?thesis using rekey_opens goodD(3) [OF assms(1) k(1,2,3)] by fastforce
  next
    case False
    then show ?thesis using k(3,4) unfolding assms(5) by (simp add: rekeyed_def)
  qed
  have g: "good w'"
    unfolding enc_inv_def
  proof (intro conjI allI impI)
    show "valid_key k" if "blobs w' k \<noteq> None" for k using goodD(2) [OF assms(1), of k] dom [of k] that by simp
    fix k ct h'
    assume c: "\<not> ends_with k suf" "blobs w' k = Some ct" "blobs w' (k @ suf) = Some h'"
    show "opens ct h' \<noteq> None"
    proof -
      have ct: "blobs w k = Some ct" using data c(1,2) by simp
      obtain h where "blobs w (k @ suf) = Some h" using dom [of "k @ suf"] c(3) by auto
      then show ?thesis using hdr [OF c(1) ct] goodD(3) [OF assms(1) c(1) ct] c(3) by metis
    qed
  qed (rule assms(2))
  have "plain w' k = plain w k" for k
  proof (cases "ends_with k suf")
    case True
    then show ?thesis by (simp add: enc_blobs_def)
  next
    case False
    show ?thesis
    proof (cases "blobs w (k @ suf)")
      case None
      then show ?thesis using dom [of "k @ suf"] by (simp add: enc_blobs_def split: option.split)
    next
      case (Some h)
      then obtain h' where "blobs w' (k @ suf) = Some h'" using dom [of "k @ suf"] by auto
      then show ?thesis
        using False Some hdr [OF False _ Some] data [OF False] by (auto simp: enc_blobs_def split: option.split)
    qed
  qed
  then show ?thesis using g by blast
qed

text \<open>One call of the visitor.\<close>

lemma rekey_visitor_step:
  assumes i: "inv w" and k: "ok k" and b: "blobs w k = Some h"
    and call: "rekey_visitor st enc k c (w, n) = (x, (w', n'))"
  shows "x = Ok True \<and> inv w' \<and> (blobs w' = blobs w \<and> n' = n \<and> (newh h = None \<or> (\<exists>e w1 w2. ep_rekey_header enc h w1 = (Err e, w2))) \<or>
    (\<exists>h'. newh h = Some h' \<and> blobs w' = (blobs w)(k \<mapsto> h') \<and> n' = n + 1))"
proof -
  obtain gr w1 where g: "bs_get st k w = (gr, w1)" by (cases "bs_get st k w")
  obtain rd where rd: "gr = Ok rd" "read_all rd = Ok h" using get_found [OF i k b g] by blast
  have f1: "inv w1" "blobs w1 = blobs w" using get_frame [OF i g] by auto
  obtain y w2 where r: "ep_rekey_header enc h w1 = (y, w2)" by (cases "ep_rekey_header enc h w1")
  have f2: "inv w2" "blobs w2 = blobs w" "y = Ok (newh h) \<or> (\<exists>e. y = Err e)"
    using rekey_outcome [OF f1(1) r] f1(2) by auto
  consider (err) e where "y = Err e" | (none) "y = Ok None" "newh h = None"
    | (new) h' where "y = Ok (Some h')" "newh h = Some h'"
    using f2(3) by (cases "newh h") auto
  then show ?thesis
  proof cases
    case err
    then have "x = Ok True" "w' = w2" "n' = n"
      using call g rd r by (simp_all add: rekey_visitor_def io_map_err_eq io_bind_eq)
    then show ?thesis using f2 r err by auto
  next
    case none
    then have "x = Ok True" "w' = w2" "n' = n"
      using call g rd r by (simp_all add: rekey_visitor_def io_map_err_eq io_bind_eq)
    then show ?thesis using f2 none by auto
  next
    case new
    let ?b = "blob_input_with_size k (reader_of h') (len64 h)"
    obtain res w3 where p: "bs_put st [?b] w2 = (Ok res, w3)"
      using overwrite_ok [OF f2(1) k, of "reader_of h'" "len64 h"] f2(2) b
      by (auto simp: reader_of_def)
    have "x = Ok True" "w' = w3" "n' = n + 1"
      using call g rd r new p by (simp_all add: rekey_visitor_def io_map_err_eq io_bind_eq)
    moreover have "text_ok k" using stored_text [OF i, of k] b by simp
    note ps = put_single [OF f2(1) this p]
    ultimately show ?thesis using ps(1) ps(3) [OF refl] f2(2) new(2) by simp
  qed
qed

definition rekey_J :: "'w \<Rightarrow> key list \<Rightarrow> 'w \<Rightarrow> u64 \<Rightarrow> bool" where
  "rekey_J w0 vs w n \<longleftrightarrow> inv w \<and> (\<exists>rs. distinct rs \<and> set rs \<subseteq> set vs \<and> set rs \<subseteq> headers suf blobs w0 \<and>
     (\<forall>k \<in> set rs. newh (the (blobs w0 k)) \<noteq> None) \<and> n = of_nat (length rs) \<and>
     blobs w = rekeyed newh (set rs) (blobs w0) \<and>
     ((\<forall>h w e w'. ep_rekey_header enc h w \<noteq> (Err e, w')) \<longrightarrow>
        (\<forall>k \<in> set vs. newh (the (blobs w0 k)) \<noteq> None \<longrightarrow> k \<in> set rs)))"

lemma rekey_J_stored:
  assumes "rekey_J w0 vs w n"
  shows "blobs w k = None \<longleftrightarrow> blobs w0 k = None"
    and "k \<notin> set vs \<Longrightarrow> blobs w k = blobs w0 k"
proof -
  obtain rs where rs: "set rs \<subseteq> set vs" "set rs \<subseteq> headers suf blobs w0"
      "\<forall>k \<in> set rs. newh (the (blobs w0 k)) \<noteq> None" "blobs w = rekeyed newh (set rs) (blobs w0)"
    using assms unfolding rekey_J_def by blast
  show "blobs w k = None \<longleftrightarrow> blobs w0 k = None"
    unfolding rs(4) by (rule rekeyed_dom) (use rs(2,3) in \<open>auto simp: headers_def\<close>)
  show "k \<notin> set vs \<Longrightarrow> blobs w k = blobs w0 k" unfolding rs(4) using rs(1) by (auto simp: rekeyed_def)
qed

lemma rekey_J_steady: "steady P blobs (rekey_J w0)"
  unfolding steady_def by (metis rekey_J_stored(1))

lemma rekey_loop:
  assumes g: "good w0"
  shows "loop_ok inv blobs (\<lambda>k. matches (suffix_filter suf) k None) meta_for
    (\<lambda>c k. rekey_visitor st enc k c) (rekey_J w0) (\<lambda>_ _ _. False)"
proof (rule loop_okI)
  show "inv w" if "rekey_J w0 vs w n" for vs w n using that by (simp add: rekey_J_def)
next
  fix vs w n k and c :: "blob_meta option" and w' n'
  assume J: "rekey_J w0 vs w n" and nk: "k \<notin> set vs" and st: "blobs w k \<noteq> None"
    and m: "matches (suffix_filter suf) k None"
    and call: "rekey_visitor st enc k c (w, n) = (Ok True, (w', n'))"
  have i: "inv w" using J by (simp add: rekey_J_def)
  have same: "blobs w k = blobs w0 k" by (rule rekey_J_stored(2) [OF J nk])
  obtain h where h: "blobs w k = Some h" using st by blast
  have ok: "ok k" using goodD(2) [OF g, of k] st same all_ok by simp
  have hd: "k \<in> headers suf blobs w0" using st same m by (auto simp: headers_def)
  obtain rs where rs: "distinct rs" "set rs \<subseteq> set vs" "set rs \<subseteq> headers suf blobs w0"
      "\<forall>k \<in> set rs. newh (the (blobs w0 k)) \<noteq> None" "n = of_nat (length rs)"
      "blobs w = rekeyed newh (set rs) (blobs w0)"
      "(\<forall>h w e w'. ep_rekey_header enc h w \<noteq> (Err e, w')) \<longrightarrow>
        (\<forall>k \<in> set vs. newh (the (blobs w0 k)) \<noteq> None \<longrightarrow> k \<in> set rs)"
    using J unfolding rekey_J_def by blast
  have h0: "the (blobs w0 k) = h" using h same by simp
  have nr: "k \<notin> set rs" using rs(2) nk by blast
  consider (kept) "blobs w' = blobs w" "n' = n" "inv w'"
      "newh h = None \<or> (\<exists>e w1 w2. ep_rekey_header enc h w1 = (Err e, w2))"
    | (new) h' where "newh h = Some h'" "blobs w' = (blobs w)(k \<mapsto> h')" "n' = n + 1" "inv w'"
    using rekey_visitor_step [OF i ok h call] by blast
  then show "rekey_J w0 (vs @ [k]) w' n'"
  proof cases
    case kept
    show ?thesis
      unfolding rekey_J_def
      by (intro conjI kept(3) exI [of _ rs]) (use rs kept h0 in auto)
  next
    case new
    have b: "blobs w' = rekeyed newh (set (rs @ [k])) (blobs w0)"
      unfolding new(2) rs(6) using new(1) h same nr by (auto simp: rekeyed_def fun_eq_iff)
    have len: "n' = of_nat (length (rs @ [k]))" using new(3) rs(5) by simp
    have nn: "\<forall>k \<in> set (rs @ [k]). newh (the (blobs w0 k)) \<noteq> None" using rs(4) new(1) h0 by simp
    have sub: "set (rs @ [k]) \<subseteq> set (vs @ [k])" "set (rs @ [k]) \<subseteq> headers suf blobs w0"
      using rs(2,3) hd by auto
    have all: "(\<forall>h w e w'. ep_rekey_header enc h w \<noteq> (Err e, w')) \<longrightarrow>
        (\<forall>k' \<in> set (vs @ [k]). newh (the (blobs w0 k')) \<noteq> None \<longrightarrow> k' \<in> set (rs @ [k]))"
      using rs(7) by auto
    have "distinct (rs @ [k])" using rs(1) nr by simp
    then show ?thesis unfolding rekey_J_def using new(4) b len nn sub all by blast
  qed
next
  fix vs w n k and c :: "blob_meta option" and x w' n'
  assume J: "rekey_J w0 vs w n" and nk: "k \<notin> set vs" and st: "blobs w k \<noteq> None"
    and call: "rekey_visitor st enc k c (w, n) = (x, (w', n'))" and x: "x \<noteq> Ok True"
  have i: "inv w" using J by (simp add: rekey_J_def)
  have same: "blobs w k = blobs w0 k" by (rule rekey_J_stored(2) [OF J nk])
  obtain h where h: "blobs w k = Some h" using st by blast
  have ok: "ok k" using goodD(2) [OF g, of k] st same all_ok by simp
  show False using rekey_visitor_step [OF i ok h call] x by blast
qed

text \<open>
  Whatever \<open>rekey\<close> returns, the plaintext is what it was; the count is the number of headers that
  were replaced, each by what the provider makes of it; and when it succeeds with a provider that
  answers every request, these are all the headers the provider has a new one for.
\<close>

lemma rekey_effect:
  assumes g: "good w" and run: "enc_rekey this_enc w = (r, w')"
  shows "good w' \<and> plain w' = plain w \<and>
    (\<exists>rs. distinct rs \<and> set rs \<subseteq> headers suf blobs w \<and> blobs w' = rekeyed newh (set rs) (blobs w) \<and>
       (\<forall>res. r = Ok res \<longrightarrow> rekeyed_count res = of_nat (length rs) \<and>
          ((\<forall>h w e w'. ep_rekey_header enc h w \<noteq> (Err e, w')) \<longrightarrow>
             set rs = {k \<in> headers suf blobs w. newh (the (blobs w k)) \<noteq> None})))"
proof -
  let ?P = "\<lambda>k. matches (suffix_filter suf) k None"
  obtain x w1 n where v: "bs_visit st (suffix_filter suf) (rekey_visitor st enc) (w, 0) = (x, (w1, n))"
    by (metis surj_pair)
  have rw: "w' = w1" "r = res_bind x (\<lambda>_. Ok \<lparr>rekeyed_count = n\<rparr>)"
    using run v by (simp_all add: enc_rekey_def)
  have J0: "rekey_J w [] w 0"
    unfolding rekey_J_def using goodD(1) [OF g] by (intro conjI exI [of _ "[]"]) (auto simp: rekeyed_def)
  have mf: "meta_free (suffix_filter suf)" by (simp add: meta_free_def)
  have "loop_end blobs ?P (rekey_J w) (\<lambda>_ _ _. False) x w1 n"
    by (rule steady_visit_rule [OF rekey_loop [OF g] rekey_J_steady lists_headers mf J0 v])
  then obtain vs where J: "rekey_J w vs w1 n" and tr: "x = Ok () \<longrightarrow> tracked blobs ?P (rekey_J w) \<subseteq> set vs"
    unfolding loop_end_def by blast
  have hs: "headers suf blobs w \<subseteq> tracked blobs ?P (rekey_J w)"
  proof
    fix k assume k: "k \<in> headers suf blobs w"
    have "blobs w2 k \<noteq> None" if "rekey_J w vs2 w2 n2" for vs2 w2 n2
      using rekey_J_stored(1) [OF that, of k] k by (auto simp: headers_def)
    then show "k \<in> tracked blobs ?P (rekey_J w)"
      using k unfolding tracked_def headers_def by auto
  qed
  obtain rs where rs: "distinct rs" "set rs \<subseteq> set vs" "set rs \<subseteq> headers suf blobs w"
      "\<forall>k \<in> set rs. newh (the (blobs w k)) \<noteq> None" "n = of_nat (length rs)"
      "blobs w1 = rekeyed newh (set rs) (blobs w)"
      "(\<forall>h w e w'. ep_rekey_header enc h w \<noteq> (Err e, w')) \<longrightarrow>
        (\<forall>k \<in> set vs. newh (the (blobs w k)) \<noteq> None \<longrightarrow> k \<in> set rs)"
    using J unfolding rekey_J_def by blast
  have i1: "inv w1" using J by (simp add: rekey_J_def)
  have all: "set rs = {k \<in> headers suf blobs w. newh (the (blobs w k)) \<noteq> None}"
    if "x = Ok ()" "\<forall>h w e w'. ep_rekey_header enc h w \<noteq> (Err e, w')"
    using rs(3,4,7) that tr hs by blast
  have "\<forall>res. r = Ok res \<longrightarrow> rekeyed_count res = of_nat (length rs) \<and>
          ((\<forall>h w e w'. ep_rekey_header enc h w \<noteq> (Err e, w')) \<longrightarrow>
             set rs = {k \<in> headers suf blobs w. newh (the (blobs w k)) \<noteq> None})"
    using rw(2) rs(5) all by (auto simp: res_bind_Ok_iff)
  then show ?thesis
    using rekeyed_plain [OF g i1 rs(3,4,6)] rs(1,3,6) rw(1) by blast
qed

end

end
