(* ===== verification/Encrypt_Fs.thy ===== *)
theory Encrypt_Fs
  imports Rekey Fs_Progress
begin

text \<open>
  The encryption layer over the filesystem backend: the layer's locales on the backend's definitions,
  for every provider that meets \<open>provider_ok\<close>; and one provider that does, an envelope scheme on
  single bytes, on which the properties are exercised.
\<close>

unbundle bit_operations_syntax

section \<open>Any sound provider\<close>

lemma fs_overwrite:
  assumes "fs_inv self w" "valid_key k" "fs_blobs self w k \<noteq> None" "rd_end rd = Eof"
  shows "\<exists>res w'. fs_put self [blob_input_with_size k rd n] w = (Ok res, w')"
proof -
  have "room_for self w k" by (rule stored_room [OF assms(1,3)])
  then show ?thesis
    using fs_put_single_succeeds [OF assms(1), of "blob_input_with_size k rd n"] assms(2,4)
    by (auto simp: blob_input_with_size_def)
qed

lemma fs_encryption:
  assumes "provider_ok (fs_inv self) (fs_blobs self) enc opens"
  shows "encryption_layer (fs_store fuel self :: ('z fsys_scheme, 'v) blob_store) (fs_inv self) (fs_blobs self)
    valid_key utf8 fs_filter_ok enc opens"
proof unfold_locales
  show "fs_filter_ok (suffix_filter [])"
    by (simp add: fs_filter_ok_def hint_clean_def hint_dir_def)
  show "bs_exists (fs_store fuel self) k w = (x, w') \<Longrightarrow> w' = w" for k x and w w' :: "'z fsys_scheme"
    using read_only_eq [OF fs_exists_read_only] by simp
qed (use assms in auto)

lemma fs_encryption_visit:
  assumes "provider_ok (fs_inv self) (fs_blobs self) enc opens"
  shows "encryption_visit_layer (fs_store fuel self :: ('z fsys_scheme, 'v) blob_store) (fs_inv self) (fs_blobs self)
    valid_key utf8 fs_filter_ok enc opens"
  by (intro encryption_visit_layer.intro fs_encryption [OF assms] fs.blob_contract_axioms)

lemma fs_rekeying:
  assumes "provider_ok (fs_inv self) (fs_blobs self) enc opens"
    and "rekey_ok (fs_inv self) (fs_blobs self) enc opens newh"
  shows "rekey_layer (fs_store fuel self :: ('z fsys_scheme, u64) blob_store) (fs_inv self) (fs_blobs self)
    valid_key utf8 fs_filter_ok enc suf opens newh"
proof -
  show ?thesis
  proof (intro rekey_layer.intro rekey_layer_axioms.intro fs_encryption [OF assms(1)]
      fs.steady.steady_contract_axioms)
    show "fs_filter_ok (suffix_filter suf)"
      by (simp add: fs_filter_ok_def hint_clean_def hint_dir_def)
    show "utf8 k" if "fs_inv self w" "fs_blobs self w k \<noteq> None" for k and w :: "'z fsys_scheme"
      using fs_invD(5) [OF that(1), of "key_parts k"] that(2)
      by (simp add: fs_blobs_None key_place_def)
    show "\<exists>res w'. bs_put (fs_store fuel self) [blob_input_with_size k rd n] w = (Ok res, w')"
      if "fs_inv self w" "valid_key k" "fs_blobs self w k \<noteq> None" "rd_end rd = Eof"
      for k rd n and w :: "'z fsys_scheme"
      using fs_overwrite [OF that] by simp
  qed (rule assms(2))
qed

section \<open>An envelope scheme\<close>

text \<open>
  The data key \<open>dk\<close> is a byte that is combined with every byte of the stream; the header holds the
  version of the key-encryption key and the data key under it. \<open>kek v\<close> is the key-encryption key of
  version \<open>v\<close>, \<open>cur\<close> the current version.
\<close>

definition seal :: "u8 \<Rightarrow> bytes \<Rightarrow> bytes" where
  "seal k = map (\<lambda>b. b XOR k)"

definition envelope_opens :: "(u8 \<Rightarrow> u8) \<Rightarrow> bytes \<Rightarrow> bytes \<Rightarrow> bytes option" where
  "envelope_opens kek ct h = (case h of [v, e] \<Rightarrow> Some (seal (e XOR kek v) ct) | _ \<Rightarrow> None)"

definition envelope_rekey :: "(u8 \<Rightarrow> u8) \<Rightarrow> u8 \<Rightarrow> bytes \<Rightarrow> bytes option" where
  "envelope_rekey kek cur h =
     (case h of [v, e] \<Rightarrow> if v = cur then None else Some [cur, e XOR kek v XOR kek cur] | _ \<Rightarrow> None)"

definition envelope_encryption :: "(u8 \<Rightarrow> u8) \<Rightarrow> u8 \<Rightarrow> u8 \<Rightarrow> 'w encryption_provider" where
  "envelope_encryption kek cur dk =
     \<lparr>ep_encrypt_stream = (\<lambda>input w.
        (case read_all input of
           Ok buf \<Rightarrow> ((reader_of (seal dk buf), Completes 0 (TaskOk [cur, dk XOR kek cur])), w)
         | Err e \<Rightarrow> ((reader_of [], Completes 0 (TaskErr (EncIo e))), w)
         | Hang \<Rightarrow> ((\<lparr>rd_chunks = [], rd_end = Stalls\<rparr>, Pending), w))),
      ep_decrypt_stream = (\<lambda>input header w.
        (case read_all input of
           Ok ct \<Rightarrow>
             (case envelope_opens kek ct header of
                Some pt \<Rightarrow> (\<lparr>dr_chunks = [pt], dr_end = DecryptOk, dr_closed_early = False\<rparr>, w)
              | None \<Rightarrow> (\<lparr>dr_chunks = [], dr_end = DecryptErr (InvalidHeader ''length''),
                  dr_closed_early = False\<rparr>, w))
         | Err e \<Rightarrow> (\<lparr>dr_chunks = [], dr_end = DecryptErr (EncIo e), dr_closed_early = False\<rparr>, w)
         | Hang \<Rightarrow> (\<lparr>dr_chunks = [], dr_end = DecryptPending, dr_closed_early = False\<rparr>, w))),
      ep_rekey_header = (\<lambda>header. io_ret (envelope_rekey kek cur header))\<rparr>"

lemma seal_seal [simp]: "seal k (seal k xs) = xs"
  by (induction xs) (simp_all add: seal_def xor.assoc)

lemma envelope_rekey_opens:
  "envelope_rekey kek cur h = Some h' \<Longrightarrow> envelope_opens kek ct h = Some pt \<Longrightarrow>
   envelope_opens kek ct h' = Some pt"
  by (auto simp: envelope_rekey_def envelope_opens_def xor.assoc split: list.splits if_splits)

lemma envelope_ok: "provider_ok Inv blobs (envelope_encryption kek cur dk) (envelope_opens kek)"
proof -
  have o: "envelope_opens kek (seal dk xs) [cur, dk XOR kek cur] = Some xs" for xs
    by (simp add: envelope_opens_def xor.assoc)
  show ?thesis
    unfolding provider_ok_def envelope_encryption_def
    by (auto simp: o read_all_def split: stream_end.splits option.splits)
qed

lemma envelope_rekey_ok:
  "rekey_ok Inv blobs (envelope_encryption kek cur dk) (envelope_opens kek) (envelope_rekey kek cur)"
  unfolding rekey_ok_def by (auto simp: envelope_encryption_def intro: envelope_rekey_opens)

interpretation evfs: encryption_visit_layer "fs_store fuel self" "fs_inv self" "fs_blobs self" valid_key utf8
  fs_filter_ok "envelope_encryption kek cur dk" suf timeout "envelope_opens kek"
  for fuel self kek cur dk suf timeout
  by (rule fs_encryption_visit [OF envelope_ok])

interpretation efs: rekey_layer "fs_store fuel self" "fs_inv self" "fs_blobs self" valid_key utf8 fs_filter_ok
  "envelope_encryption kek cur dk" suf timeout "envelope_opens kek" "envelope_rekey kek cur"
  for fuel self kek cur dk suf timeout
  by (rule fs_rekeying [OF envelope_ok envelope_rekey_ok])

end
