(* ===== verification/Encrypt_Properties.thy ===== *)
theory Encrypt_Properties
  imports Encrypt_Fs Examples
begin

text \<open>
  The properties of the encryption layer over the filesystem backend, for every provider that meets
  \<open>provider_ok\<close>, each with an instance for the envelope scheme of \<open>Encrypt_Fs\<close>.
\<close>

abbreviation encrypted ::
  "nat \<Rightarrow> fs_blob_store \<Rightarrow> 'z fsys_scheme encryption_provider \<Rightarrow> string \<Rightarrow> nat \<Rightarrow>
   ('z fsys_scheme, u64) encrypted_blob_store"
where
  "encrypted fuel self enc suf timeout \<equiv>
     \<lparr>ebs_inner = fs_store fuel self, ebs_encryption = enc, ebs_header_suffix = suf,
      ebs_header_completion_timeout = timeout\<rparr>"

definition demo_kek :: "u8 \<Rightarrow> u8" where
  "demo_kek v = v * 3 + 1"

abbreviation demo_enc :: "(fsys, u64) encrypted_blob_store" where
  "demo_enc \<equiv> encrypted 9 demo_store (envelope_encryption demo_kek 2 7) ''.h'' 1000"

abbreviation demo_plain :: "fsys \<Rightarrow> key \<Rightarrow> bytes option" where
  "demo_plain \<equiv> enc_blobs ''.h'' (envelope_opens demo_kek) (fs_blobs demo_store)"

lemma demo_good: "enc_inv ''.h'' (envelope_opens demo_kek) (fs_inv demo_store) (fs_blobs demo_store) demo_fs"
proof -
  have p: "key_place demo_store k = ''d'' # key_parts k" for k
  proof -
    have "path_comps ''/d/'' = [''d'']" by code_simp
    then show ?thesis by (simp add: key_place_def demo_store_def)
  qed
  have b: "fs_blobs demo_store demo_fs k \<noteq> None \<Longrightarrow> key_parts k = [''a''] \<or> key_parts k = [''s'', ''b'']" for k
    by (auto simp: fs_blobs_def p node_at_def demo_fs_def split: option.splits node.splits if_splits)
  have k: "k = ''a'' \<or> k = ''s/b''" if "fs_blobs demo_store demo_fs k \<noteq> None" for k
  proof -
    have "k = join_with KEY_SEPARATOR (key_parts k)" by simp
    then show ?thesis using b [OF that] by (auto simp del: join_split simp: KEY_SEPARATOR_def)
  qed
  have v: "valid_key ''a''" "valid_key ''s/b''" by code_simp+
  have "fs_blobs demo_store demo_fs (k @ ''.h'') = None" for k
  proof -
    have "k @ ''.h'' \<noteq> ''a''" "k @ ''.h'' \<noteq> ''s/b''" by (auto simp: append_eq_Cons_conv)
    then show ?thesis using k by metis
  qed
  then show ?thesis
    unfolding enc_inv_def using demo_inv k v by auto
qed

text \<open>
  The same backend with one encrypted blob: \<open>a\<close> is sealed with the data key 7, its header is of key
  version 1; \<open>o\<close> has no header.
\<close>

definition sealed_fs :: fsys where
  "sealed_fs = demo_fs\<lparr>fs_nodes := [([''d''], DirN), ([''d'', ''a''], FileN [6, 5] (Some 5)),
       ([''d'', ''a.h''], FileN [1, 3] (Some 5)), ([''d'', ''o''], FileN [9] (Some 6))]\<rparr>"

lemma sealed_keys:
  "fs_blobs demo_store sealed_fs k =
     (if k = ''a'' then Some [6, 5] else if k = ''a.h'' then Some [1, 3] else if k = ''o'' then Some [9] else None)"
proof -
  have "path_comps ''/d/'' = [''d'']" by code_simp
  then have p: "key_place demo_store k = ''d'' # key_parts k" by (simp add: key_place_def demo_store_def)
  have k: "k = join_with KEY_SEPARATOR (key_parts k)" by simp
  have j: "key_parts k = [''a''] \<longleftrightarrow> k = ''a''" "key_parts k = [''a.h''] \<longleftrightarrow> k = ''a.h''"
    "key_parts k = [''o''] \<longleftrightarrow> k = ''o''"
    using k by (auto simp del: join_split simp: KEY_SEPARATOR_def)
  show ?thesis
    by (auto simp: fs_blobs_def p node_at_def sealed_fs_def j)
qed

lemma sealed_inv: "fs_inv demo_store sealed_fs"
proof -
  have d: "fs_cwd sealed_fs = fs_cwd demo_fs" "fs_fault sealed_fs = fs_fault demo_fs"
    by (simp_all add: sealed_fs_def)
  have r: "root_place demo_store = [''d'']" by code_simp
  have "fs_wf sealed_fs"
    by (auto simp: fs_wf_def sealed_fs_def node_at_def name_ok_def good_component_def KEY_SEPARATOR_def
        split: if_splits)
  moreover have "fault_free sealed_fs" using fs_invD(3) [OF demo_inv] by (simp add: fault_free_def sealed_fs_def)
  moreover have "utf8 ''a''" "utf8 ''a.h''" "utf8 ''o''" by code_simp+
  ultimately show ?thesis
    using fs_invD(1) [OF demo_inv] unfolding fs_inv_def r
    by (auto simp: node_at_def is_file_def sealed_fs_def split: if_splits)
qed

lemma sealed_good: "enc_inv ''.h'' (envelope_opens demo_kek) (fs_inv demo_store) (fs_blobs demo_store) sealed_fs"
proof -
  have v: "valid_key ''a''" "valid_key ''a.h''" "valid_key ''o''" by code_simp+
  have e: "ends_with ''a.h'' ''.h''" by code_simp
  show ?thesis
    unfolding enc_inv_def sealed_keys using sealed_inv v e
    by (auto simp: envelope_opens_def append_eq_Cons_conv split: if_splits)
qed

section \<open>The error-aware reader\<close>



section \<open>Round trip and contents\<close>

text \<open>
  C16: encryption is transparent. After a successful \<open>put\<close> of a batch through the layer, \<open>get\<close> of one
  of its keys returns exactly the plaintext that the batch's last input for that key held.
\<close>
theorem enc_put_get:
  assumes "provider_ok (fs_inv self) (fs_blobs self) enc opens"
    and "enc_inv suf opens (fs_inv self) (fs_blobs self) w"
    and "\<forall>b \<in> set bs. utf8 (bi_key b) \<and> utf8 (bi_key b @ suf)"
    and "enc_put (encrypted fuel self enc suf timeout) bs w = (Ok res, w1)" "bs = as @ b # cs" "bi_key b \<notin> bi_key ` set cs"
    and "enc_get (encrypted fuel self enc suf timeout) (bi_key b) w1 = (r, w2)"
  shows "\<exists>rd. r = Ok rd \<and> read_all rd = Ok (rd_bytes (bi_data b))"
proof -
  note L = fs_encryption [OF assms(1), where fuel = fuel and 'v = u64]
  have p: "enc_inv suf opens (fs_inv self) (fs_blobs self) w1"
      "enc_blobs suf opens (fs_blobs self) w1 = put_blobs bs (enc_blobs suf opens (fs_blobs self) w)"
    using encryption_layer.enc_put_effect [OF L assms(2,3,4)] by auto
  have "enc_ok suf (bi_key b)"
  proof (rule ccontr)
    assume "\<not> enc_ok suf (bi_key b)"
    then show False
      using encryption_layer.enc_put_invalid [OF L, where b = b and bs = bs and suf = suf and timeout = timeout and w = w] assms(4,5) by auto
  qed
  moreover have "enc_blobs suf opens (fs_blobs self) w1 (bi_key b) = Some (rd_bytes (bi_data b))"
    using p(2) assms(5,6) by (simp add: put_blobs_append put_blobs_other)
  ultimately show ?thesis
    using encryption_layer.enc_get_found [OF L p(1) _ _ assms(7)] by blast
qed

theorem enc_put_get_witness:
  "\<exists>rd. fst (enc_get demo_enc ''t/c'' (snd (enc_put demo_enc
      [blob_input_new ''t/c'' \<lparr>rd_chunks = [[9], [], [8, 7]], rd_end = Eof\<rparr>] demo_fs))) = Ok rd \<and>
    read_all rd = Ok [9, 8, 7]"
proof -
  let ?b = "blob_input_new ''t/c'' \<lparr>rd_chunks = [[9], [], [8, 7]], rd_end = Eof\<rparr>"
  let ?w1 = "snd (enc_put demo_enc [?b] demo_fs)"
  have u: "\<forall>b \<in> set [?b]. utf8 (bi_key b) \<and> utf8 (bi_key b @ ''.h'')" by code_simp
  have "(case fst (enc_put demo_enc [?b] demo_fs) of Ok r \<Rightarrow> True | _ \<Rightarrow> False)" by code_simp
  then obtain res where p: "enc_put demo_enc [?b] demo_fs = (Ok res, ?w1)"
    by (cases "enc_put demo_enc [?b] demo_fs") (auto split: result.splits)
  have k: "bi_key ?b = ''t/c''" "rd_bytes (bi_data ?b) = [9, 8, 7]"
    by (simp_all add: blob_input_new_def rd_bytes_def)
  show ?thesis
    using enc_put_get [OF envelope_ok demo_good u p, of "[]" ?b "[]", OF _ _ surjective_pairing]
    by (simp add: k)
qed

text \<open>
  C17: \<open>put\<close> through the layer, whatever happens: the backend's invariant survives and the plaintext of
  no other key changes, also when the call fails half-way. When it succeeds the layer holds the
  batch, every stream was read to its end, and every complete pair opens.
\<close>
theorem enc_put_correct:
  assumes "provider_ok (fs_inv self) (fs_blobs self) enc opens"
    and "enc_inv suf opens (fs_inv self) (fs_blobs self) w"
    and "\<forall>b \<in> set bs. utf8 (bi_key b) \<and> utf8 (bi_key b @ suf)"
    and "enc_put (encrypted fuel self enc suf timeout) bs w = (r, w')"
  shows "fs_inv self w' \<and>
    (\<forall>k. k \<notin> bi_key ` set bs \<longrightarrow>
       enc_blobs suf opens (fs_blobs self) w' k = enc_blobs suf opens (fs_blobs self) w k) \<and>
    (\<forall>res. r = Ok res \<longrightarrow> enc_inv suf opens (fs_inv self) (fs_blobs self) w' \<and>
       enc_blobs suf opens (fs_blobs self) w' = put_blobs bs (enc_blobs suf opens (fs_blobs self) w) \<and>
       (\<forall>b \<in> set bs. rd_end (bi_data b) = Eof) \<and> map bm_key (pr_blobs res) = map bi_key bs)"
  by (rule encryption_layer.enc_put_effect [OF fs_encryption [OF assms(1)] assms(2-4)])

theorem enc_put_correct_witness:
  "demo_plain (snd (enc_put demo_enc [blob_input_new ''q'' (reader_of [1])] demo_fs)) ''a'' = demo_plain demo_fs ''a''"
proof -
  have u: "\<forall>b \<in> set [blob_input_new ''q'' (reader_of [1])]. utf8 (bi_key b) \<and> utf8 (bi_key b @ ''.h'')"
    by code_simp
  have "''a'' \<notin> bi_key ` set [blob_input_new ''q'' (reader_of [1])]" by (simp add: blob_input_new_def)
  then show ?thesis
    using enc_put_correct [OF envelope_ok demo_good u surjective_pairing] by blast
qed

text \<open>
  C18: the layer hides its headers and its orphans. \<open>list\<close> returns, sorted and without duplicates,
  exactly the keys that have both a ciphertext and a header and that the filter matches; no key of
  the listing ends with the reserved suffix; \<open>exists\<close> answers the same question for one key; and both
  leave everything as it is.
\<close>
theorem enc_list_exact:
  assumes "provider_ok (fs_inv self) (fs_blobs self) enc opens"
    and "enc_inv suf opens (fs_inv self) (fs_blobs self) w"
    and "enc_list (encrypted fuel self enc suf timeout) f w = (Ok ks, w')"
  shows "sorted ks \<and> distinct ks \<and>
    set ks = {k. \<not> ends_with k suf \<and> fs_blobs self w k \<noteq> None \<and> fs_blobs self w (k @ suf) \<noteq> None \<and>
      matches f k None} \<and>
    enc_blobs suf opens (fs_blobs self) w' = enc_blobs suf opens (fs_blobs self) w \<and>
    (\<forall>k. enc_ok suf k \<longrightarrow>
       fst (enc_exists (encrypted fuel self enc suf timeout) k w) =
       Ok (fs_blobs self w k \<noteq> None \<and> fs_blobs self w (k @ suf) \<noteq> None))"
proof -
  note L = fs_encryption [OF assms(1), where fuel = fuel and 'v = u64]
  note c = encryption_layer.plain_complete [OF L assms(2)]
  have l: "sorted ks" "distinct ks"
      "set ks = {k \<in> dom (enc_blobs suf opens (fs_blobs self) w). matches f k None}"
    using encryption_layer.enc_list_done [OF L assms(2,3)] by auto
  have s: "set ks = {k. \<not> ends_with k suf \<and> fs_blobs self w k \<noteq> None \<and> fs_blobs self w (k @ suf) \<noteq> None \<and>
      matches f k None}"
    unfolding l(3) using c by (auto simp del: not_None_eq)
  have "fst (enc_exists (encrypted fuel self enc suf timeout) k w) =
       Ok (fs_blobs self w k \<noteq> None \<and> fs_blobs self w (k @ suf) \<noteq> None)" if k: "enc_ok suf k" for k
    using encryption_layer.enc_exists_eq [OF L assms(2) k surjective_pairing] c [of k] k
    by (simp add: enc_ok_def)
  then show ?thesis
    using l s encryption_layer.enc_list_frame [OF L assms(2,3)] by blast
qed

theorem enc_list_exact_witness:
  "fst (enc_list demo_enc (suffix_filter []) sealed_fs) = Ok [''a''] \<and>
   {k. \<not> ends_with k ''.h'' \<and> fs_blobs demo_store sealed_fs k \<noteq> None \<and>
      fs_blobs demo_store sealed_fs (k @ ''.h'') \<noteq> None} = {''a''}"
proof -
  have l: "fst (enc_list demo_enc (suffix_filter []) sealed_fs) = Ok [''a'']" by code_simp
  then obtain w' where "enc_list demo_enc (suffix_filter []) sealed_fs = (Ok [''a''], w')"
    by (metis prod.collapse)
  from enc_list_exact [OF envelope_ok sealed_good this] show ?thesis using l by auto
qed

text \<open>
  C19: \<open>delete\<close> through the layer. No other plaintext changes and every complete pair still opens,
  whatever happens; after a reported success none of the keys is left; and a batch error lists
  caller's keys only, the succeeded ones gone, and accounts for every key of the batch.
\<close>
theorem enc_delete_correct:
  assumes "provider_ok (fs_inv self) (fs_blobs self) enc opens"
    and "enc_inv suf opens (fs_inv self) (fs_blobs self) w"
    and "enc_delete (encrypted fuel self enc suf timeout) ks w = (r, w')"
  shows "enc_inv suf opens (fs_inv self) (fs_blobs self) w' \<and>
    (\<forall>k. k \<notin> set ks \<longrightarrow> enc_blobs suf opens (fs_blobs self) w' k = enc_blobs suf opens (fs_blobs self) w k) \<and>
    (r = Ok () \<longrightarrow>
       enc_blobs suf opens (fs_blobs self) w' = (enc_blobs suf opens (fs_blobs self) w) |` (- set ks)) \<and>
    (\<forall>be. r = Err (Batch be) \<longrightarrow>
       (\<forall>k \<in> set (succeeded be). k \<in> set ks \<and> enc_blobs suf opens (fs_blobs self) w' k = None) \<and>
       set (succeeded be) \<union> ke_key ` set (errors be) = set ks)"
proof (intro conjI allI impI)
  note L = fs_encryption [OF assms(1), where fuel = fuel and 'v = u64]
  note fr = encryption_layer.enc_delete_frame [OF L assms(2,3)]
  show "enc_inv suf opens (fs_inv self) (fs_blobs self) w'" using fr by blast
  show "enc_blobs suf opens (fs_blobs self) w' k = enc_blobs suf opens (fs_blobs self) w k" if "k \<notin> set ks" for k
    using fr that by blast
  show "enc_blobs suf opens (fs_blobs self) w' = (enc_blobs suf opens (fs_blobs self) w) |` (- set ks)"
    if "r = Ok ()"
  proof
    fix k
    show "enc_blobs suf opens (fs_blobs self) w' k = ((enc_blobs suf opens (fs_blobs self) w) |` (- set ks)) k"
    proof (cases "k \<in> set ks")
      case True
      then show ?thesis
        using encryption_layer.enc_delete_done [OF L assms(2) assms(3) [unfolded that]] by simp
    qed (use fr in auto)
  qed
  fix be assume "r = Err (Batch be)"
  note b = encryption_layer.enc_delete_batch [OF L assms(2) assms(3) [unfolded this]]
  show s: "\<forall>k \<in> set (succeeded be). k \<in> set ks \<and> enc_blobs suf opens (fs_blobs self) w' k = None"
    by (rule conjunct1 [OF b])
  note e = conjunct1 [OF conjunct2 [OF b]] and all = conjunct2 [OF conjunct2 [OF b]]
  show "set (succeeded be) \<union> ke_key ` set (errors be) = set ks"
  proof (intro equalityI subsetI)
    show "k \<in> set ks" if "k \<in> set (succeeded be) \<union> ke_key ` set (errors be)" for k
      using that
    proof
      assume "k \<in> set (succeeded be)"
      then show ?thesis using bspec [OF s] by simp
    next
      assume "k \<in> ke_key ` set (errors be)"
      then show ?thesis using bspec [OF e] by (elim imageE) simp
    qed
    show "k \<in> set (succeeded be) \<union> ke_key ` set (errors be)" if "k \<in> set ks" for k
      using bspec [OF all that] by simp
  qed
qed

theorem enc_delete_correct_witness:
  "demo_plain sealed_fs ''a'' = Some [1, 2] \<and>
   demo_plain (snd (enc_delete demo_enc [''a''] sealed_fs)) ''a'' = None"
proof -
  have "fst (enc_delete demo_enc [''a''] sealed_fs) = Ok ()" by code_simp
  then have d: "enc_delete demo_enc [''a''] sealed_fs = (Ok (), snd (enc_delete demo_enc [''a''] sealed_fs))"
    by (metis prod.collapse)
  have "demo_plain sealed_fs ''a'' = Some [1, 2]" by code_simp
  moreover note enc_delete_correct [OF envelope_ok sealed_good d, THEN conjunct2, THEN conjunct2,
      THEN conjunct1, rule_format, OF refl]
  then have "demo_plain (snd (enc_delete demo_enc [''a''] sealed_fs)) ''a'' = (demo_plain sealed_fs |` (- set [''a''])) ''a''"
    by (rule fun_cong)
  ultimately show ?thesis by (simp only: restrict_map_def) simp
qed

text \<open>
  C20: the reserved suffix is out of reach. A key that ends with the header suffix is refused with
  \<open>InvalidInput\<close> by every operation that takes a key, before anything is touched; so is a batch that
  holds an invalid key, or one whose header key is invalid.
\<close>
theorem enc_reserved_rejected:
  assumes "provider_ok (fs_inv self) (fs_blobs self) enc opens"
  shows "(\<forall>k. ends_with k suf \<longrightarrow>
      (\<exists>m. enc_get (encrypted fuel self enc suf timeout) k w = (Err (InvalidInput m), w)) \<and>
      (\<exists>m. enc_exists (encrypted fuel self enc suf timeout) k w = (Err (InvalidInput m), w)) \<and>
      (\<exists>m. enc_get_with_metadata (encrypted fuel self enc suf timeout) k w = (Err (InvalidInput m), w))) \<and>
    (\<forall>b bs. b \<in> set bs \<longrightarrow> \<not> enc_ok suf (bi_key b) \<longrightarrow>
      (\<exists>m. enc_put (encrypted fuel self enc suf timeout) bs w = (Err (InvalidInput m), w))) \<and>
    (\<forall>k ks. k \<in> set ks \<longrightarrow> \<not> enc_ok suf k \<longrightarrow>
      (\<exists>m. enc_delete (encrypted fuel self enc suf timeout) ks w = (Err (InvalidInput m), w)))"
proof (intro conjI allI impI)
  note L = fs_encryption [OF assms(1), where fuel = fuel and 'v = u64]
  fix k assume "ends_with k suf"
  then obtain m where "validate_key_no_header_collision (encrypted fuel self enc suf timeout) k = Err (InvalidInput m)"
    by (simp add: validate_key_no_header_collision_def)
  then show "\<exists>m. enc_get (encrypted fuel self enc suf timeout) k w = (Err (InvalidInput m), w)"
    "\<exists>m. enc_exists (encrypted fuel self enc suf timeout) k w = (Err (InvalidInput m), w)"
    "\<exists>m. enc_get_with_metadata (encrypted fuel self enc suf timeout) k w = (Err (InvalidInput m), w)"
    by (simp_all add: enc_get_def enc_exists_def enc_get_with_metadata_def)
next
  note L = fs_encryption [OF assms(1), where fuel = fuel and 'v = u64]
  show "\<exists>m. enc_put (encrypted fuel self enc suf timeout) bs w = (Err (InvalidInput m), w)"
    if "b \<in> set bs" "\<not> enc_ok suf (bi_key b)" for b bs
    by (rule encryption_layer.enc_put_invalid [OF L that])
  show "\<exists>m. enc_delete (encrypted fuel self enc suf timeout) ks w = (Err (InvalidInput m), w)"
    if "k \<in> set ks" "\<not> enc_ok suf k" for k ks
    by (rule encryption_layer.enc_delete_invalid [OF L that])
qed

theorem enc_reserved_rejected_witness:
  "snd (enc_delete demo_enc [''a'', ''a.h''] sealed_fs) = sealed_fs \<and>
   snd (enc_get demo_enc ''a.h'' sealed_fs) = sealed_fs"
proof -
  have e: "ends_with ''a.h'' ''.h''" "\<not> enc_ok ''.h'' ''a.h''" by code_simp+
  have ok: "provider_ok (fs_inv demo_store) (fs_blobs demo_store)
      (envelope_encryption demo_kek 2 7 :: fsys encryption_provider) (envelope_opens demo_kek)"
    by (rule envelope_ok)
  note R = enc_reserved_rejected [OF ok, where suf = "''.h''" and fuel = 9 and timeout = 1000 and w = sealed_fs]
  have "\<exists>m. enc_delete demo_enc [''a'', ''a.h''] sealed_fs = (Err (InvalidInput m), sealed_fs)"
    using R e(2) by (meson list.set_intros)
  moreover have "\<exists>m. enc_get demo_enc ''a.h'' sealed_fs = (Err (InvalidInput m), sealed_fs)"
    using R e(1) by blast
  ultimately show ?thesis by auto
qed

section \<open>Failures and re-keying\<close>

text \<open>
  C21: a \<open>put\<close> whose encryption fails after the ciphertext was written (the task fails, dies, or does
  not deliver the header in time) reports that error and takes the ciphertext back: the key is not
  stored afterwards, and no other blob of the backend has changed.
\<close>
theorem enc_put_rolls_back:
  assumes "provider_ok (fs_inv self) (fs_blobs self) enc opens"
    and "fs_inv self w" "enc_ok suf (bi_key b)" "utf8 (bi_key b)"
    and "ep_encrypt_stream enc (bi_data b) w = ((pipe, task), w1)" "rd_end pipe = Eof"
    and "room_for self w1 (bi_key b)"
    and "encryption_result (encrypted fuel self enc suf timeout) (bi_key b) task = Err x"
  shows "\<exists>w'. enc_put (encrypted fuel self enc suf timeout) [b] w = (Err x, w') \<and> fs_inv self w' \<and>
    fs_blobs self w' = (fs_blobs self w)(bi_key b := None)"
proof -
  note L = fs_encryption [OF assms(1), where fuel = fuel and 'v = u64]
  let ?k = "bi_key b"
  let ?n = "case bi_size_hint b of Some h \<Rightarrow> h | None \<Rightarrow> 0"
  let ?i = "blob_input_with_size ?k pipe ?n"
  have i1: "fs_inv self w1" "fs_blobs self w1 = fs_blobs self w"
    using encryption_layer.encrypt_frame [OF L assms(2,5)] by auto
  have v: "valid_key ?k" using assms(3) by (simp add: enc_ok_def)
  obtain m w2 where p: "fs_put self [?i] w1 = (Ok \<lparr>pr_blobs = [m]\<rparr>, w2)"
    using fs_put_single_succeeds [OF i1(1), of ?i] v assms(6,7) by (auto simp: blob_input_with_size_def)
  have i2: "fs_inv self w2" "fs_blobs self w2 = (fs_blobs self w)(?k \<mapsto> rd_bytes pipe)"
    using fs_put_effect [OF i1(1) _ p] assms(4) i1(2) by (auto simp: blob_input_with_size_def)
  obtain w3 where d: "fs_delete self [?k] w2 = (Ok (), w3)"
    using fs_delete_succeeds [OF i2(1), of "[?k]"] v i2(2) by auto
  have i3: "fs_inv self w3" "fs_blobs self w3 = (fs_blobs self w)(?k := None)"
    using fs_delete_effect [OF i2(1) d] v i2(2) by (auto simp: fun_eq_iff)
  have "enc_validate (encrypted fuel self enc suf timeout) b = Ok ()"
    using encryption_layer.enc_validate_Ok [OF L, of suf timeout b] assms(3) by simp
  moreover have "enc_put_one (encrypted fuel self enc suf timeout) b w = (Err x, w3)"
    using assms(5,8) p d by (simp add: enc_put_one_def enc_rollback_def io_ignore_eq io_bind_eq)
  ultimately have "enc_put (encrypted fuel self enc suf timeout) [b] w = (Err x, w3)"
    by (simp add: enc_put_def)
  then show ?thesis using i3 by blast
qed

theorem enc_put_rolls_back_witness:
  "\<exists>x w'. enc_put demo_enc [blob_input_new ''n'' (failing_reader (IoError KOther ''x''))] demo_fs = (Err x, w') \<and>
    fs_inv demo_store w' \<and> fs_blobs demo_store w' = (fs_blobs demo_store demo_fs)(''n'' := None)"
proof -
  let ?b = "blob_input_new ''n'' (failing_reader (IoError KOther ''x''))"
  let ?enc = "envelope_encryption demo_kek 2 7 :: fsys encryption_provider"
  have k: "bi_key ?b = ''n''" "bi_data ?b = failing_reader (IoError KOther ''x'')"
    by (simp_all add: blob_input_new_def)
  have v: "enc_ok ''.h'' (bi_key ?b)" "utf8 (bi_key ?b)" by code_simp+
  have e: "ep_encrypt_stream ?enc (bi_data ?b) demo_fs =
      ((reader_of [], Completes 0 (TaskErr (EncIo (IoError KOther ''x'')))), demo_fs)"
    unfolding k by (simp add: envelope_encryption_def read_all_def failing_reader_def)
  have p: "key_place demo_store ''n'' = [''d'', ''n'']" by code_simp
  have room: "room_for demo_store demo_fs (bi_key ?b)"
    unfolding room_for_def k p
    by (auto simp: demo_fs_def node_at_def is_file_def append_eq_Cons_conv Cons_eq_append_conv)
  have r: "encryption_result demo_enc (bi_key ?b) (Completes 0 (TaskErr (EncIo (IoError KOther ''x'')))) =
      Err (Encryption (''encryption failed for key '' @ squoted (bi_key ?b))
        (Some (DynEncryption (EncIo (IoError KOther ''x'')))))"
    by (simp add: encryption_result_def Let_def)
  have "rd_end (reader_of []) = Eof" by (simp add: reader_of_def)
  from enc_put_rolls_back [OF envelope_ok demo_inv v e this room r] show ?thesis unfolding k by blast
qed



end
