(* ===== verification/Cleanup.thy ===== *)
theory Cleanup
  imports Blob_Store
begin

text \<open>
  The cleanup layer: \<open>cleanup.rs\<close> and \<open>cleanup/visitor.rs\<close>. The visitor collects the keys that the
  predicate selects and deletes them in batches from the store it is walking over; the layer's other
  operations are the inner store's. What a run of \<open>cleanup\<close> does to the store is proved for every
  store that meets the contract.
\<close>

section \<open>The visitor\<close>

text \<open>The mutable part of \<open>CleanupVisitor\<close>; the rest are parameters of its methods.\<close>

record cleanup_visitor =
  cv_batch :: "key list"
  cv_deleted_count :: u64

definition cleanup_flush ::
  "('w, cleanup_visitor) blob_store \<Rightarrow> ('w \<times> cleanup_visitor, unit) io"
where
  "cleanup_flush store = (\<lambda>(w, self).
     if cv_batch self = [] then (Ok (), (w, self))
     else io_bind (io_fst (bs_delete store (cv_batch self))) (\<lambda>_ (w, self).
       (Ok (), (w, self\<lparr>cv_deleted_count := cv_deleted_count self + of_nat (length (cv_batch self)),
                        cv_batch := []\<rparr>))) (w, self))"

text \<open>What the visitor does with a key once the predicate has spoken.\<close>

definition cleanup_pick ::
  "('w, cleanup_visitor) blob_store \<Rightarrow> nat \<Rightarrow> bool \<Rightarrow> key \<Rightarrow> ('w \<times> cleanup_visitor, bool) io"
where
  "cleanup_pick store batch_size pick key = (\<lambda>(w, self).
     if pick then
       (let self = self\<lparr>cv_batch := cv_batch self @ [key]\<rparr> in
        if batch_size \<le> length (cv_batch self)
        then io_bind (cleanup_flush store) (\<lambda>_. io_ret True) (w, self)
        else (Ok True, (w, self)))
     else (Ok True, (w, self)))"

definition cleanup_visit ::
  "('w \<Rightarrow> datetime) \<Rightarrow> ('w, cleanup_visitor) blob_store \<Rightarrow> (key \<Rightarrow> blob_meta \<Rightarrow> bool) \<Rightarrow> nat \<Rightarrow>
   ('w, cleanup_visitor) visitor"
where
  "cleanup_visit now store predicate batch_size key meta = (\<lambda>(w, self).
     let fallback = blob_meta_for_key (now w) key;
         meta_ref = (case meta of Some m \<Rightarrow> m | None \<Rightarrow> fallback) in
     cleanup_pick store batch_size (predicate key meta_ref) key (w, self))"

section \<open>The layer\<close>

record ('w, 'v) blob_cleanup =
  bc_inner :: "('w, 'v) blob_store"
  bc_predicate :: "key \<Rightarrow> blob_meta \<Rightarrow> bool"
  bc_batch_size :: nat

definition DEFAULT_BATCH_SIZE :: nat where
  "DEFAULT_BATCH_SIZE = 1000"

definition cleanup_new ::
  "('w, 'v) blob_store \<Rightarrow> (key \<Rightarrow> blob_meta \<Rightarrow> bool) \<Rightarrow> ('w, 'v) blob_cleanup"
where
  "cleanup_new inner predicate =
     \<lparr>bc_inner = inner, bc_predicate = predicate, bc_batch_size = DEFAULT_BATCH_SIZE\<rparr>"

definition with_batch_size :: "nat \<Rightarrow> ('w, 'v) blob_cleanup \<Rightarrow> ('w, 'v) blob_cleanup" where
  "with_batch_size n self = self\<lparr>bc_batch_size := n\<rparr>"

text \<open>
  \<open>Vec::with_capacity\<close> panics when the buffer would exceed \<open>isize::MAX\<close> bytes; a \<open>String\<close> takes 24
  bytes. The panic is the outcome \<open>Hang\<close>: the call does not return.
\<close>

definition max_batch_capacity :: int where
  "max_batch_capacity = (2 ^ 63 - 1) div 24"

definition cleanup :: "('w \<Rightarrow> datetime) \<Rightarrow> ('w, cleanup_visitor) blob_cleanup \<Rightarrow> ('w, cleanup_result) io" where
  "cleanup now self = (\<lambda>w.
     if max_batch_capacity < int (bc_batch_size self) then (Hang, w)
     else (case io_bind
            (bs_visit (bc_inner self) (prefix_filter [])
               (cleanup_visit now (bc_inner self) (bc_predicate self) (bc_batch_size self)))
            (\<lambda>_. cleanup_flush (bc_inner self)) (w, \<lparr>cv_batch = [], cv_deleted_count = 0\<rparr>) of
        (r, (w', v)) \<Rightarrow> (res_bind r (\<lambda>_. Ok \<lparr>cr_deleted_count = cv_deleted_count v\<rparr>), w')))"

text \<open>\<open>impl BlobStore for BlobCleanup\<close>: every operation goes to the inner store.\<close>

definition cleanup_store :: "('w, 'v) blob_cleanup \<Rightarrow> ('w, 'v) blob_store" where
  "cleanup_store self =
     \<lparr>bs_put = bs_put (bc_inner self), bs_get = bs_get (bc_inner self),
      bs_delete = bs_delete (bc_inner self), bs_list = bs_list (bc_inner self),
      bs_exists = bs_exists (bc_inner self),
      bs_get_with_metadata = bs_get_with_metadata (bc_inner self),
      bs_visit = bs_visit (bc_inner self),
      bs_list_with_metadata = bs_list_with_metadata (bc_inner self)\<rparr>"

lemma cleanup_store_inner: "cleanup_store self = bc_inner self"
  by (simp add: cleanup_store_def)

section \<open>What a run does to the store\<close>

text \<open>
  \<open>sel k\<close> is the predicate's verdict on the blob \<open>k\<close>. After the keys \<open>vs\<close> have been handed out, those
  selected are gone except for the ones still in the batch, and the count is the number of the gone.
\<close>

definition cleanup_J ::
  "('w \<Rightarrow> bool) \<Rightarrow> ('w \<Rightarrow> key \<Rightarrow> bytes option) \<Rightarrow> (key \<Rightarrow> bool) \<Rightarrow> nat \<Rightarrow> 'w \<Rightarrow>
   key list \<Rightarrow> 'w \<Rightarrow> cleanup_visitor \<Rightarrow> bool"
where
  "cleanup_J K blobs sel n start vs w v \<longleftrightarrow>
     (let gone = {k \<in> set vs. sel k} - set (cv_batch v) in
      K w \<and> set vs \<subseteq> dom (blobs start) \<and> set (cv_batch v) \<subseteq> {k \<in> set vs. sel k} \<and> distinct (cv_batch v) \<and>
      length (cv_batch v) < max 1 n \<and> blobs w = (blobs start) |` (- gone) \<and>
      cv_deleted_count v = of_nat (card gone))"

text \<open>Where a failing run may leave the store: only selected blobs are missing.\<close>

definition cleanup_T ::
  "('w \<Rightarrow> bool) \<Rightarrow> ('w \<Rightarrow> key \<Rightarrow> bytes option) \<Rightarrow> (key \<Rightarrow> bool) \<Rightarrow> 'w \<Rightarrow> 'w \<Rightarrow> bool"
where
  "cleanup_T K blobs sel start w \<longleftrightarrow>
     K w \<and> (\<forall>k. blobs w k = blobs start k \<or> sel k \<and> k \<in> dom (blobs start) \<and> blobs w k = None)"

text \<open>An invariant of the world that contains the store's own and that deleting keeps.\<close>

definition delete_keeps :: "('w \<Rightarrow> bool) \<Rightarrow> ('w, 'v) blob_store \<Rightarrow> ('w \<Rightarrow> bool) \<Rightarrow> bool" where
  "delete_keeps Inv store K \<longleftrightarrow> (\<forall>w. K w \<longrightarrow> Inv w) \<and>
     (\<forall>w ks r w'. K w \<longrightarrow> bs_delete store ks w = (r, w') \<longrightarrow> K w')"

lemma delete_keepsD:
  assumes "delete_keeps Inv store K" "K w"
  shows "Inv w" "bs_delete store ks w = (r, w') \<Longrightarrow> K w'"
  using assms unfolding delete_keeps_def by metis+

lemma cleanup_J_start:
  "K start \<Longrightarrow> cleanup_J K blobs sel n start [] start \<lparr>cv_batch = [], cv_deleted_count = 0\<rparr>"
  by (simp add: cleanup_J_def restrict_map_def)

lemma cleanup_J_T: "cleanup_J K blobs sel n start vs w v \<Longrightarrow> cleanup_T K blobs sel start w"
  by (auto simp: cleanup_J_def cleanup_T_def Let_def restrict_map_def)

lemma cleanup_J_stored:
  assumes "cleanup_J K blobs sel n start vs w v"
  shows "k \<notin> set vs \<Longrightarrow> blobs w k = blobs start k"
    and "k \<in> set (cv_batch v) \<Longrightarrow> blobs w k = blobs start k \<and> k \<in> dom (blobs start)"
  using assms by (auto simp: cleanup_J_def Let_def restrict_map_def)

lemma cleanup_J_steady: "steady P blobs (cleanup_J K blobs sel n start)"
  unfolding steady_def by (metis Un_iff cleanup_J_stored(1) set_append)

locale cleanup_layer = steady_contract st inv blobs ok text_ok filter_ok
  for st :: "('w, cleanup_visitor) blob_store" and inv blobs ok text_ok filter_ok +
  assumes lists_everything: "filter_ok (prefix_filter [])"
begin

text \<open>
  One flush, under any invariant of the world that contains the store's own and that deleting keeps.
\<close>

lemma cleanup_flush_effect:
  assumes K: "delete_keeps inv st K"
    and "K w" and b: "set (cv_batch v) \<subseteq> {k \<in> set vs. sel k}" "set vs \<subseteq> dom (blobs start)" "distinct (cv_batch v)"
    and w: "blobs w = (blobs start) |` (- ({k \<in> set vs. sel k} - set (cv_batch v)))"
    and n: "cv_deleted_count v = of_nat (card ({k \<in> set vs. sel k} - set (cv_batch v)))"
    and e: "cleanup_flush st (w, v) = (r, (w', v'))"
  shows "(r = Ok () \<longrightarrow> cleanup_J K blobs sel n start vs w' v' \<and> cv_batch v' = []) \<and>
    cleanup_T K blobs sel start w'"
proof (cases "cv_batch v = []")
  case True
  then have "r = Ok ()" "w' = w" "v' = v" using e by (simp_all add: cleanup_flush_def)
  moreover have "cleanup_J K blobs sel n start vs w v"
    using \<open>K w\<close> b w n True by (simp add: cleanup_J_def)
  ultimately show ?thesis using True cleanup_J_T by metis
next
  case False
  obtain x w1 where d: "bs_delete st (cv_batch v) w = (x, w1)" by (cases "bs_delete st (cv_batch v) w")
  have K1: "K w1" by (rule delete_keepsD(2) [OF K \<open>K w\<close> d])
  have fr: "blobs w1 k = blobs w k \<or> k \<in> set (cv_batch v) \<and> blobs w1 k = None" for k
    using delete_frame [OF delete_keepsD(1) [OF K \<open>K w\<close>] d] by blast
  have T: "cleanup_T K blobs sel start w1"
    unfolding cleanup_T_def
  proof (intro conjI allI K1)
    fix k
    have "blobs w k = blobs start k \<or> sel k \<and> k \<in> dom (blobs start) \<and> blobs w k = None"
      unfolding w using b(2) by (auto simp: restrict_map_def)
    moreover have "sel k \<and> k \<in> dom (blobs start)" if "k \<in> set (cv_batch v)" using b(1,2) that by blast
    ultimately show "blobs w1 k = blobs start k \<or> sel k \<and> k \<in> dom (blobs start) \<and> blobs w1 k = None"
      using fr [of k] by metis
  qed
  show ?thesis
  proof (cases x)
    case (Ok u)
    let ?S = "{k \<in> set vs. sel k}"
    have r: "r = Ok ()" "w' = w1" "cv_batch v' = []"
      "cv_deleted_count v' = cv_deleted_count v + of_nat (length (cv_batch v))"
      using e d Ok False by (auto simp: cleanup_flush_def)
    have s: "card (?S - set (cv_batch v)) + length (cv_batch v) = card ?S"
      using b(1,3) card_mono [OF _ b(1)]
      by (simp add: card_Diff_subset distinct_card)
    have "cv_deleted_count v' = of_nat (card (?S - set (cv_batch v)) + length (cv_batch v))"
      unfolding r(4) n by (simp only: of_nat_add)
    then have c: "cv_deleted_count v' = of_nat (card ?S)" unfolding s .
    have "blobs w1 = (blobs w) |` (- set (cv_batch v))"
      using delete_done [OF delete_keepsD(1) [OF K \<open>K w\<close>]] d Ok by simp
    then have "blobs w1 = (blobs start) |` (- ?S)"
      unfolding w using b(1) by (auto simp: restrict_map_def fun_eq_iff)
    then show ?thesis
      using r c K1 b(2) T by (simp add: cleanup_J_def)
  next
    case (Err y)
    then have "r = Err y" "w' = w1" using e d False by (simp_all add: cleanup_flush_def)
    then show ?thesis using T by simp
  next
    case Hang
    then have "r = Hang" "w' = w1" using e d False by (simp_all add: cleanup_flush_def)
    then show ?thesis using T by simp
  qed
qed

text \<open>One key.\<close>

lemma cleanup_pick_effect:
  assumes K: "delete_keeps inv st K"
    and J: "cleanup_J K blobs sel n start vs w v" and k: "k \<notin> set vs" "blobs w k \<noteq> None"
    and e: "cleanup_pick st n (sel k) k (w, v) = (x, (w', v'))"
  shows "if x = Ok True then cleanup_J K blobs sel n start (vs @ [k]) w' v'
    else cleanup_T K blobs sel start w' \<and> (\<forall>b. x \<noteq> Ok b)"
proof -
  have k0: "k \<in> dom (blobs start)" using cleanup_J_stored(1) [OF J k(1)] k(2) by auto
  note j = J [unfolded cleanup_J_def Let_def]
  have b0: "set (cv_batch v) \<subseteq> {k \<in> set vs. sel k}" "k \<notin> set (cv_batch v)" using j k(1) by blast+
  show ?thesis
  proof (cases "sel k")
    case False
    then have r: "x = Ok True" "w' = w" "v' = v" using e by (simp_all add: cleanup_pick_def)
    have "{j \<in> set (vs @ [k]). sel j} = {j \<in> set vs. sel j}" using False by auto
    then show ?thesis unfolding r cleanup_J_def Let_def using j k0 by simp
  next
    case True
    let ?v = "v\<lparr>cv_batch := cv_batch v @ [k]\<rparr>"
    have g: "{j \<in> set (vs @ [k]). sel j} - set (cv_batch ?v) = {j \<in> set vs. sel j} - set (cv_batch v)"
      using True k(1) by auto
    have s: "set (cv_batch ?v) \<subseteq> {j \<in> set (vs @ [k]). sel j}" "set (vs @ [k]) \<subseteq> dom (blobs start)"
        "distinct (cv_batch ?v)"
      using j b0 True k0 by auto
    have w: "blobs w = (blobs start) |` (- ({j \<in> set (vs @ [k]). sel j} - set (cv_batch ?v)))"
      unfolding g using j by simp
    have c: "cv_deleted_count ?v = of_nat (card ({j \<in> set (vs @ [k]). sel j} - set (cv_batch ?v)))"
      unfolding g using j by simp
    show ?thesis
    proof (cases "n \<le> length (cv_batch ?v)")
      case full: True
      obtain y w1 v1 where f: "cleanup_flush st (w, ?v) = (y, (w1, v1))" by (metis surj_pair)
      have K0: "K w" using j by simp
      note eff = cleanup_flush_effect [where n = n and K = K and sel = sel and start = start and vs = "vs @ [k]", OF K K0 s w c f]
      have "cleanup_pick st n (sel k) k (w, v) = io_bind (cleanup_flush st) (\<lambda>_. io_ret True) (w, ?v)"
        using True full by (simp add: cleanup_pick_def Let_def)
      then have "x = res_bind y (\<lambda>_. Ok True)" "w' = w1" "v' = v1"
        using e f by (cases y; simp)+
      then show ?thesis using eff by (cases y) simp_all
    next
      case room: False
      then have r: "x = Ok True" "w' = w" "v' = ?v"
        using e True by (simp_all add: cleanup_pick_def Let_def)
      show ?thesis unfolding r cleanup_J_def Let_def g using j s room by simp
    qed
  qed
qed

text \<open>The walk and the final flush, for whatever loop calls the visitor.\<close>

lemma cleanup_loop:
  assumes K: "delete_keeps inv st K"
    and call: "\<And>w v k c. K w \<Longrightarrow> blobs w k \<noteq> None \<Longrightarrow> blobs w k = blobs start k \<Longrightarrow> C k c \<Longrightarrow>
      call c k (w, v) = cleanup_pick st n (sel k) k (w, v)"
  shows "loop_ok inv blobs P C call (cleanup_J K blobs sel n start) (\<lambda>x w v. cleanup_T K blobs sel start w \<and> (\<forall>b. x \<noteq> Ok b))"
  unfolding loop_ok_def
proof (intro conjI allI impI)
  show "inv w" if "cleanup_J K blobs sel n start vs w v" for vs w v
    using that delete_keepsD(1) [OF K] by (simp add: cleanup_J_def Let_def)
next
  fix vs w v k c x w' v'
  assume J: "cleanup_J K blobs sel n start vs w v" and k: "k \<notin> set vs" "blobs w k \<noteq> None" "C k c"
    and e: "call c k (w, v) = (x, (w', v'))"
  have Kw: "K w" using J by (simp add: cleanup_J_def Let_def)
  have "cleanup_pick st n (sel k) k (w, v) = (x, (w', v'))"
    using call [OF Kw k(2) cleanup_J_stored(1) [OF J k(1)] k(3)] e by simp
  then show "if x = Ok True then cleanup_J K blobs sel n start (vs @ [k]) w' v'
      else cleanup_T K blobs sel start w' \<and> (\<forall>b. x \<noteq> Ok b)"
    by (rule cleanup_pick_effect [OF K J k(1,2)])
qed

lemma cleanup_result:
  assumes K: "delete_keeps inv st K"
    and le: "loop_end blobs (\<lambda>_. True) (cleanup_J K blobs sel n start) (\<lambda>x w v. cleanup_T K blobs sel start w \<and> (\<forall>b. x \<noteq> Ok b)) r w v"
    and fl: "io_bind (\<lambda>_. (r, (w, v))) (\<lambda>_. cleanup_flush st) s = (r', (w', v'))"
  shows "cleanup_T K blobs sel start w' \<and>
    (r' = Ok () \<longrightarrow> finite {k \<in> dom (blobs start). sel k} \<and>
       blobs w' = (blobs start) |` (- {k \<in> dom (blobs start). sel k}) \<and>
       cv_deleted_count v' = of_nat (card {k \<in> dom (blobs start). sel k}))"
proof -
  show ?thesis
    using le unfolding loop_end_def
  proof (elim disjE exE conjE)
    fix vs
    assume J: "cleanup_J K blobs sel n start vs w v"
      and tr: "r = Ok () \<longrightarrow> tracked blobs (\<lambda>_. True) (cleanup_J K blobs sel n start) \<subseteq> set vs"
    show ?thesis
    proof (cases r)
      case (Ok u)
      have "k \<in> tracked blobs (\<lambda>_. True) (cleanup_J K blobs sel n start)" if "k \<in> dom (blobs start)" for k
        unfolding tracked_def using cleanup_J_stored(1) that by fastforce
      then have "dom (blobs start) \<subseteq> set vs" using tr Ok by auto
      then have vs: "set vs = dom (blobs start)" using J by (auto simp: cleanup_J_def Let_def)
      note j = J [unfolded cleanup_J_def Let_def]
      have f: "cleanup_flush st (w, v) = (r', (w', v'))" using fl Ok by (simp add: io_bind_eq)
      have eff: "(r' = Ok () \<longrightarrow> cleanup_J K blobs sel n start vs w' v' \<and> cv_batch v' = []) \<and>
          cleanup_T K blobs sel start w'"
        by (rule cleanup_flush_effect [OF K _ _ _ _ _ _ f]) (use j in simp_all)
      have "finite {k \<in> dom (blobs start). sel k}" unfolding vs [symmetric] by simp
      then show ?thesis using eff vs by (simp add: cleanup_J_def Let_def)
    next
      case (Err e)
      then have "r' = Err e" "w' = w" using fl by (simp_all add: io_bind_eq)
      then show ?thesis using cleanup_J_T [OF J] by simp
    next
      case Hang
      then have "r' = Hang" "w' = w" using fl by (simp_all add: io_bind_eq)
      then show ?thesis using cleanup_J_T [OF J] by simp
    qed
  next
    fix x
    assume T: "cleanup_T K blobs sel start w" and nx: "\<forall>b. x \<noteq> Ok b" and r: "r = res_bind x (\<lambda>_. Ok ())"
    have "r \<noteq> Ok ()" using nx r by (cases x) auto
    then have "r' = r" "w' = w" using fl by (cases r; simp add: io_bind_eq)+
    then show ?thesis using T \<open>r \<noteq> Ok ()\<close> by simp
  qed
qed

text \<open>A run, for a predicate that looks at the key only.\<close>

lemma cleanup_effect:
  assumes K: "delete_keeps inv st K" and "K start" and p: "\<And>k m. bm_key m = k \<Longrightarrow> pred k m = sel k"
    and run: "cleanup now \<lparr>bc_inner = st, bc_predicate = pred, bc_batch_size = n\<rparr> start = (r, w')"
  shows "cleanup_T K blobs sel start w' \<and>
    (\<forall>res. r = Ok res \<longrightarrow> finite {k \<in> dom (blobs start). sel k} \<and>
       blobs w' = (blobs start) |` (- {k \<in> dom (blobs start). sel k}) \<and>
       cr_deleted_count res = of_nat (card {k \<in> dom (blobs start). sel k}))"
proof (cases "max_batch_capacity < int n")
  case True
  then show ?thesis using run \<open>K start\<close> by (auto simp: cleanup_def cleanup_T_def)
next
  case False
  let ?v = "\<lparr>cv_batch = [], cv_deleted_count = 0\<rparr>"
  let ?vis = "cleanup_visit now st pred n"
  obtain x w1 v1 where v: "bs_visit st (prefix_filter []) ?vis (start, ?v) = (x, (w1, v1))" by (metis surj_pair)
  obtain y w2 v2 where f: "io_bind (\<lambda>_. (x, (w1, v1))) (\<lambda>_. cleanup_flush st) (start, ?v) = (y, (w2, v2))"
    by (metis surj_pair)
  have rw: "w' = w2" "r = res_bind y (\<lambda>_. Ok \<lparr>cr_deleted_count = cv_deleted_count v2\<rparr>)"
    using run v f False by (simp_all add: cleanup_def io_bind_eq)
  have mf: "meta_free (prefix_filter [])" by (simp add: meta_free_def)
  have call: "?vis k c (w, v) = cleanup_pick st n (sel k) k (w, v)"
    if "\<forall>b. c = Some b \<longrightarrow> bm_key b = k" for w v k c
    using that by (cases c) (simp_all add: cleanup_visit_def blob_meta_for_key_def p)
  have "loop_ok inv blobs (\<lambda>k. matches (prefix_filter []) k None) meta_for (\<lambda>c k. ?vis k c)
      (cleanup_J K blobs sel n start) (\<lambda>x w v. cleanup_T K blobs sel start w \<and> (\<forall>b. x \<noteq> Ok b))"
    by (rule cleanup_loop [OF K]) (rule call)
  from steady_visit_rule [OF this cleanup_J_steady lists_everything mf cleanup_J_start [where K = K, OF \<open>K start\<close>] v]
  have "loop_end blobs (\<lambda>_. True) (cleanup_J K blobs sel n start)
      (\<lambda>x w v. cleanup_T K blobs sel start w \<and> (\<forall>b. x \<noteq> Ok b)) x w1 v1"
    by simp
  from cleanup_result [OF K this f] show ?thesis using rw by (auto simp: res_bind_Ok_iff)
qed

text \<open>
  A run for any predicate, also one that looks at the metadata: whatever it returns, a blob is missing
  only if the predicate selects its key with some metadata.
\<close>

lemma cleanup_flush_only:
  assumes "inv w" "cleanup_flush st (w, v) = (r, (w', v'))"
  shows "inv w' \<and> (\<forall>k. blobs w' k = blobs w k \<or> k \<in> set (cv_batch v) \<and> blobs w' k = None) \<and>
    (r = Ok () \<longrightarrow> cv_batch v' = [])"
proof (cases "cv_batch v = []")
  case False
  obtain x w1 where d: "bs_delete st (cv_batch v) w = (x, w1)" by (cases "bs_delete st (cv_batch v) w")
  then have "w' = w1" "r = Ok () \<longrightarrow> cv_batch v' = []"
    using assms(2) False by (cases x; auto simp: cleanup_flush_def)+
  then show ?thesis using delete_frame [OF assms(1) d] by simp
qed (use assms in \<open>simp add: cleanup_flush_def\<close>)

definition only_picked :: "(key \<Rightarrow> bool) \<Rightarrow> 'w \<Rightarrow> key list \<Rightarrow> 'w \<Rightarrow> bool" where
  "only_picked may start vs w \<longleftrightarrow>
     inv w \<and> (\<forall>k. blobs w k = blobs start k \<or> k \<in> set vs \<and> may k \<and> blobs w k = None)"

lemma only_picked_steady: "steady P blobs (\<lambda>vs w v. only_picked may start vs w \<and> R vs v)"
  unfolding steady_def only_picked_def by (metis Un_iff set_append)

lemma only_picked_more:
  assumes "only_picked may start vs w" "inv w'" "set vs \<union> set ks \<subseteq> set us" "\<forall>k \<in> set ks. may k"
    and "\<forall>k. blobs w' k = blobs w k \<or> k \<in> set ks \<and> blobs w' k = None"
  shows "only_picked may start us w'"
  using assms unfolding only_picked_def by (metis Un_iff subsetD)

lemma cleanup_only:
  assumes "inv start"
    and run: "cleanup now \<lparr>bc_inner = st, bc_predicate = pred, bc_batch_size = n\<rparr> start = (r, w')"
  shows "inv w' \<and> (\<forall>k. blobs w' k = blobs start k \<or> (\<exists>m. bm_key m = k \<and> pred k m) \<and> blobs w' k = None)"
proof (cases "max_batch_capacity < int n")
  case True
  then show ?thesis using run assms(1) by (simp add: cleanup_def)
next
  case False
  let ?may = "\<lambda>k. \<exists>m. bm_key m = k \<and> pred k m"
  let ?R = "\<lambda>vs v. set (cv_batch v) \<subseteq> {k \<in> set vs. ?may k}"
  let ?J = "\<lambda>vs w v. only_picked ?may start vs w \<and> ?R vs v"
  let ?T = "\<lambda>(x :: bool res) w v. (\<exists>vs. only_picked ?may start vs w) \<and> (\<forall>b. x \<noteq> Ok b)"
  let ?v = "\<lparr>cv_batch = [], cv_deleted_count = 0\<rparr>"
  let ?vis = "cleanup_visit now st pred n"
  have lo: "loop_ok inv blobs (\<lambda>k. matches (prefix_filter []) k None) meta_for (\<lambda>c k. ?vis k c) ?J ?T"
    unfolding loop_ok_def
  proof (intro conjI allI impI)
    show "?J vs w v \<Longrightarrow> inv w" for vs w v by (simp add: only_picked_def)
    fix vs w v k and c :: "blob_meta option" and x w1 v1
    assume J: "?J vs w v" and k: "k \<notin> set vs" and c: "\<forall>b. c = Some b \<longrightarrow> bm_key b = k"
      and e: "?vis k c (w, v) = (x, (w1, v1))"
    define m where "m = (case c of Some m \<Rightarrow> m | None \<Rightarrow> blob_meta_for_key (now w) k)"
    have m: "bm_key m = k" using c by (cases c) (simp_all add: m_def blob_meta_for_key_def)
    have p: "cleanup_pick st n (pred k m) k (w, v) = (x, (w1, v1))"
      using e by (simp add: cleanup_visit_def m_def)
    let ?b = "v\<lparr>cv_batch := cv_batch v @ [k]\<rparr>"
    note more = only_picked_more [OF conjunct1 [OF J], of _ _ "vs @ [k]"]
    consider (skip) "\<not> pred k m" | (keep) "pred k m" "\<not> n \<le> length (cv_batch ?b)"
      | (flush) "pred k m" "n \<le> length (cv_batch ?b)" by blast
    then show "if x = Ok True then ?J (vs @ [k]) w1 v1 else ?T x w1 v1"
    proof cases
      case flush
      obtain y w2 v2 where f: "cleanup_flush st (w, ?b) = (y, (w2, v2))" by (metis surj_pair)
      have r: "x = res_bind y (\<lambda>_. Ok True)" "w1 = w2" "v1 = v2"
        using p flush f by (cases y; simp add: cleanup_pick_def Let_def)+
      have "inv w" using J by (simp add: only_picked_def)
      note o = cleanup_flush_only [OF this f]
      have "only_picked ?may start (vs @ [k]) w1"
        by (rule more [of w1 "cv_batch v @ [k]"]) (use o r(2) J flush(1) m in auto)
      then show ?thesis using o r by (cases y) auto
    qed (use p J m in \<open>auto simp: cleanup_pick_def Let_def only_picked_def\<close>)
  qed
  obtain x w1 v1 where v: "bs_visit st (prefix_filter []) ?vis (start, ?v) = (x, (w1, v1))" by (metis surj_pair)
  obtain y w2 v2 where f: "io_bind (\<lambda>_. (x, (w1, v1))) (\<lambda>_. cleanup_flush st) (start, ?v) = (y, (w2, v2))"
    by (metis surj_pair)
  have rw: "w' = w2" using run v f False by (simp add: cleanup_def io_bind_eq)
  have J0: "?J [] start ?v" using assms(1) by (simp add: only_picked_def)
  have mf: "meta_free (prefix_filter [])" by (simp add: meta_free_def)
  have "loop_end blobs (\<lambda>k. matches (prefix_filter []) k None) ?J ?T x w1 v1"
    by (rule steady_visit_rule [OF lo only_picked_steady lists_everything mf J0 v])
  then obtain vs where p: "only_picked ?may start vs w1" "x = Ok () \<Longrightarrow> ?R vs v1"
    unfolding loop_end_def by (auto simp: res_bind_Ok_iff eq_commute [of "Ok ()"])
  have "only_picked ?may start vs w2"
  proof (cases "x = Ok ()")
    case True
    have "inv w1" using p(1) by (simp add: only_picked_def)
    from cleanup_flush_only [OF this, of v1 y w2 v2] f True p(2) show ?thesis
      by (intro only_picked_more [OF p(1), of w2 "cv_batch v1"]) auto
  next
    case False
    then have "w2 = w1" using f by (cases x) (simp_all add: io_bind_eq)
    then show ?thesis using p(1) by simp
  qed
  then show ?thesis using rw by (auto simp: only_picked_def)
qed

end

end
