(* ===== verification/Cleanup_Fs.thy ===== *)
theory Cleanup_Fs
  imports Cleanup Prefix_Fs
begin

text \<open>
  The cleanup layer over the filesystem backend, where the predicate sees the file's size and
  modification time, and over a prefix of it.
\<close>

section \<open>Deleting only takes files away\<close>

definition only_removes :: "'z fsys_scheme \<Rightarrow> 'z fsys_scheme \<Rightarrow> bool" where
  "only_removes w w' \<longleftrightarrow> (\<forall>u. node_at w' u = node_at w u \<or> node_at w' u = None \<and> is_file w u)"

lemma only_removes_refl [simp]: "only_removes w w"
  by (simp add: only_removes_def)

lemma only_removes_trans: "only_removes w w1 \<Longrightarrow> only_removes w1 w2 \<Longrightarrow> only_removes w w2"
  unfolding only_removes_def is_file_def by metis

lemma only_removes_file:
  "only_removes w w' \<Longrightarrow> node_at w' u = Some n \<Longrightarrow> node_at w u = Some n"
  unfolding only_removes_def by (metis option.distinct(1))

lemma only_removes_dirs: "only_removes w w' \<Longrightarrow> dirs_at self w' = dirs_at self w"
proof -
  assume o: "only_removes w w'"
  have "node_at w' u = Some DirN \<longleftrightarrow> node_at w u = Some DirN" for u
    using o [unfolded only_removes_def, rule_format, of u] by (auto simp: is_file_def)
  then show ?thesis by (simp add: dirs_at_def)
qed

lemma remove_file_only:
  assumes "fs_inv self w" "is_absolute p" "\<not> ends_with p [KEY_SEPARATOR]" "remove_file p w = (r, w')"
  shows "only_removes w w'"
proof (cases "node_at w (path_comps p)")
  case None
  then show ?thesis
    using assms(2-4) fs_invD(3) [OF assms(1)] resolve_Err [of w p]
    by (auto simp: remove_file_def target_absolute)
next
  case (Some n)
  then have "resolve w p = Ok n"
    using resolve_Ok [OF fs_invD(2) [OF assms(1)], of p n] assms(2,3) by (simp add: target_absolute)
  then show ?thesis
    using assms(2,4) fs_invD(3) [OF assms(1)] Some
    by (cases n) (auto simp: remove_file_def target_absolute only_removes_def node_at_del_node is_file_def split: if_splits)
qed

lemma fs_delete_keys_only:
  "fs_inv self w \<Longrightarrow> \<forall>k \<in> set ks. valid_key k \<Longrightarrow> fs_delete_keys self ks succ errs w = (r, w') \<Longrightarrow>
   only_removes w w'"
proof (induction ks arbitrary: w succ errs)
  case Nil
  then show ?case by simp
next
  case (Cons k ks)
  have k: "\<forall>j \<in> set [k]. valid_key j" using Cons.prems(2) by simp
  obtain p where p: "key_to_path self k = Ok p" "is_absolute p" "path_comps p = key_place self k"
      "\<not> ends_with p [KEY_SEPARATOR]"
    using key_path [OF Cons.prems(1)] Cons.prems(2) by (metis list.set_intros(1))
  obtain x w1 where x: "remove_file p w = (x, w1)" by (cases "remove_file p w")
  have o: "only_removes w w1" by (rule remove_file_only [OF Cons.prems(1) p(2,4) x])
  have nh: "x \<noteq> Hang"
    using remove_file_effect [OF fs_invD(2,3) [OF Cons.prems(1)] p(2,4) x] by blast
  have "\<exists>y. fs_delete_keys self [k] [] [] w = (y, w1)" using p(1) x nh by (cases x) auto
  then have i1: "fs_inv self w1" using fs_delete_keys_effect [OF Cons.prems(1) k] by blast
  obtain succ1 errs1 where "fs_delete_keys self ks succ1 errs1 w1 = (r, w')"
    using Cons.prems(3) p(1) x nh by (cases x) (auto split: if_splits)
  then have "only_removes w1 w'" using Cons.IH [OF i1] Cons.prems(2) by simp
  then show ?case by (rule only_removes_trans [OF o])
qed

lemma fs_delete_only:
  assumes "fs_inv self w" "fs_delete self ks w = (r, w')"
  shows "only_removes w w'"
proof (cases "\<forall>k \<in> set ks. valid_key k")
  case True
  obtain y w1 where d: "fs_delete_keys self ks [] [] w = (y, w1)" by (cases "fs_delete_keys self ks [] [] w")
  have "res_for validate_blob_key ks = Ok ()" using True by (simp add: res_for_Ok_iff)
  then have "w' = w1"
    using assms(2) d ensure_root_ok [OF assms(1)]
    by (cases y) (auto simp: fs_delete_def io_bind_eq split: if_splits prod.splits)
  then show ?thesis using fs_delete_keys_only [OF assms(1) True d] by simp
next
  case False
  then show ?thesis using fs_delete_invalid [of _ ks self w] assms(2) by fastforce
qed

section \<open>The predicate on files\<close>

text \<open>What the backend reports about a stored key, and the predicate's verdict on it.\<close>

definition stored_meta :: "fs_blob_store \<Rightarrow> 'z fsys_scheme \<Rightarrow> key \<Rightarrow> blob_meta" where
  "stored_meta self w k =
     (case node_at w (key_place self k) of
        Some n \<Rightarrow> meta_of_stat self k (stat_of w (key_place self k) n)
      | None \<Rightarrow> meta_of_stat self k \<lparr>st_is_dir = False, st_len = 0, st_modified = None\<rparr>)"

lemma entry_meta_exact:
  assumes "fs_inv self w" "path_of self k p" "fs_blobs self w k \<noteq> None"
  shows "entry_meta self p k w = (Ok (stored_meta self w k), w)"
proof -
  obtain b t where n: "node_at w (key_place self k) = Some (FileN b t)"
    using assms(3) by (auto simp: fs_blobs_Some)
  moreover have "target w p = key_place self k" using assms(2) by (simp add: path_of_def target_absolute)
  ultimately have "metadata p w = (Ok (stat_of w (key_place self k) (FileN b t)), w)"
    using metadata_found [OF fs_invD(2,3) [OF assms(1)], of p "FileN b t"] assms(2)
    by (simp add: path_of_def)
  then show ?thesis using n by (simp add: entry_meta_def stored_meta_def)
qed

lemma stored_meta_same:
  "only_removes w w' \<Longrightarrow> fs_blobs self w' k \<noteq> None \<Longrightarrow> stored_meta self w' k = stored_meta self w k"
  by (auto simp: stored_meta_def fs_blobs_Some stat_of_def dest!: only_removes_file)

section \<open>Cleanup on the backend\<close>

interpretation cfs: cleanup_layer "fs_store fuel self" "fs_inv self" "fs_blobs self" valid_key utf8 fs_filter_ok
  for fuel self
  by unfold_locales (simp add: fs_filter_ok_def hint_clean_def hint_dir_def)

abbreviation cleanup_of ::
  "nat \<Rightarrow> fs_blob_store \<Rightarrow> (key \<Rightarrow> blob_meta \<Rightarrow> bool) \<Rightarrow> nat \<Rightarrow> ('z fsys_scheme, cleanup_visitor) blob_cleanup"
where
  "cleanup_of fuel self pred n \<equiv> \<lparr>bc_inner = fs_store fuel self, bc_predicate = pred, bc_batch_size = n\<rparr>"

definition selected :: "fs_blob_store \<Rightarrow> (key \<Rightarrow> blob_meta \<Rightarrow> bool) \<Rightarrow> 'z fsys_scheme \<Rightarrow> key set" where
  "selected self pred w = {k \<in> dom (fs_blobs self w). pred k (stored_meta self w k)}"

lemma cleanup_call:
  assumes "fs_inv self w" "only_removes start w" "fs_blobs self w k \<noteq> None" "path_of self k p"
  shows "visit_entry self (cleanup_visit now st pred n) p k (w, v) =
    cleanup_pick st n (pred k (stored_meta self start k)) k (w, v)"
  using entry_meta_exact [OF assms(1,4,3)] stored_meta_same [OF assms(2,3)]
  by (simp add: visit_entry_def cleanup_visit_def)

lemma cleanup_fs_effect:
  assumes i: "fs_inv self start" and run: "cleanup now (cleanup_of fuel self pred n) start = (r, w')"
  shows "fs_inv self w' \<and> only_removes start w' \<and>
    (\<forall>k. fs_blobs self w' k = fs_blobs self start k \<or> k \<in> selected self pred start \<and> fs_blobs self w' k = None) \<and>
    (\<forall>res. r = Ok res \<longrightarrow> finite (selected self pred start) \<and>
       fs_blobs self w' = (fs_blobs self start) |` (- selected self pred start) \<and>
       cr_deleted_count res = of_nat (card (selected self pred start)))"
proof (cases "max_batch_capacity < int n")
  case True
  then show ?thesis using run i by (auto simp: cleanup_def)
next
  case False
  let ?st = "fs_store fuel self :: ('a fsys_scheme, cleanup_visitor) blob_store"
  let ?sel = "\<lambda>k. pred k (stored_meta self start k)"
  let ?K = "\<lambda>w. fs_inv self w \<and> only_removes start w"
  let ?v = "\<lparr>cv_batch = [], cv_deleted_count = 0\<rparr>"
  let ?vis = "cleanup_visit now ?st pred n"
  obtain x w1 v1 where v: "walk_tree fuel self (prefix_filter []) (visit_entry self ?vis) (start, ?v) = (x, (w1, v1))"
    by (metis surj_pair)
  obtain y w2 v2 where f: "io_bind (\<lambda>_. (x, (w1, v1))) (\<lambda>_. cleanup_flush ?st) (start, ?v) = (y, (w2, v2))"
    by (metis surj_pair)
  have rw: "w' = w2" "r = res_bind y (\<lambda>_. Ok \<lparr>cr_deleted_count = cv_deleted_count v2\<rparr>)"
    using run v f False by (simp_all add: cleanup_def io_bind_eq fs_visit_def)
  have K: "delete_keeps (fs_inv self) ?st ?K"
    unfolding delete_keeps_def
  proof (intro conjI allI impI)
    fix w :: "'a fsys_scheme" and ks r w'
    assume "?K w" "bs_delete ?st ks w = (r, w')"
    then have a: "fs_inv self w" "only_removes start w" "fs_delete self ks w = (r, w')" by simp_all
    show "fs_inv self w'" using fs_delete_effect [OF a(1,3)] by blast
    show "only_removes start w'" by (rule only_removes_trans [OF a(2) fs_delete_only [OF a(1,3)]])
  qed simp
  have "act_ok self (prefix_filter []) (visit_entry self ?vis) (cleanup_J ?K (fs_blobs self) ?sel n start)
      (\<lambda>x w v. cleanup_T ?K (fs_blobs self) ?sel start w \<and> (\<forall>b. x \<noteq> Ok b))"
    by (rule cfs.cleanup_loop [OF K]) (use cleanup_call in blast)
  from walk_tree_run [OF this _ cleanup_J_start [where K = ?K] v] i
  have "loop_end (fs_blobs self) (\<lambda>_. True) (cleanup_J ?K (fs_blobs self) ?sel n start)
      (\<lambda>x w v. cleanup_T ?K (fs_blobs self) ?sel start w \<and> (\<forall>b. x \<noteq> Ok b)) x w1 v1"
    by (simp add: fs_filter_ok_def hint_clean_def hint_dir_def)
  from cfs.cleanup_result [OF K this f] show ?thesis
    using rw by (auto simp: res_bind_Ok_iff cleanup_T_def selected_def)
qed

section \<open>A run succeeds\<close>

definition flushable :: "fs_blob_store \<Rightarrow> 'z fsys_scheme \<Rightarrow> 'z fsys_scheme \<Rightarrow> cleanup_visitor \<Rightarrow> bool" where
  "flushable self start w v \<longleftrightarrow> fs_inv self w \<and> only_removes start w \<and>
     (\<forall>k \<in> set (cv_batch v). valid_key k \<and> room_for self w k)"

lemma cleanup_flush_total:
  assumes "flushable self start w v"
  shows "\<exists>w' v'. cleanup_flush (fs_store fuel self) (w, v) = (Ok (), (w', v')) \<and> flushable self start w' v'"
proof (cases "cv_batch v = []")
  case True
  then show ?thesis using assms by (simp add: cleanup_flush_def)
next
  case False
  have a: "fs_inv self w" "only_removes start w" "\<forall>k \<in> set (cv_batch v). valid_key k \<and> room_for self w k"
    using assms by (simp_all add: flushable_def)
  obtain w1 where d: "fs_delete self (cv_batch v) w = (Ok (), w1)" using fs_delete_room [OF a(1,3)] by blast
  have "fs_inv self w1" using fs_delete_effect [OF a(1) d] by blast
  moreover have "only_removes start w1" by (rule only_removes_trans [OF a(2) fs_delete_only [OF a(1) d]])
  ultimately show ?thesis using d False by (simp add: cleanup_flush_def flushable_def)
qed

lemma cleanup_pick_total:
  assumes f: "flushable self start w v" and k: "valid_key k" "fs_blobs self w k \<noteq> None"
  shows "\<exists>w' v'. cleanup_pick (fs_store fuel self) n pick k (w, v) = (Ok True, (w', v')) \<and>
    flushable self start w' v'"
proof (cases pick)
  case True
  let ?v = "v\<lparr>cv_batch := cv_batch v @ [k]\<rparr>"
  have "flushable self start w ?v"
    using f k stored_room [of self w k] by (auto simp: flushable_def)
  then show ?thesis
    using True cleanup_flush_total [of self start w ?v fuel] by (auto simp: cleanup_pick_def Let_def)
qed (use f in \<open>simp add: cleanup_pick_def\<close>)

lemma cleanup_fs_succeeds:
  assumes i: "fs_inv self start" and v: "\<forall>k. fs_blobs self start k \<noteq> None \<longrightarrow> valid_key k"
    and n: "int n \<le> max_batch_capacity" and fuel: "length (fs_nodes start) + 1 \<le> fuel"
  shows "\<exists>res w'. cleanup now (cleanup_of fuel self pred n) start = (Ok res, w')"
proof -
  let ?vis = "cleanup_visit now (fs_store fuel self) pred n"
  let ?v = "\<lparr>cv_batch = [], cv_deleted_count = 0\<rparr>"
  have at: "act_total self (dirs_at self start) (visit_entry self ?vis) (flushable self start)"
    unfolding act_total_def
  proof (intro conjI allI impI)
    show "fs_inv self w" "dirs_at self w = dirs_at self start"
      if "flushable self start w v" for w v
      using that only_removes_dirs by (auto simp: flushable_def)
    fix w v k p
    assume f: "flushable self start w v" and p: "path_of self k p" "fs_blobs self w k \<noteq> None"
    have w: "fs_inv self w" "only_removes start w" using f by (simp_all add: flushable_def)
    have "fs_blobs self start k \<noteq> None" using p(2) only_removes_file [OF w(2)] by (auto simp: fs_blobs_Some)
    then have "valid_key k" using v by blast
    then show "\<exists>b w' v'. visit_entry self ?vis p k (w, v) = (Ok b, w', v') \<and> flushable self start w' v'"
      unfolding cleanup_call [OF w p(2,1)] using cleanup_pick_total [OF f _ p(2)] by blast
  qed
  have fl: "flushable self start start ?v" using i by (simp add: flushable_def)
  have hr: "hint_ready self (prefix_filter []) start"
    using fs_invD(4) [OF i]
    by (simp add: hint_ready_def hint_clean_def hint_dir_def dirs_at_def validate_prefix_hint_def starts_with_def)
  obtain w1 v1 where w: "walk_tree fuel self (prefix_filter []) (visit_entry self ?vis) (start, ?v) =
      (Ok (), (w1, v1))" "flushable self start w1 v1"
    using walk_tree_total [OF at fl hr fuel] by auto
  then show ?thesis
    using cleanup_flush_total [OF w(2), of fuel] n
    by (auto simp: cleanup_def fs_visit_def io_bind_eq)
qed

end
