(* ===== verification/Cleanup_Properties.thy ===== *)
theory Cleanup_Properties
  imports Cleanup_Fs Encrypt_Properties
begin

text \<open>
  The properties of the cleanup layer: over the filesystem backend, over a prefix of it, and over the
  encryption layer.
\<close>

section \<open>Over the filesystem backend\<close>

text \<open>
  C23: cleanup deletes exactly what the predicate selects. The predicate is asked about every stored
  blob with the file's size and modification time. When the run succeeds the blobs it selects are
  gone, every other blob is as it was, and the count is their number; when it fails, half-way
  through the walk or in a batch, no other blob has been touched.
\<close>
theorem cleanup_exact:
  assumes "fs_inv self w" "cleanup now (cleanup_of fuel self pred n) w = (r, w')"
  shows "fs_inv self w' \<and>
    (\<forall>k. fs_blobs self w' k = fs_blobs self w k \<or> k \<in> selected self pred w \<and> fs_blobs self w' k = None) \<and>
    (\<forall>res. r = Ok res \<longrightarrow> fs_blobs self w' = (fs_blobs self w) |` (- selected self pred w) \<and>
       cr_deleted_count res = of_nat (card (selected self pred w)))"
  using cleanup_fs_effect [OF assms] by blast

theorem cleanup_exact_witness:
  "fst (cleanup (\<lambda>_. 0) (cleanup_of 5 demo_store (\<lambda>k m. 1 < stored_size m) 7) demo_fs) =
     Ok \<lparr>cr_deleted_count = 1\<rparr> \<and>
   fs_blobs demo_store (snd (cleanup (\<lambda>_. 0) (cleanup_of 5 demo_store (\<lambda>k m. 1 < stored_size m) 7) demo_fs)) ''s/b'' =
     Some [3]"
proof -
  let ?p = "\<lambda>(k :: key) m. 1 < stored_size m"
  have r: "fst (cleanup (\<lambda>_. 0) (cleanup_of 5 demo_store ?p 7) demo_fs) = Ok \<lparr>cr_deleted_count = 1\<rparr>"
    by code_simp
  have b: "fs_blobs demo_store demo_fs ''s/b'' = Some [3]" by code_simp
  have "\<not> ?p ''s/b'' (stored_meta demo_store demo_fs ''s/b'')" by code_simp
  then have "''s/b'' \<notin> selected demo_store ?p demo_fs" by (simp add: selected_def)
  then have "fs_blobs demo_store (snd (cleanup (\<lambda>_. 0) (cleanup_of 5 demo_store ?p 7) demo_fs)) ''s/b'' =
      fs_blobs demo_store demo_fs ''s/b''"
    using cleanup_exact [OF demo_inv surjective_pairing] by blast
  then show ?thesis using r b by simp
qed



text \<open>
  The batch stays bounded. After every key that the visitor has taken, fewer than \<open>batch_size\<close>
  keys are pending (none when \<open>batch_size\<close> is zero), so a batch that is deleted never holds more
  than \<open>batch_size\<close> keys (or one); and the count only grows by what was deleted.
\<close>
theorem cleanup_batch_bounded:
  assumes "length (cv_batch v) < max 1 n"
    and "cleanup_visit now store pred n k meta (w, v) = (Ok b, (w', v'))"
  shows "b \<and> length (cv_batch v') < max 1 n \<and>
    (cv_batch v' = cv_batch v \<and> cv_deleted_count v' = cv_deleted_count v \<or>
     cv_batch v' = cv_batch v @ [k] \<and> cv_deleted_count v' = cv_deleted_count v \<or>
     (\<exists>w1. bs_delete store (cv_batch v @ [k]) w = (Ok (), w1)) \<and> cv_batch v' = [] \<and>
     length (cv_batch v @ [k]) = max 1 n \<and>
     cv_deleted_count v' = cv_deleted_count v + of_nat (length (cv_batch v) + 1))"
proof -
  let ?pick = "pred k (case meta of Some m \<Rightarrow> m | None \<Rightarrow> blob_meta_for_key (now w) k)"
  let ?v = "v\<lparr>cv_batch := cv_batch v @ [k]\<rparr>"
  have e: "cleanup_pick store n ?pick k (w, v) = (Ok b, (w', v'))"
    using assms(2) by (simp add: cleanup_visit_def)
  consider "\<not> ?pick" | "?pick" "\<not> n \<le> Suc (length (cv_batch v))" | "?pick" "n \<le> Suc (length (cv_batch v))"
    by blast
  then show ?thesis
  proof cases
    case 3
    obtain x w1 where d: "bs_delete store (cv_batch v @ [k]) w = (x, w1)"
      by (cases "bs_delete store (cv_batch v @ [k]) w")
    have "io_bind (cleanup_flush store) (\<lambda>_. io_ret True) (w, ?v) = (Ok b, (w', v'))"
      using e 3 by (simp add: cleanup_pick_def Let_def)
    then have "x = Ok ()" "b" "cv_batch v' = []"
        "cv_deleted_count v' = cv_deleted_count v + of_nat (length (cv_batch v) + 1)"
      using d by (cases x; auto simp: cleanup_flush_def io_bind_eq)+
    then show ?thesis using d 3(2) assms(1) by auto
  qed (use e assms(1) in \<open>auto simp: cleanup_pick_def Let_def\<close>)
qed

theorem cleanup_batch_bounded_witness:
  "\<exists>b w' v'. cleanup_visit (\<lambda>_. 0) (fs_store 5 demo_store) (\<lambda>k m. True) 2 ''a'' None
      (demo_fs, \<lparr>cv_batch = [''s/b''], cv_deleted_count = 3\<rparr>) = (Ok b, (w', v')) \<and> cv_batch v' = []"
proof -
  let ?v = "\<lparr>cv_batch = [''s/b''], cv_deleted_count = 3\<rparr>"
  let ?c = "cleanup_visit (\<lambda>_. 0) (fs_store 5 demo_store) (\<lambda>k m. True) 2 ''a'' None (demo_fs, ?v)"
  have "fst ?c = Ok True" "cv_deleted_count (snd (snd ?c)) = 5" by code_simp+
  then obtain w' v' where c: "?c = (Ok True, (w', v'))" "cv_deleted_count v' = 5" by (metis prod.collapse)
  have "length (cv_batch ?v) < max 1 2" by simp
  from cleanup_batch_bounded [OF this c(1)] c show ?thesis by auto
qed

section \<open>Over a prefix, and over the encryption layer\<close>

text \<open>
  C25: cleanup of a prefix-scoped store stays in its scope. For a predicate on keys, a successful run
  removes exactly the blobs at \<open>p @ k\<close> whose logical key \<open>k\<close> the predicate selects; and however the run
  ends, no blob outside the prefix is touched.
\<close>
theorem cleanup_scoped:
  assumes "fs_inv self w" "prefix_filter_ok p fs_filter_ok (prefix_filter [])"
    and "\<And>k m. bm_key m = k \<Longrightarrow> pred k m = sel k"
    and "cleanup now \<lparr>bc_inner = prefix_store (fs_store fuel self) p, bc_predicate = pred, bc_batch_size = n\<rparr> w = (r, w')"
  shows "fs_inv self w' \<and> (\<forall>k. \<not> starts_with k p \<longrightarrow> fs_blobs self w' k = fs_blobs self w k) \<and>
    (\<forall>k. fs_blobs self w' (p @ k) = fs_blobs self w (p @ k) \<or> sel k \<and> fs_blobs self w' (p @ k) = None) \<and>
    (\<forall>res. r = Ok res \<longrightarrow>
       (\<forall>k. fs_blobs self w' (p @ k) = (if sel k then None else fs_blobs self w (p @ k))) \<and>
       cr_deleted_count res = of_nat (card {k. fs_blobs self w (p @ k) \<noteq> None \<and> sel k}))"
proof -
  let ?st = "prefix_store (fs_store fuel self) p :: ('a fsys_scheme, cleanup_visitor) blob_store"
  let ?K = "\<lambda>w1. fs_inv self w1 \<and> (\<forall>k. \<not> starts_with k p \<longrightarrow> fs_blobs self w1 k = fs_blobs self w k)"
  have L: "cleanup_layer ?st (fs_inv self) (prefix_blobs p (fs_blobs self)) (prefix_ok p valid_key)
      (\<lambda>k. utf8 (p @ k)) (prefix_filter_ok p fs_filter_ok)"
    by (rule cleanup_layer.intro [OF pfs.pre.steady.steady_contract_axioms]) (simp add: cleanup_layer_axioms_def assms(2))
  have K: "delete_keeps (fs_inv self) ?st ?K"
    unfolding delete_keeps_def
  proof (intro conjI allI impI)
    fix w1 :: "'a fsys_scheme" and ks x w2 k
    assume k1: "?K w1" and d: "bs_delete ?st ks w1 = (x, w2)"
    show "fs_inv self w2" using pfs.pre.delete_frame [OF _ d] k1 by blast
    show "fs_blobs self w2 k = fs_blobs self w k" if "\<not> starts_with k p"
      using pfs.outside_delete [OF conjunct1 [OF k1] _ that, where fuel = fuel and ks = ks and r = x and w' = w2] d k1 that
      by simp
  qed simp
  have e: "cleanup_T ?K (prefix_blobs p (fs_blobs self)) sel w w' \<and>
    (\<forall>res. r = Ok res \<longrightarrow> finite {k \<in> dom (prefix_blobs p (fs_blobs self) w). sel k} \<and>
       prefix_blobs p (fs_blobs self) w' =
         (prefix_blobs p (fs_blobs self) w) |` (- {k \<in> dom (prefix_blobs p (fs_blobs self) w). sel k}) \<and>
       cr_deleted_count res = of_nat (card {k \<in> dom (prefix_blobs p (fs_blobs self) w). sel k}))"
    by (rule cleanup_layer.cleanup_effect [OF L K _ assms(3,4)]) (simp_all add: assms(1))
  have d: "{k \<in> dom (prefix_blobs p (fs_blobs self) w). sel k} = {k. fs_blobs self w (p @ k) \<noteq> None \<and> sel k}"
    by (auto simp: prefix_blobs_def)
  have exact: "fs_blobs self w' (p @ k) = (if sel k then None else fs_blobs self w (p @ k))" if "r = Ok res" for k res
  proof -
    have "prefix_blobs p (fs_blobs self) w' k =
        ((prefix_blobs p (fs_blobs self) w) |` (- {k \<in> dom (prefix_blobs p (fs_blobs self) w). sel k})) k"
      using e that by simp
    then show ?thesis by (auto simp: prefix_blobs_def restrict_map_def split: if_splits)
  qed
  note T = conjunct1 [OF e, unfolded cleanup_T_def]
  show ?thesis
  proof (intro conjI allI impI)
    show "fs_inv self w'" using T by simp
    show "fs_blobs self w' k = fs_blobs self w k" if "\<not> starts_with k p" for k using T that by simp
    show "fs_blobs self w' (p @ k) = fs_blobs self w (p @ k) \<or> sel k \<and> fs_blobs self w' (p @ k) = None" for k
      using conjunct2 [OF T, rule_format, of k] unfolding prefix_blobs_def by metis
    show "fs_blobs self w' (p @ k) = (if sel k then None else fs_blobs self w (p @ k))" if "r = Ok res" for res k
      by (rule exact [OF that])
    show "cr_deleted_count res = of_nat (card {k. fs_blobs self w (p @ k) \<noteq> None \<and> sel k})" if "r = Ok res" for res
      using e that unfolding d by simp
  qed
qed

theorem cleanup_scoped_witness:
  "fst (cleanup (\<lambda>_. 0) \<lparr>bc_inner = prefix_store (fs_store 5 demo_store) ''s/'',
      bc_predicate = (\<lambda>k m. True), bc_batch_size = 9\<rparr> demo_fs) = Ok \<lparr>cr_deleted_count = 1\<rparr> \<and>
   fs_blobs demo_store (snd (cleanup (\<lambda>_. 0) \<lparr>bc_inner = prefix_store (fs_store 5 demo_store) ''s/'',
      bc_predicate = (\<lambda>k m. True), bc_batch_size = 9\<rparr> demo_fs)) ''a'' = Some [1, 2]"
proof -
  let ?c = "cleanup (\<lambda>_. 0) \<lparr>bc_inner = prefix_store (fs_store 5 demo_store) ''s/'',
      bc_predicate = (\<lambda>k m. True), bc_batch_size = 9\<rparr> demo_fs"
  have r: "fst ?c = Ok \<lparr>cr_deleted_count = 1\<rparr>" by code_simp
  have f: "prefix_filter_ok ''s/'' fs_filter_ok (prefix_filter [])"
    by (simp add: prefix_filter_ok_def fs_filter_ok_def combined_sound hint_clean_def hint_dir_def
        combined_matches combined_full_eq KEY_SEPARATOR_def good_component_def)
  have a: "\<not> starts_with ''a'' ''s/''" "fs_blobs demo_store demo_fs ''a'' = Some [1, 2]" by code_simp+
  have "fs_blobs demo_store (snd ?c) ''a'' = fs_blobs demo_store demo_fs ''a''"
    by (rule cleanup_scoped [where sel = "\<lambda>_. True", OF demo_inv f _ surjective_pairing,
          THEN conjunct2, THEN conjunct1, rule_format, OF _ a(1)]) simp
  then show ?thesis using r a(2) by simp
qed

text \<open>
  C26: cleanup over the encryption layer removes whole blobs. For a predicate on keys the run sees the
  caller's keys only; when it succeeds exactly the selected plaintexts are gone, and however it ends
  every other plaintext is what it was and every complete pair still opens.
\<close>
theorem cleanup_encrypted:
  assumes "provider_ok (fs_inv self) (fs_blobs self) enc opens"
    and "enc_inv suf opens (fs_inv self) (fs_blobs self) w"
    and "\<And>k m. bm_key m = k \<Longrightarrow> pred k m = sel k"
    and "cleanup now \<lparr>bc_inner = enc_store \<lparr>ebs_inner = fs_store fuel self, ebs_encryption = enc,
        ebs_header_suffix = suf, ebs_header_completion_timeout = timeout\<rparr>,
      bc_predicate = pred, bc_batch_size = n\<rparr> w = (r, w')"
  shows "enc_inv suf opens (fs_inv self) (fs_blobs self) w' \<and>
    (\<forall>k. \<not> sel k \<longrightarrow> enc_blobs suf opens (fs_blobs self) w' k = enc_blobs suf opens (fs_blobs self) w k) \<and>
    (\<forall>res. r = Ok res \<longrightarrow>
       enc_blobs suf opens (fs_blobs self) w' = (enc_blobs suf opens (fs_blobs self) w) |` {k. \<not> sel k} \<and>
       cr_deleted_count res = of_nat (card {k \<in> dom (enc_blobs suf opens (fs_blobs self) w). sel k}))"
proof -
  let ?st = "enc_store \<lparr>ebs_inner = fs_store fuel self, ebs_encryption = enc,
        ebs_header_suffix = suf, ebs_header_completion_timeout = timeout\<rparr> :: ('a fsys_scheme, cleanup_visitor) blob_store"
  let ?good = "enc_inv suf opens (fs_inv self) (fs_blobs self)"
  let ?plain = "enc_blobs suf opens (fs_blobs self)"
  note E = fs_encryption_visit [OF assms(1), where fuel = fuel and 'v = cleanup_visitor]
  have B: "blob_contract ?st ?good ?plain (enc_ok suf) (\<lambda>k. utf8 k \<and> utf8 (k @ suf)) (\<lambda>_. True)"
    by (rule encryption_visit_layer.enc_visit_contract [OF E])
  have L: "cleanup_layer ?st ?good ?plain (enc_ok suf) (\<lambda>k. utf8 k \<and> utf8 (k @ suf)) (\<lambda>_. True)"
    by (rule cleanup_layer.intro [OF blob_contract.is_steady [OF B]]) (simp add: cleanup_layer_axioms_def)
  have K: "delete_keeps ?good ?st ?good"
    unfolding delete_keeps_def using blob_ops.delete_frame [OF blob_contract.axioms(1) [OF B]] by blast
  have e: "cleanup_T ?good ?plain sel w w' \<and>
    (\<forall>res. r = Ok res \<longrightarrow> finite {k \<in> dom (?plain w). sel k} \<and>
       ?plain w' = (?plain w) |` (- {k \<in> dom (?plain w). sel k}) \<and>
       cr_deleted_count res = of_nat (card {k \<in> dom (?plain w). sel k}))"
    by (rule cleanup_layer.cleanup_effect [OF L K assms(2,3,4)])
  note T = conjunct1 [OF e, unfolded cleanup_T_def]
  have m: "(?plain w) |` (- {k \<in> dom (?plain w). sel k}) = (?plain w) |` {k. \<not> sel k}"
    by (auto simp: restrict_map_def fun_eq_iff)
  show ?thesis
  proof (intro conjI allI impI)
    show "?good w'" using T by (rule conjunct1)
    show "?plain w' k = ?plain w k" if "\<not> sel k" for k using conjunct2 [OF T, rule_format, of k] that by metis
    show "?plain w' = (?plain w) |` {k. \<not> sel k}" if "r = Ok res" for res using e that unfolding m by simp
    show "cr_deleted_count res = of_nat (card {k \<in> dom (?plain w). sel k})" if "r = Ok res" for res
      using e that by simp
  qed
qed

theorem cleanup_encrypted_witness:
  "demo_plain (snd (cleanup (\<lambda>_. 0) \<lparr>bc_inner = enc_store \<lparr>ebs_inner = fs_store 9 demo_store,
        ebs_encryption = envelope_encryption demo_kek 2 7, ebs_header_suffix = ''.h'',
        ebs_header_completion_timeout = 1000\<rparr>,
      bc_predicate = (\<lambda>k m. ends_with k ''z''), bc_batch_size = 1\<rparr> sealed_fs)) ''a'' = Some [1, 2]"
proof -
  have "demo_plain sealed_fs ''a'' = Some [1, 2]" "\<not> ends_with ''a'' ''z''" by code_simp+
  moreover have "demo_plain (snd (cleanup (\<lambda>_. 0) \<lparr>bc_inner = enc_store \<lparr>ebs_inner = fs_store 9 demo_store,
        ebs_encryption = envelope_encryption demo_kek 2 7, ebs_header_suffix = ''.h'',
        ebs_header_completion_timeout = 1000\<rparr>,
      bc_predicate = (\<lambda>k m. ends_with k ''z''), bc_batch_size = 1\<rparr> sealed_fs)) ''a'' = demo_plain sealed_fs ''a''"
    by (rule cleanup_encrypted [where sel = "\<lambda>k. ends_with k ''z''", OF envelope_ok sealed_good _ surjective_pairing,
          THEN conjunct2, THEN conjunct1, rule_format]) (simp_all add: \<open>\<not> ends_with ''a'' ''z''\<close>)
  ultimately show ?thesis by simp
qed

end
