(* ===== verification/S3_Store.thy ===== *)
theory S3_Store
  imports Blob_Store
begin

text \<open>
  \<open>s3.rs\<close>, \<open>s3/single.rs\<close>, \<open>s3/multipart.rs\<close> and \<open>s3/store.rs\<close>: the S3 backend.

  The SDK client is code outside the crate, so it is a parameter: a record with one field per request
  that the code sends, each a computation on the world with the response fields the code reads. A
  body returned by GetObject is a \<open>reader\<close>. \<open>DateTime::from_timestamp\<close> and the clock are parameters
  of the store as well. Log messages are left out.
\<close>

section \<open>The client\<close>

type_synonym i32 = "32 word"
type_synonym i64 = "64 word"
type_synonym s3_time = "int \<times> int"

record object_info =
  oi_key :: "key option"
  oi_size :: "i64 option"
  oi_etag :: "string option"
  oi_last_modified :: "s3_time option"

record list_page =
  lp_contents :: "object_info list"
  lp_next_token :: "string option"

record get_object_response =
  go_body :: reader
  go_content_length :: "i64 option"
  go_etag :: "string option"
  go_last_modified :: "s3_time option"

record s3_object_error =
  se_key :: "key option"
  se_code :: "string option"
  se_message :: "string option"

record delete_output =
  do_deleted :: "key option list"
  do_errors :: "s3_object_error list"

record completed_part =
  cp_etag :: string
  cp_part_number :: i32

type_synonym ('w, 'a) request = "('w, 'a, sdk_error) comp"

text \<open>Every request starts with the bucket; uploads are addressed by the key and the upload id.\<close>

record 'w s3_client =
  send_put_object :: "string \<Rightarrow> key \<Rightarrow> bytes \<Rightarrow> ('w, string option) request"
  send_get_object :: "string \<Rightarrow> key \<Rightarrow> ('w, get_object_response) request"
  send_head_object :: "string \<Rightarrow> key \<Rightarrow> ('w, unit) request"
  send_delete_objects :: "string \<Rightarrow> key list \<Rightarrow> ('w, delete_output) request"
  send_list_objects :: "string \<Rightarrow> string option \<Rightarrow> string option \<Rightarrow> ('w, list_page) request"
  send_create_upload :: "string \<Rightarrow> key \<Rightarrow> ('w, string option) request"
  send_upload_part :: "string \<Rightarrow> key \<Rightarrow> string \<Rightarrow> i32 \<Rightarrow> bytes \<Rightarrow> ('w, string option) request"
  send_complete_upload :: "string \<Rightarrow> key \<Rightarrow> string \<Rightarrow> completed_part list \<Rightarrow> ('w, string option) request"
  send_abort_upload :: "string \<Rightarrow> key \<Rightarrow> string \<Rightarrow> ('w, unit) request"

section \<open>The store\<close>

definition DEFAULT_MULTIPART_PART_SIZE :: u64 where
  "DEFAULT_MULTIPART_PART_SIZE = 50 * 1024 * 1024"

definition MIN_MULTIPART_PART_SIZE :: u64 where
  "MIN_MULTIPART_PART_SIZE = 5 * 1024 * 1024"

record 'w s3_blob_store =
  s3_client :: "'w s3_client"
  s3_bucket :: string
  s3_part_size :: u64
  s3_from_timestamp :: "int \<Rightarrow> int \<Rightarrow> datetime option"
  s3_now :: "'w \<Rightarrow> datetime"

definition s3_new ::
  "'w s3_client \<Rightarrow> string \<Rightarrow> (int \<Rightarrow> int \<Rightarrow> datetime option) \<Rightarrow> ('w \<Rightarrow> datetime) \<Rightarrow> 'w s3_blob_store"
where
  "s3_new client bucket from_ts now =
     \<lparr>s3_client = client, s3_bucket = bucket, s3_part_size = DEFAULT_MULTIPART_PART_SIZE,
      s3_from_timestamp = from_ts, s3_now = now\<rparr>"

definition with_multipart_part_size :: "'w s3_blob_store \<Rightarrow> u64 \<Rightarrow> 'w s3_blob_store" where
  "with_multipart_part_size self sz =
     self\<lparr>s3_part_size := max sz MIN_MULTIPART_PART_SIZE\<rparr>"

definition multipart_part_size :: "'w s3_blob_store \<Rightarrow> u64" where
  "multipart_part_size self = s3_part_size self"

section \<open>Errors\<close>

definition is_not_found :: "sdk_error \<Rightarrow> bool" where
  "is_not_found e \<longleftrightarrow>
     (case sdk_service_code e of None \<Rightarrow> False | Some code \<Rightarrow> code = ''NoSuchKey'' \<or> code = ''NotFound'')"

definition is_misconfigured :: "sdk_error \<Rightarrow> bool" where
  "is_misconfigured e \<longleftrightarrow>
     (case sdk_service_code e of None \<Rightarrow> False | Some code \<Rightarrow> code = ''NoSuchBucket'')"

definition bucket_missing :: "'w s3_blob_store \<Rightarrow> blob_storage_error" where
  "bucket_missing self = BackendMisconfigured
     (''S3 bucket '' @ squoted (s3_bucket self) @ '' does not exist or is not accessible'')"

text \<open>The error mapping that every request but GetObject and HeadObject has.\<close>

definition map_s3_error :: "'w s3_blob_store \<Rightarrow> string \<Rightarrow> sdk_error \<Rightarrow> blob_storage_error" where
  "map_s3_error self message e =
     (if is_misconfigured e then bucket_missing self else Storage message (Some (DynSdk e)))"

definition map_get_error :: "'w s3_blob_store \<Rightarrow> key \<Rightarrow> sdk_error \<Rightarrow> blob_storage_error" where
  "map_get_error self key e =
     (if is_misconfigured e then bucket_missing self
      else if is_not_found e then NotFound key
      else Storage (''S3 get failed for key '' @ squoted key) (Some (DynSdk e)))"

definition get_object_output :: "'w s3_blob_store \<Rightarrow> key \<Rightarrow> ('w, get_object_response) io" where
  "get_object_output self key =
     io_map_err (map_get_error self key) (send_get_object (s3_client self) (s3_bucket self) key)"

section \<open>Reading ahead\<close>

text \<open>
  Reads until \<open>cap\<close> bytes are in the buffer or the stream ends: the lookahead loop of \<open>put\<close>, whose
  buffer has room for what is missing, and \<open>take(part_size).read_to_end\<close>.
\<close>

function read_up_to :: "nat \<Rightarrow> bytes \<Rightarrow> reader \<Rightarrow> (bytes \<times> reader, io_error) result" where
  "read_up_to cap buf rd =
     (if length buf < cap then
        (case read_buf (cap - length buf) rd of
           (Ok bs, rd') \<Rightarrow> if bs = [] then Ok (buf, rd') else read_up_to cap (buf @ bs) rd'
         | (Err e, _) \<Rightarrow> Err e
         | (Hang, _) \<Rightarrow> Hang)
      else Ok (buf, rd))"
  by pat_completeness auto
termination
  by (relation "measure (\<lambda>(cap, buf, rd). cap - length buf)") (auto intro!: diff_less_mono2)

declare read_up_to.simps [simp del]

text \<open>\<open>AsyncReadExt::chain\<close> of a slice with a stream.\<close>

definition chain_slice :: "bytes \<Rightarrow> reader \<Rightarrow> reader" where
  "chain_slice bs rd = rd\<lparr>rd_chunks := bs # rd_chunks rd\<rparr>"

lemma read_up_to_full:
  "cap \<le> length buf + length (rd_bytes rd) \<Longrightarrow> length buf \<le> cap \<Longrightarrow>
   \<exists>rd'. read_up_to cap buf rd = Ok (buf @ take (cap - length buf) (rd_bytes rd), rd') \<and>
     rd_bytes rd' = drop (cap - length buf) (rd_bytes rd) \<and> rd_end rd' = rd_end rd"
proof (induction cap buf rd rule: read_up_to.induct)
  case (1 cap buf rd)
  show ?case
  proof (cases "length buf < cap")
    case False
    then show ?thesis using 1(3) by (simp add: read_up_to.simps [of cap])
  next
    case True
    obtain x rd1 where r: "read_buf (cap - length buf) rd = (x, rd1)" by (metis surj_pair)
    have ne: "rd_bytes rd \<noteq> []" using True 1(2) by auto
    then obtain bs where x: "x = Ok bs"
      using read_buf_not_Ok(1) [of "cap - length buf" rd _ rd1] read_buf_not_Ok(2) [of "cap - length buf" rd rd1] r
      by (cases x) auto
    note b = read_buf_Ok [OF r [unfolded x]]
    have bs: "bs \<noteq> []" using b(4) ne True by auto
    have "cap \<le> length (buf @ bs) + length (rd_bytes rd1)" "length (buf @ bs) \<le> cap"
      using 1(2) b(1,2) True by auto
    then obtain rd' where
        i: "read_up_to cap (buf @ bs) rd1 = Ok ((buf @ bs) @ take (cap - length (buf @ bs)) (rd_bytes rd1), rd')"
          "rd_bytes rd' = drop (cap - length (buf @ bs)) (rd_bytes rd1)" "rd_end rd' = rd_end rd1"
      using 1(1) [OF True r [symmetric] x bs] by blast
    have e: "cap - length (buf @ bs) = cap - length buf - length bs" by simp
    have t: "take (cap - length buf) (rd_bytes rd) = bs @ take (cap - length (buf @ bs)) (rd_bytes rd1)"
      unfolding b(1) e using b(2) by simp
    have d: "drop (cap - length buf) (rd_bytes rd) = drop (cap - length (buf @ bs)) (rd_bytes rd1)"
      unfolding b(1) e using b(2) by simp
    have "read_up_to cap buf rd = read_up_to cap (buf @ bs) rd1"
      using True r x bs by (simp add: read_up_to.simps [of cap buf])
    then show ?thesis using i t d b(3) by simp
  qed
qed

lemma read_up_to_short:
  "length buf + length (rd_bytes rd) < cap \<Longrightarrow>
   (case rd_end rd of
      Eof \<Rightarrow> \<exists>rd'. read_up_to cap buf rd = Ok (buf @ rd_bytes rd, rd') \<and> rd_bytes rd' = [] \<and> rd_end rd' = Eof
    | Fails e \<Rightarrow> read_up_to cap buf rd = Err e
    | Stalls \<Rightarrow> read_up_to cap buf rd = Hang)"
proof (induction cap buf rd rule: read_up_to.induct)
  case (1 cap buf rd)
  have True: "length buf < cap" using 1(2) by simp
  obtain x rd1 where r: "read_buf (cap - length buf) rd = (x, rd1)" by (metis surj_pair)
  note u = read_up_to.simps [of cap buf rd]
  show ?case
  proof (cases x)
    case (Ok bs)
    note b = read_buf_Ok [OF r [unfolded Ok]]
    show ?thesis
    proof (cases "bs = []")
      case True
      then have "rd_bytes rd = [] \<and> rd_end rd = Eof" using b(4) \<open>length buf < cap\<close> by simp
      then show ?thesis using u r Ok True \<open>length buf < cap\<close> b(1,3) by simp
    next
      case False
      have l: "length (buf @ bs) + length (rd_bytes rd1) < cap" using 1(2) b(1) by simp
      have "read_up_to cap buf rd = read_up_to cap (buf @ bs) rd1" using u r Ok False True by simp
      then show ?thesis using 1(1) [OF True r [symmetric] Ok False l] b(1,3) by (cases "rd_end rd") simp_all
    qed
  next
    case (Err e)
    then show ?thesis using read_buf_not_Ok(1) [of "cap - length buf" rd e rd1] r u True by simp
  next
    case Hang
    then show ?thesis using read_buf_not_Ok(2) [of "cap - length buf" rd rd1] r u True by simp
  qed
qed

text \<open>What was read and what is left make up the stream; fewer than \<open>cap\<close> bytes only at its end.\<close>

lemma read_up_to_Ok:
  assumes "read_up_to cap [] rd = Ok (bs, rd')"
  shows "rd_bytes rd = bs @ rd_bytes rd'" "rd_end rd' = rd_end rd" "bs = take cap (rd_bytes rd)"
    "length bs < cap \<Longrightarrow> rd_end rd = Eof \<and> rd_bytes rd' = []"
proof -
  have "rd_bytes rd = bs @ rd_bytes rd' \<and> rd_end rd' = rd_end rd \<and> bs = take cap (rd_bytes rd) \<and>
      (length bs < cap \<longrightarrow> rd_end rd = Eof \<and> rd_bytes rd' = [])"
  proof (cases "cap \<le> length (rd_bytes rd)")
    case True
    then show ?thesis using read_up_to_full [of cap "[]" rd] assms by auto
  next
    case False
    then show ?thesis using read_up_to_short [of "[]" rd cap] assms by (cases "rd_end rd") auto
  qed
  then show "rd_bytes rd = bs @ rd_bytes rd'" "rd_end rd' = rd_end rd" "bs = take cap (rd_bytes rd)"
    "length bs < cap \<Longrightarrow> rd_end rd = Eof \<and> rd_bytes rd' = []" by blast+
qed

lemma read_up_to_not_Ok:
  assumes "\<forall>x. read_up_to cap [] rd \<noteq> Ok x"
  shows "length (rd_bytes rd) < cap" "rd_end rd \<noteq> Eof"
proof -
  show s: "length (rd_bytes rd) < cap" using read_up_to_full [of cap "[]" rd] assms by force
  show "rd_end rd \<noteq> Eof" using read_up_to_short [of "[]" rd cap] s assms by auto
qed

lemma chain_slice_simps [simp]:
  "rd_bytes (chain_slice bs rd) = bs @ rd_bytes rd" "rd_end (chain_slice bs rd) = rd_end rd"
  by (simp_all add: chain_slice_def rd_bytes_def)

section \<open>Uploading one blob\<close>

text \<open>\<open>s3/single.rs\<close>.\<close>

definition s3_put_object :: "'w s3_blob_store \<Rightarrow> key \<Rightarrow> bytes \<Rightarrow> ('w, blob_meta) io" where
  "s3_put_object self key data =
     io_bind (io_map_err (map_s3_error self (''S3 PutObject failed for key '' @ squoted key))
                (send_put_object (s3_client self) (s3_bucket self) key data))
       (\<lambda>e_tag. io_bind (io_gets (s3_now self)) (\<lambda>now.
          io_ret \<lparr>bm_key = key, stored_size = len64 data, modified_at = now, etag = e_tag\<rparr>))"

text \<open>\<open>s3/multipart.rs\<close>.\<close>

definition start_multipart :: "'w s3_blob_store \<Rightarrow> key \<Rightarrow> ('w, string) io" where
  "start_multipart self key =
     io_bind (io_map_err (map_s3_error self (''S3 CreateMultipartUpload failed for key '' @ squoted key))
                (send_create_upload (s3_client self) (s3_bucket self) key))
       (\<lambda>upload_id. case upload_id of
          None \<Rightarrow> io_err (Storage
            (''Missing upload_id in CreateMultipartUpload response for key '' @ squoted key) None)
        | Some uid \<Rightarrow> io_ret uid)"

definition abort_upload :: "'w s3_blob_store \<Rightarrow> key \<Rightarrow> string \<Rightarrow> ('w, unit) io" where
  "abort_upload self key uid =
     io_ignore (send_abort_upload (s3_client self) (s3_bucket self) key uid)"

definition part_failed :: "key \<Rightarrow> i32 \<Rightarrow> string \<Rightarrow> string" where
  "part_failed key part_number uid =
     ''S3 UploadPart failed for key '' @ squoted key @ '' (part '' @ show_nat (unat part_number) @
     '', upload_id '' @ uid @ '')''"

text \<open>
  The loop of \<open>upload_parts\<close>: one round per part. It ends because every round takes at least one byte
  from the stream. Running out of part numbers would take more than \<open>2\<^bsup>31\<^esup>\<close> parts.
\<close>

function upload_loop ::
  "'w s3_blob_store \<Rightarrow> key \<Rightarrow> string \<Rightarrow> completed_part list \<Rightarrow> i32 \<Rightarrow> u64 \<Rightarrow> reader \<Rightarrow>
   ('w, completed_part list \<times> u64) io"
where
  "upload_loop self key uid parts part_number total_size rd w =
     (case read_up_to (unat (s3_part_size self)) [] rd of
        Err e \<Rightarrow> io_bind (abort_upload self key uid)
          (\<lambda>_. io_err (Storage (''failed to read blob data for key '' @ squoted key) (Some (DynIo e)))) w
      | Hang \<Rightarrow> (Hang, w)
      | Ok (buffer, rd') \<Rightarrow>
          if buffer = [] then (Ok (parts, total_size), w)
          else
            (case send_upload_part (s3_client self) (s3_bucket self) key uid part_number buffer w of
               (Ok e_tag, w1) \<Rightarrow>
                 upload_loop self key uid
                   (parts @ [\<lparr>cp_etag = (case e_tag of None \<Rightarrow> [] | Some t \<Rightarrow> t), cp_part_number = part_number\<rparr>])
                   (part_number + 1) (total_size + len64 buffer) rd' w1
             | (Err e, w1) \<Rightarrow> io_bind (abort_upload self key uid)
                 (\<lambda>_. io_err (map_s3_error self (part_failed key part_number uid) e)) w1
             | (Hang, w1) \<Rightarrow> (Hang, w1)))"
  by pat_completeness auto
termination
  by (relation "measure (\<lambda>(self, key, uid, parts, n, total_size, rd, w). length (rd_bytes rd))")
    (auto dest: read_up_to_Ok(1))

declare upload_loop.simps [simp del]

definition upload_parts ::
  "'w s3_blob_store \<Rightarrow> key \<Rightarrow> string \<Rightarrow> reader \<Rightarrow> ('w, completed_part list \<times> u64) io"
where
  "upload_parts self key uid rd = upload_loop self key uid [] 1 0 rd"

definition complete_multipart ::
  "'w s3_blob_store \<Rightarrow> key \<Rightarrow> string \<Rightarrow> completed_part list \<Rightarrow> u64 \<Rightarrow> ('w, blob_meta) io"
where
  "complete_multipart self key uid parts total_size =
     io_bind (io_map_err (map_s3_error self (''S3 CompleteMultipartUpload failed for key '' @ squoted key))
                (send_complete_upload (s3_client self) (s3_bucket self) key uid parts))
       (\<lambda>e_tag. io_bind (io_gets (s3_now self)) (\<lambda>now.
          io_ret \<lparr>bm_key = key, stored_size = total_size, modified_at = now, etag = e_tag\<rparr>))"

definition upload_multipart :: "'w s3_blob_store \<Rightarrow> key \<Rightarrow> reader \<Rightarrow> ('w, blob_meta) io" where
  "upload_multipart self key rd =
     io_bind (start_multipart self key) (\<lambda>uid.
     io_bind (upload_parts self key uid rd) (\<lambda>(parts, total_size).
       complete_multipart self key uid parts total_size))"

section \<open>The trait's methods\<close>

subsection \<open>put\<close>

definition s3_put_one :: "'w s3_blob_store \<Rightarrow> blob_input \<Rightarrow> ('w, blob_meta) io" where
  "s3_put_one self blob =
     (case read_up_to (unat MIN_MULTIPART_PART_SIZE) [] (bi_data blob) of
        Err e \<Rightarrow> io_err (Storage (''failed to read initial chunk for key '' @ squoted (bi_key blob)) (Some (DynIo e)))
      | Hang \<Rightarrow> io_lift Hang
      | Ok (lookahead, reader) \<Rightarrow>
          if len64 lookahead < MIN_MULTIPART_PART_SIZE
          then s3_put_object self (bi_key blob) lookahead
          else upload_multipart self (bi_key blob) (chain_slice lookahead reader))"

definition s3_put :: "'w s3_blob_store \<Rightarrow> blob_input list \<Rightarrow> ('w, put_result) io" where
  "s3_put self blobs =
     io_bind (io_lift (res_for (\<lambda>blob. validate_blob_key (bi_key blob)) blobs)) (\<lambda>_.
     io_bind (io_mapM (s3_put_one self) blobs) (\<lambda>metas.
     io_ret (put_result_multiple metas)))"

subsection \<open>get and exists\<close>

definition s3_time_to_utc :: "'w s3_blob_store \<Rightarrow> s3_time \<Rightarrow> datetime" where
  "s3_time_to_utc self t =
     (case s3_from_timestamp self (fst t) (snd t) of Some d \<Rightarrow> d | None \<Rightarrow> default_datetime)"

definition s3_get :: "'w s3_blob_store \<Rightarrow> key \<Rightarrow> ('w, reader) io" where
  "s3_get self key =
     io_bind (io_lift (validate_blob_key key)) (\<lambda>_.
     io_bind (get_object_output self key) (\<lambda>output.
     io_ret (go_body output)))"

definition s3_exists :: "'w s3_blob_store \<Rightarrow> key \<Rightarrow> ('w, bool) io" where
  "s3_exists self key =
     io_bind (io_lift (validate_blob_key key)) (\<lambda>_.
     io_catch (send_head_object (s3_client self) (s3_bucket self) key)
       (\<lambda>_. io_ret True)
       (\<lambda>e. if is_misconfigured e then io_err (bucket_missing self)
            else if is_not_found e then io_ret False
            else io_err (Storage (''S3 head failed for key '' @ squoted key) (Some (DynSdk e)))))"

text \<open>The \<open>BlobMeta\<close> made from the optional fields of a response; \<open>as u64\<close> keeps the bits.\<close>

definition meta_of_response ::
  "'w s3_blob_store \<Rightarrow> key \<Rightarrow> i64 option \<Rightarrow> string option \<Rightarrow> s3_time option \<Rightarrow> blob_meta"
where
  "meta_of_response self key sz e_tag modified =
     \<lparr>bm_key = key,
      stored_size = (case sz of Some n \<Rightarrow> n | None \<Rightarrow> 0),
      modified_at = (case modified of Some t \<Rightarrow> s3_time_to_utc self t | None \<Rightarrow> default_datetime),
      etag = e_tag\<rparr>"

definition s3_get_with_metadata :: "'w s3_blob_store \<Rightarrow> key \<Rightarrow> ('w, blob_meta \<times> reader) io" where
  "s3_get_with_metadata self key =
     io_bind (io_lift (validate_blob_key key)) (\<lambda>_.
     io_bind (get_object_output self key) (\<lambda>output.
     io_ret (meta_of_response self key (go_content_length output) (go_etag output) (go_last_modified output),
       go_body output)))"

subsection \<open>delete\<close>

text \<open>\<open>keys.chunks(n)\<close>.\<close>

function chunks :: "nat \<Rightarrow> 'a list \<Rightarrow> 'a list list" where
  "chunks n xs = (if xs = [] \<or> n = 0 then [] else take n xs # chunks n (drop n xs))"
  by pat_completeness auto
termination
  by (relation "measure (\<lambda>(n, xs). length xs)") auto

declare chunks.simps [simp del]

definition code_and_message :: "string \<Rightarrow> string \<Rightarrow> string" where
  "code_and_message code message = (if message = [] then code else code @ '': '' @ message)"

text \<open>One entry of the response's error list: a key that is gone anyway, or an error of its own.\<close>

fun sort_out_error :: "string list \<times> key_error list \<Rightarrow> s3_object_error \<Rightarrow> string list \<times> key_error list" where
  "sort_out_error (succ, errs) s3_err =
     (let key = (case se_key s3_err of Some k \<Rightarrow> k | None \<Rightarrow> ''unknown'');
          code = (case se_code s3_err of Some c \<Rightarrow> c | None \<Rightarrow> ''Unknown'');
          message = (case se_message s3_err of Some m \<Rightarrow> m | None \<Rightarrow> [])
      in if code = ''AccessDenied'' then
           (succ, errs @ [\<lparr>ke_key = key, ke_error = PkPermissionDenied (code_and_message code message)\<rparr>])
         else if code = ''NoSuchKey'' \<or> code = ''NotFound'' then (succ @ [key], errs)
         else (succ, errs @ [\<lparr>ke_key = key, ke_error = PkUnknown (code_and_message code message)\<rparr>]))"

definition sort_out_response ::
  "delete_output \<Rightarrow> string list \<times> key_error list \<Rightarrow> string list \<times> key_error list"
where
  "sort_out_response response acc =
     foldl sort_out_error (fst acc @ List.map_filter (\<lambda>k. k) (do_deleted response), snd acc)
       (do_errors response)"

fun delete_chunks ::
  "'w s3_blob_store \<Rightarrow> key list list \<Rightarrow> string list \<times> key_error list \<Rightarrow>
   ('w, string list \<times> key_error list) io"
where
  "delete_chunks self [] acc = io_ret acc"
| "delete_chunks self (chunk # rest) acc =
     io_bind (io_map_err (map_s3_error self ''S3 batch delete failed'')
                (send_delete_objects (s3_client self) (s3_bucket self) chunk))
       (\<lambda>response. delete_chunks self rest (sort_out_response response acc))"

definition s3_delete :: "'w s3_blob_store \<Rightarrow> key list \<Rightarrow> ('w, unit) io" where
  "s3_delete self keys =
     io_bind (io_lift (res_for validate_blob_key keys)) (\<lambda>_.
     io_bind (delete_chunks self (chunks 1000 keys) ([], [])) (\<lambda>(succ, errs).
     if errs = [] then io_ret ()
     else io_err (Batch \<lparr>succeeded = succ, errors = errs\<rparr>)))"

subsection \<open>The listings and visit\<close>

text \<open>
  One page: the prefix hint narrows the request unless it is empty; the token asks for the page
  after an earlier one.
\<close>

definition request_page :: "'w s3_blob_store \<Rightarrow> list_filter \<Rightarrow> string option \<Rightarrow> ('w, list_page) io" where
  "request_page self f token =
     io_map_err (map_s3_error self ''S3 list failed'')
       (send_list_objects (s3_client self) (s3_bucket self)
          (case prefix_hint f of Some p \<Rightarrow> if p = [] then None else Some p | None \<Rightarrow> None) token)"

text \<open>
  The objects of a page in order: \<open>act\<close> is what the loop does with a matching key, \<open>True\<close> as the
  result of the page means that the action stopped the loop.
\<close>

type_synonym ('w, 'v) object_action = "object_info \<Rightarrow> key \<Rightarrow> ('w \<times> 'v, bool) io"

fun page_objects :: "list_filter \<Rightarrow> ('w, 'v) object_action \<Rightarrow> object_info list \<Rightarrow> ('w \<times> 'v, bool) io" where
  "page_objects f act [] = io_ret False"
| "page_objects f act (obj # objs) =
     (case oi_key obj of
        None \<Rightarrow> page_objects f act objs
      | Some key \<Rightarrow>
          if matches f key None then
            io_bind (act obj key) (\<lambda>continue. if continue then page_objects f act objs else io_ret True)
          else page_objects f act objs)"

text \<open>The pages, from the one that \<open>token\<close> asks for, in at most \<open>n\<close> rounds.\<close>

fun pages ::
  "nat \<Rightarrow> 'w s3_blob_store \<Rightarrow> list_filter \<Rightarrow> ('w, 'v) object_action \<Rightarrow> string option \<Rightarrow>
   ('w \<times> 'v, unit) io"
where
  "pages 0 self f act token = io_lift Hang"
| "pages (Suc n) self f act token =
     io_bind (io_fst (request_page self f token)) (\<lambda>output.
     io_bind (page_objects f act (lp_contents output)) (\<lambda>stopped.
     if stopped then io_ret ()
     else (case lp_next_token output of
             None \<Rightarrow> io_ret ()
           | Some next \<Rightarrow> pages n self f act (Some next))))"

definition push_object_key :: "('w, key list) object_action" where
  "push_object_key obj key = (\<lambda>(w, keys). (Ok True, (w, keys @ [key])))"

definition s3_list :: "nat \<Rightarrow> 'w s3_blob_store \<Rightarrow> list_filter \<Rightarrow> ('w, key list) io" where
  "s3_list fuel self f =
     io_bind (with_acc (pages fuel self f push_object_key None) []) (\<lambda>keys. io_ret (sort keys))"

definition object_meta :: "'w s3_blob_store \<Rightarrow> object_info \<Rightarrow> key \<Rightarrow> blob_meta" where
  "object_meta self obj key = meta_of_response self key (oi_size obj) (oi_etag obj) (oi_last_modified obj)"

definition push_object_meta :: "'w s3_blob_store \<Rightarrow> ('w, blob_meta list) object_action" where
  "push_object_meta self obj key = (\<lambda>(w, metas). (Ok True, (w, metas @ [object_meta self obj key])))"

definition s3_list_with_metadata :: "nat \<Rightarrow> 'w s3_blob_store \<Rightarrow> list_filter \<Rightarrow> ('w, blob_meta list) io" where
  "s3_list_with_metadata fuel self f =
     io_bind (with_acc (pages fuel self f (push_object_meta self) None) [])
       (\<lambda>metas. io_ret (sort_key bm_key metas))"

definition visit_object :: "'w s3_blob_store \<Rightarrow> ('w, 'v) visitor \<Rightarrow> ('w, 'v) object_action" where
  "visit_object self vis obj key = vis key (Some (object_meta self obj key))"

definition s3_visit ::
  "nat \<Rightarrow> 'w s3_blob_store \<Rightarrow> list_filter \<Rightarrow> ('w, 'v) visitor \<Rightarrow> ('w \<times> 'v, unit) io"
where
  "s3_visit fuel self f vis = pages fuel self f (visit_object self vis) None"

definition s3_store :: "nat \<Rightarrow> 'w s3_blob_store \<Rightarrow> ('w, 'v) blob_store" where
  "s3_store fuel self =
     \<lparr>bs_put = s3_put self, bs_get = s3_get self, bs_delete = s3_delete self,
      bs_list = s3_list fuel self, bs_exists = s3_exists self,
      bs_get_with_metadata = s3_get_with_metadata self,
      bs_visit = s3_visit fuel self,
      bs_list_with_metadata = s3_list_with_metadata fuel self\<rparr>"

lemma s3_store_simps [simp]:
  "bs_put (s3_store fuel self) = s3_put self" "bs_get (s3_store fuel self) = s3_get self"
  "bs_delete (s3_store fuel self) = s3_delete self" "bs_list (s3_store fuel self) = s3_list fuel self"
  "bs_exists (s3_store fuel self) = s3_exists self"
  "bs_get_with_metadata (s3_store fuel self) = s3_get_with_metadata self"
  "bs_visit (s3_store fuel self) = s3_visit fuel self"
  "bs_list_with_metadata (s3_store fuel self) = s3_list_with_metadata fuel self"
  by (simp_all add: s3_store_def)

end
