(* ===== verification/S3_Contract.thy ===== *)
theory S3_Contract
  imports S3_Store
begin

text \<open>
  What the S3 backend relies on, as a locale over the client (\<open>s3_service\<close>), and what it makes of it:
  the effect of an upload, of a deletion and of the listings.

  In the service's terms: \<open>objs w\<close> are the objects of the bucket, \<open>ups w\<close> the multipart uploads in
  progress, each with its key and its parts (an ETag and the bytes, by part number), \<open>pos t\<close> the key
  after which the continuation token \<open>t\<close> resumes. Requests that read leave the service as it is, and
  GetObject and HeadObject are answered; every other request may fail, with any error. Every law is what the service documents.
\<close>

type_synonym upload = "key \<times> (i32 \<Rightarrow> (string \<times> bytes) option)"

section \<open>The service\<close>

abbreviation etag_text :: "string option \<Rightarrow> string" where
  "etag_text e \<equiv> (case e of None \<Rightarrow> [] | Some t \<Rightarrow> t)"

text \<open>The keys in the range of a page request.\<close>

definition in_range :: "(string \<Rightarrow> key) \<Rightarrow> string option \<Rightarrow> string option \<Rightarrow> key \<Rightarrow> bool" where
  "in_range pos pfx token k \<longleftrightarrow>
     (case pfx of None \<Rightarrow> True | Some p \<Rightarrow> starts_with k p) \<and>
     (case token of None \<Rightarrow> True | Some t \<Rightarrow> pos t < k)"

text \<open>
  A page has keys of the range in ascending order: all of them if it is the last page, and otherwise
  all up to the last one in the page, where its token resumes.
\<close>

definition page_ok ::
  "(string \<Rightarrow> key) \<Rightarrow> (key \<Rightarrow> bytes option) \<Rightarrow> string option \<Rightarrow> string option \<Rightarrow> list_page \<Rightarrow> bool"
where
  "page_ok pos m pfx token page \<longleftrightarrow>
     (\<exists>ks. map oi_key (lp_contents page) = map Some ks \<and> sorted ks \<and> distinct ks \<and>
        set ks = {k \<in> dom m. in_range pos pfx token k \<and>
                    (\<forall>t. lp_next_token page = Some t \<longrightarrow> k \<le> pos t)} \<and>
        (\<forall>t. lp_next_token page = Some t \<longrightarrow> pos t \<in> set ks)) \<and>
     (\<forall>obj \<in> set (lp_contents page). \<forall>k d. oi_key obj = Some k \<longrightarrow> m k = Some d \<longrightarrow>
        oi_size obj = Some (len64 d))"

text \<open>The answer to a batch deletion: every key is reported, and what is reported gone is gone.\<close>

definition gone_error :: "s3_object_error \<Rightarrow> bool" where
  "gone_error e \<longleftrightarrow> se_code e = Some ''NoSuchKey'' \<or> se_code e = Some ''NotFound''"

definition answer_ok :: "key list \<Rightarrow> (key \<Rightarrow> bytes option) \<Rightarrow> delete_output \<Rightarrow> bool" where
  "answer_ok ks m out \<longleftrightarrow>
     (\<forall>x \<in> set (do_deleted out). \<exists>k \<in> set ks. x = Some k \<and> m k = None) \<and>
     (\<forall>e \<in> set (do_errors out). \<exists>k \<in> set ks. se_key e = Some k \<and> (gone_error e \<longrightarrow> m k = None)) \<and>
     (\<forall>k \<in> set ks. Some k \<in> set (do_deleted out) \<or> Some k \<in> se_key ` set (do_errors out))"

text \<open>The parts that an upload names are stored under ascending numbers, with the data \<open>ds\<close>.\<close>

definition parts_stored ::
  "(i32 \<Rightarrow> (string \<times> bytes) option) \<Rightarrow> completed_part list \<Rightarrow> bytes list \<Rightarrow> bool"
where
  "parts_stored m parts ds \<longleftrightarrow>
     list_all2 (\<lambda>p d. m (cp_part_number p) = Some (cp_etag p, d)) parts ds \<and>
     map (\<lambda>p. unat (cp_part_number p)) parts = [1..<Suc (length parts)]"

locale s3_service =
  fixes cl :: "'w s3_client"
    and bucket :: string
    and good :: "'w \<Rightarrow> bool"
    and objs :: "'w \<Rightarrow> key \<Rightarrow> bytes option"
    and ups :: "'w \<Rightarrow> string \<Rightarrow> upload option"
    and pos :: "string \<Rightarrow> key"
  assumes put_law:
      "good w \<Longrightarrow> send_put_object cl bucket k d w = (x, w') \<Longrightarrow>
       good w' \<and> ups w' = ups w \<and> (objs w' = objs w \<or> objs w' = (objs w)(k \<mapsto> d)) \<and>
       (\<forall>t. x = Ok t \<longrightarrow> objs w' = (objs w)(k \<mapsto> d))"
    and get_law:
      "good w \<Longrightarrow> send_get_object cl bucket k w = (y, w') \<Longrightarrow>
       w' = w \<and>
       (case objs w k of
          Some d \<Rightarrow> \<exists>out. y = Ok out \<and> read_all (go_body out) = Ok d
        | None \<Rightarrow> \<exists>e. y = Err e \<and> is_not_found e)"
    and head_law:
      "good w \<Longrightarrow> send_head_object cl bucket k w = (h, w') \<Longrightarrow>
       w' = w \<and> (if objs w k = None then \<exists>e. h = Err e \<and> is_not_found e else h = Ok ())"
    and delete_law:
      "good w \<Longrightarrow> length ks \<le> 1000 \<Longrightarrow> send_delete_objects cl bucket ks w = (o', w') \<Longrightarrow>
       good w' \<and> ups w' = ups w \<and> (\<forall>k. objs w' k = objs w k \<or> k \<in> set ks \<and> objs w' k = None) \<and>
       (\<forall>out. o' = Ok out \<longrightarrow> answer_ok ks (objs w') out)"
    and list_law:
      "good w \<Longrightarrow> send_list_objects cl bucket pfx token w = (l, w') \<Longrightarrow>
       w' = w \<and> (\<forall>page. l = Ok page \<longrightarrow> page_ok pos (objs w) pfx token page)"
    and create_law:
      "good w \<Longrightarrow> send_create_upload cl bucket k w = (c, w') \<Longrightarrow>
       good w' \<and> objs w' = objs w \<and> (\<forall>i. ups w i \<noteq> None \<longrightarrow> ups w' i = ups w i) \<and>
       (\<forall>i. c = Ok (Some i) \<longrightarrow> ups w i = None \<and> ups w' = (ups w)(i \<mapsto> (k, Map.empty)))"
    and part_law:
      "good w \<Longrightarrow> send_upload_part cl bucket k i n d w = (e, w') \<Longrightarrow>
       good w' \<and> objs w' = objs w \<and> (\<forall>j. j \<noteq> i \<longrightarrow> ups w' j = ups w j) \<and>
       (\<forall>t m. e = Ok t \<longrightarrow> ups w i = Some (k, m) \<longrightarrow>
          1 \<le> unat n \<and> unat n \<le> 10000 \<and> ups w' i = Some (k, m(n \<mapsto> (etag_text t, d))))"
    and complete_law:
      "good w \<Longrightarrow> ups w i = Some (k, m) \<Longrightarrow> parts_stored m parts ds \<Longrightarrow>
       send_complete_upload cl bucket k i parts w = (f, w') \<Longrightarrow>
       good w' \<and> (\<forall>j. j \<noteq> i \<longrightarrow> ups w' j = ups w j) \<and>
       (objs w' = objs w \<or> objs w' = (objs w)(k \<mapsto> concat ds)) \<and>
       (\<forall>t. f = Ok t \<longrightarrow> objs w' = (objs w)(k \<mapsto> concat ds))"
    and abort_law:
      "good w \<Longrightarrow> send_abort_upload cl bucket k i w = (a, w') \<Longrightarrow>
       good w' \<and> objs w' = objs w \<and> (\<forall>j. j \<noteq> i \<longrightarrow> ups w' j = ups w j)"

section \<open>Cutting a stream into parts\<close>

lemma chunks_Nil [simp]: "chunks n [] = []"
  by (simp add: chunks.simps)

lemma chunks_step: "xs \<noteq> [] \<Longrightarrow> 0 < n \<Longrightarrow> chunks n xs = take n xs # chunks n (drop n xs)"
  by (subst chunks.simps) simp

lemma concat_chunks: "0 < n \<Longrightarrow> concat (chunks n xs) = xs"
proof (induction n xs rule: chunks.induct)
  case (1 n xs)
  then show ?case by (cases "xs = []") (simp_all add: chunks_step)
qed

lemma chunks_lengths:
  "0 < n \<Longrightarrow> c \<in> set (chunks n xs) \<Longrightarrow> c \<noteq> [] \<and> length c \<le> n"
proof (induction n xs rule: chunks.induct)
  case (1 n xs)
  then show ?case by (cases "xs = []") (auto simp: chunks_step)
qed

lemma chunks_full:
  "0 < n \<Longrightarrow> c \<in> set (butlast (chunks n xs)) \<Longrightarrow> length c = n"
proof (induction n xs rule: chunks.induct)
  case (1 n xs)
  show ?case
  proof (cases "xs = []")
    case False
    show ?thesis
    proof (cases "drop n xs = []")
      case True
      then show ?thesis using 1(2,3) False by (simp add: chunks_step)
    next
      case rest: False
      then have "chunks n (drop n xs) \<noteq> []" using 1(2) by (simp add: chunks_step)
      then have "c = take n xs \<or> c \<in> set (butlast (chunks n (drop n xs)))"
        using 1(2,3) False by (simp add: chunks_step split: if_splits)
      then show ?thesis using 1(1,2) False rest by auto
    qed
  qed (use 1(3) in simp)
qed

lemma chunks_count: "0 < n \<Longrightarrow> length xs \<le> c * n \<Longrightarrow> length (chunks n xs) \<le> c"
proof (induction c arbitrary: xs)
  case (Suc c)
  show ?case
  proof (cases "xs = []")
    case False
    then show ?thesis using Suc.IH [of "drop n xs"] Suc.prems by (simp add: chunks_step)
  qed simp
qed simp

lemma chunks_read:
  assumes "read_up_to n [] rd = Ok (bs, rd')" "bs \<noteq> []"
  shows "chunks n (rd_bytes rd) = bs # chunks n (rd_bytes rd')"
proof -
  note r = read_up_to_Ok [OF assms(1)]
  have n: "0 < n" using r(3) assms(2) by (cases n) auto
  have ne: "rd_bytes rd \<noteq> []" unfolding r(1) using assms(2) by simp
  have d: "drop n (rd_bytes rd) = rd_bytes rd'"
    using trans [OF append_take_drop_id r(1), of n] by (simp only: r(3) [symmetric] same_append_eq)
  show ?thesis by (subst chunks_step [OF ne n]) (simp only: d r(3) [symmetric])
qed

section \<open>Uploading\<close>

lemma parts_stored_Nil [simp]: "parts_stored m [] []"
  by (simp add: parts_stored_def)

lemma parts_stored_numbers:
  assumes "parts_stored m parts ds" "p \<in> set parts"
  shows "unat (cp_part_number p) < Suc (length parts)"
proof -
  have "unat (cp_part_number p) \<in> set (map (\<lambda>p. unat (cp_part_number p)) parts)" using assms(2) by simp
  then show ?thesis using assms(1) unfolding parts_stored_def by (simp only: set_upt) simp
qed

lemma parts_stored_snoc:
  assumes "parts_stored m parts ds" "unat n = Suc (length parts)"
  shows "parts_stored (m(n \<mapsto> (t, d))) (parts @ [\<lparr>cp_etag = t, cp_part_number = n\<rparr>]) (ds @ [d])"
proof -
  let ?P = "\<lambda>m p d. m (cp_part_number p) = Some (cp_etag p, d)"
  have "list_all2 (?P m) parts ds" using assms(1) by (simp add: parts_stored_def)
  then have "list_all2 (?P (m(n \<mapsto> (t, d)))) parts ds"
  proof (rule list.rel_mono_strong)
    fix p c
    assume "p \<in> set parts" "?P m p c"
    then show "?P (m(n \<mapsto> (t, d))) p c" using parts_stored_numbers [OF assms(1), of p] assms(2) by auto
  qed
  then have "list_all2 (?P (m(n \<mapsto> (t, d)))) (parts @ [\<lparr>cp_etag = t, cp_part_number = n\<rparr>]) (ds @ [d])"
    by (rule list_all2_appendI) simp
  moreover have "map (\<lambda>p. unat (cp_part_number p)) parts = [1..<Suc (length parts)]"
    using assms(1) by (simp add: parts_stored_def)
  ultimately show ?thesis using assms(2) by (simp add: parts_stored_def)
qed

text \<open>Each key has its old content or the whole content of an input that ended.\<close>

definition whole_or_same ::
  "blob_input list \<Rightarrow> (key \<Rightarrow> bytes option) \<Rightarrow> (key \<Rightarrow> bytes option) \<Rightarrow> bool"
where
  "whole_or_same bs m m' \<longleftrightarrow>
     (\<forall>k. m' k = m k \<or> (\<exists>b \<in> set bs. bi_key b = k \<and> rd_end (bi_data b) = Eof \<and>
        m' k = Some (rd_bytes (bi_data b))))"

lemma whole_or_same_refl [simp]: "whole_or_same bs m m"
  by (simp add: whole_or_same_def)

lemma whole_or_same_append:
  "whole_or_same as m m1 \<Longrightarrow> whole_or_same bs m1 m2 \<Longrightarrow> whole_or_same (as @ bs) m m2"
  unfolding whole_or_same_def by (metis UnCI set_append)

lemma whole_or_same_other: "whole_or_same bs m m' \<Longrightarrow> k \<notin> bi_key ` set bs \<Longrightarrow> m' k = m k"
  unfolding whole_or_same_def by blast

text \<open>
  A service that answers every upload request that keeps to its rules: part numbers from 1 to 10000,
  parts in ascending order, at least one, and none but the last smaller than 5 MiB.
\<close>

definition uploads_answered ::
  "'w s3_client \<Rightarrow> string \<Rightarrow> ('w \<Rightarrow> bool) \<Rightarrow> ('w \<Rightarrow> string \<Rightarrow> upload option) \<Rightarrow> bool"
where
  "uploads_answered cl bucket good ups \<longleftrightarrow>
     (\<forall>w k d. good w \<longrightarrow> (\<exists>t w'. send_put_object cl bucket k d w = (Ok t, w'))) \<and>
     (\<forall>w k. good w \<longrightarrow> (\<exists>i w'. send_create_upload cl bucket k w = (Ok (Some i), w'))) \<and>
     (\<forall>w k i n d m. good w \<longrightarrow> ups w i = Some (k, m) \<longrightarrow> 1 \<le> unat n \<longrightarrow> unat n \<le> 10000 \<longrightarrow>
        (\<exists>t w'. send_upload_part cl bucket k i n d w = (Ok t, w'))) \<and>
     (\<forall>w k i m parts ds. good w \<longrightarrow> ups w i = Some (k, m) \<longrightarrow> parts_stored m parts ds \<longrightarrow> ds \<noteq> [] \<longrightarrow>
        (\<forall>d \<in> set (butlast ds). unat MIN_MULTIPART_PART_SIZE \<le> length d) \<longrightarrow>
        (\<exists>t w'. send_complete_upload cl bucket k i parts w = (Ok t, w')))"

text \<open>The store on such a service, with a part size that the constructors give it.\<close>

definition part_size_ok :: "'w s3_blob_store \<Rightarrow> bool" where
  "part_size_ok self \<longleftrightarrow> MIN_MULTIPART_PART_SIZE \<le> s3_part_size self"

lemma part_size_new: "part_size_ok (s3_new client bucket from_ts now)"
  by (simp add: part_size_ok_def s3_new_def DEFAULT_MULTIPART_PART_SIZE_def MIN_MULTIPART_PART_SIZE_def)

lemma part_size_with: "part_size_ok (with_multipart_part_size self sz)"
  by (simp add: part_size_ok_def with_multipart_part_size_def)

text \<open>An input that fits into 10000 parts.\<close>

definition within_limits :: "'w s3_blob_store \<Rightarrow> blob_input \<Rightarrow> bool" where
  "within_limits self b \<longleftrightarrow> valid_key (bi_key b) \<and> rd_end (bi_data b) = Eof \<and>
     length (rd_bytes (bi_data b)) \<le> 10000 * unat (s3_part_size self)"

text \<open>
  What the accumulated report says after the keys \<open>ks\<close> have been asked for: keys of \<open>ks\<close> only, every
  one of them, and those reported as deleted are gone.
\<close>

definition report_ok :: "key set \<Rightarrow> (key \<Rightarrow> bytes option) \<Rightarrow> string list \<times> key_error list \<Rightarrow> bool" where
  "report_ok K m acc \<longleftrightarrow>
     (\<forall>k \<in> set (fst acc). k \<in> K \<and> m k = None) \<and> (\<forall>e \<in> set (snd acc). ke_key e \<in> K) \<and>
     K \<subseteq> set (fst acc) \<union> ke_key ` set (snd acc)"

lemma sort_out_error_gone:
  "se_key e = Some k \<Longrightarrow> gone_error e \<Longrightarrow> sort_out_error acc e = (fst acc @ [k], snd acc)"
  by (cases acc) (auto simp: Let_def gone_error_def)

lemma sort_out_error_kept:
  assumes "se_key e = Some k" "\<not> gone_error e"
  shows "\<exists>pk. sort_out_error acc e = (fst acc, snd acc @ [\<lparr>ke_key = k, ke_error = pk\<rparr>])"
  using assms by (cases acc; cases "se_code e") (auto simp: Let_def gone_error_def)

lemma sort_out_errors:
  assumes "\<forall>e \<in> set es. \<exists>k \<in> K. se_key e = Some k \<and> (gone_error e \<longrightarrow> m k = None)"
    and "\<forall>k \<in> set (fst acc). k \<in> K \<and> m k = None" "\<forall>e \<in> set (snd acc). ke_key e \<in> K"
  shows "(\<forall>k \<in> set (fst (foldl sort_out_error acc es)). k \<in> K \<and> m k = None) \<and>
    (\<forall>e \<in> set (snd (foldl sort_out_error acc es)). ke_key e \<in> K) \<and>
    set (fst acc) \<union> ke_key ` set (snd acc) \<union> {k. Some k \<in> se_key ` set es} \<subseteq>
      set (fst (foldl sort_out_error acc es)) \<union> ke_key ` set (snd (foldl sort_out_error acc es))"
  using assms
proof (induction es arbitrary: acc)
  case Nil
  then show ?case by simp
next
  case (Cons e es)
  obtain k where k: "k \<in> K" "se_key e = Some k" "gone_error e \<Longrightarrow> m k = None" using Cons.prems(1) by auto
  show ?case
  proof (cases "gone_error e")
    case True
    then show ?thesis
      using Cons.IH [of "sort_out_error acc e"] Cons.prems k sort_out_error_gone [OF k(2) True, of acc] by auto
  next
    case False
    obtain pk where "sort_out_error acc e = (fst acc, snd acc @ [\<lparr>ke_key = k, ke_error = pk\<rparr>])"
      using sort_out_error_kept [OF k(2) False] by blast
    then show ?thesis
      using Cons.IH [of "sort_out_error acc e"] Cons.prems k by auto
  qed
qed

lemma sort_out_response_ok:
  assumes "answer_ok ks m out" "report_ok K m acc"
  shows "report_ok (K \<union> set ks) m (sort_out_response out acc)"
proof -
  let ?acc = "(fst acc @ List.map_filter (\<lambda>k. k) (do_deleted out), snd acc)"
  have d: "set (List.map_filter (\<lambda>k. k) (do_deleted out)) = {k. Some k \<in> set (do_deleted out)}"
    by (force simp: map_filter_def)
  have a: "\<forall>x \<in> set (do_deleted out). \<exists>k \<in> set ks. x = Some k \<and> m k = None"
    "\<forall>e \<in> set (do_errors out). \<exists>k \<in> set ks. se_key e = Some k \<and> (gone_error e \<longrightarrow> m k = None)"
    "\<forall>k \<in> set ks. Some k \<in> set (do_deleted out) \<or> Some k \<in> se_key ` set (do_errors out)"
    using assms(1) unfolding answer_ok_def by blast+
  have r: "\<forall>k \<in> set (fst acc). k \<in> K \<and> m k = None" "\<forall>e \<in> set (snd acc). ke_key e \<in> K"
    "K \<subseteq> set (fst acc) \<union> ke_key ` set (snd acc)"
    using assms(2) unfolding report_ok_def by blast+
  have e: "\<forall>e \<in> set (do_errors out). \<exists>k \<in> K \<union> set ks. se_key e = Some k \<and> (gone_error e \<longrightarrow> m k = None)"
    using a(2) by blast
  have "\<forall>k \<in> set (fst ?acc). k \<in> K \<union> set ks \<and> m k = None"
    using r(1) a(1) d by fastforce
  moreover have "\<forall>e \<in> set (snd ?acc). ke_key e \<in> K \<union> set ks" using r(2) by simp
  ultimately have s: "(\<forall>k \<in> set (fst (foldl sort_out_error ?acc (do_errors out))). k \<in> K \<union> set ks \<and> m k = None) \<and>
    (\<forall>e \<in> set (snd (foldl sort_out_error ?acc (do_errors out))). ke_key e \<in> K \<union> set ks) \<and>
    set (fst ?acc) \<union> ke_key ` set (snd ?acc) \<union> {k. Some k \<in> se_key ` set (do_errors out)} \<subseteq>
      set (fst (foldl sort_out_error ?acc (do_errors out))) \<union> ke_key ` set (snd (foldl sort_out_error ?acc (do_errors out)))"
    by (rule sort_out_errors [OF e])
  have "K \<union> set ks \<subseteq> set (fst ?acc) \<union> ke_key ` set (snd ?acc) \<union> {k. Some k \<in> se_key ` set (do_errors out)}"
    using r(3) a(3) d by auto
  from subset_trans [OF this conjunct2 [OF conjunct2 [OF s]]]
  show ?thesis
    using conjunct1 [OF s] conjunct1 [OF conjunct2 [OF s]]
    unfolding report_ok_def sort_out_response_def by (intro conjI)
qed

lemma report_ok_mono:
  assumes "report_ok K m acc" "\<And>k. m' k = m k \<or> m' k = None"
  shows "report_ok K m' acc"
proof -
  have "m' k = None" if "m k = None" for k using assms(2) [of k] that by auto
  then show ?thesis using assms(1) unfolding report_ok_def by blast
qed

locale s3_layer = s3_service "s3_client self" "s3_bucket self" good objs ups pos
  for self :: "'w s3_blob_store" and good objs ups pos +
  assumes part_min: "part_size_ok self"
begin

lemma part_size_pos: "0 < unat (s3_part_size self)"
proof -
  have "unat MIN_MULTIPART_PART_SIZE \<le> unat (s3_part_size self)"
    using part_min unfolding part_size_ok_def word_le_nat_alt .
  moreover have "unat MIN_MULTIPART_PART_SIZE = 5242880" by (simp add: MIN_MULTIPART_PART_SIZE_def)
  ultimately show ?thesis by simp
qed

lemma abort_effect:
  assumes "good w" "abort_upload self k i w = (r, w')"
  shows "good w' \<and> objs w' = objs w \<and> (\<forall>j. j \<noteq> i \<longrightarrow> ups w' j = ups w j)"
proof -
  obtain x w1 where a: "send_abort_upload (s3_client self) (s3_bucket self) k i w = (x, w1)"
    by (metis surj_pair)
  then have "w' = w1" using assms(2) by (cases x) (simp_all add: abort_upload_def io_ignore_eq)
  then show ?thesis using abort_law [OF assms(1) a] by simp
qed

text \<open>
  The loop over the parts. On success the whole stream is stored as the parts that \<open>chunks\<close> cuts it
  into, numbered from the first on; an error has gone through \<open>abort_upload\<close>.
\<close>

definition aborted :: "key \<Rightarrow> string \<Rightarrow> 'w \<Rightarrow> bool" where
  "aborted k i w' \<longleftrightarrow> (\<exists>w. good w \<and> snd (send_abort_upload (s3_client self) (s3_bucket self) k i w) = w')"

lemma abort_aborted:
  assumes "good w" "io_bind (abort_upload self k i) (\<lambda>_. io_err e) w = (r, w')"
  shows "good w' \<and> objs w' = objs w \<and> (\<forall>j. j \<noteq> i \<longrightarrow> ups w' j = ups w j) \<and> aborted k i w' \<and>
    (r = Err e \<or> r = Hang)"
proof -
  obtain x w1 where a: "send_abort_upload (s3_client self) (s3_bucket self) k i w = (x, w1)"
    by (metis surj_pair)
  have "w' = w1 \<and> (r = Err e \<or> r = Hang)"
    using assms(2) a by (cases x) (simp_all add: abort_upload_def io_ignore_eq io_bind_eq)
  then show ?thesis using abort_law [OF assms(1) a] assms(1) a unfolding aborted_def by (metis snd_conv)
qed

lemma upload_loop_effect:
  assumes "good w" "ups w i = Some (k, m)" "parts_stored m parts ds" "unat n = Suc (length parts)"
    and "upload_loop self k i parts n tot rd w = (r, w')"
  shows "good w' \<and> objs w' = objs w \<and> (\<forall>j. j \<noteq> i \<longrightarrow> ups w' j = ups w j) \<and>
    (\<forall>e. r = Err e \<longrightarrow> aborted k i w') \<and>
    (\<forall>ps tot'. r = Ok (ps, tot') \<longrightarrow> rd_end rd = Eof \<and> tot' = tot + len64 (rd_bytes rd) \<and>
       (\<exists>m'. ups w' i = Some (k, m') \<and>
          parts_stored m' ps (ds @ chunks (unat (s3_part_size self)) (rd_bytes rd))))"
  using assms
proof (induction "length (rd_bytes rd)" arbitrary: w m parts ds n tot rd rule: less_induct)
  case less
  let ?read = "read_up_to (unat (s3_part_size self)) [] rd"
  note u = upload_loop.simps [of self k i parts n tot rd w]
  show ?case
  proof (cases ?read)
    case (Err e)
    then have "io_bind (abort_upload self k i)
        (\<lambda>_. io_err (Storage (''failed to read blob data for key '' @ squoted k) (Some (DynIo e)))) w = (r, w')"
      using less.prems(5) u by simp
    from abort_aborted [OF less.prems(1) this] show ?thesis by auto
  next
    case Hang
    then show ?thesis using less.prems(1,5) u by simp
  next
    case (Ok x)
    obtain bs rd' where x: "x = (bs, rd')" by (cases x)
    note rd = read_up_to_Ok [OF Ok [unfolded x]]
    show ?thesis
    proof (cases "bs = []")
      case True
      have "length bs < unat (s3_part_size self)" using True part_size_pos by simp
      then have e: "rd_end rd = Eof" "rd_bytes rd = []" using rd(4) rd(1) True by simp_all
      have "r = Ok (parts, tot)" "w' = w" using less.prems(5) u Ok x True by simp_all
      then show ?thesis using less.prems(1-3) e by (simp add: len64_def)
    next
      case False
      obtain y w1 where up: "send_upload_part (s3_client self) (s3_bucket self) k i n bs w = (y, w1)"
        by (metis surj_pair)
      note pl = part_law [OF less.prems(1) up]
      show ?thesis
      proof (cases y)
        case (Err e)
        then have "io_bind (abort_upload self k i) (\<lambda>_. io_err (map_s3_error self (part_failed k n i) e)) w1 = (r, w')"
          using less.prems(5) u Ok x False up by simp
        from abort_aborted [OF conjunct1 [OF pl] this] pl show ?thesis by auto
      next
        case Hang
        then show ?thesis using less.prems(5) u Ok x False up pl by simp
      next
        case ok: (Ok t)
        let ?p = "\<lparr>cp_etag = etag_text t, cp_part_number = n\<rparr>"
        have st: "unat n \<le> 10000" "ups w1 i = Some (k, m(n \<mapsto> (etag_text t, bs)))"
          using pl ok less.prems(2) by blast+
        have next_: "unat (n + 1) = Suc (length (parts @ [?p]))"
          using less.prems(4) st(1) by (simp add: unat_word_ariths)
        have lt: "length (rd_bytes rd') < length (rd_bytes rd)" using rd(1) False by simp
        have run: "upload_loop self k i (parts @ [?p]) (n + 1) (tot + len64 bs) rd' w1 = (r, w')"
          using less.prems(5) u Ok x False up ok by simp
        note ih = less.hyps [OF lt conjunct1 [OF pl] st(2)
            parts_stored_snoc [OF less.prems(3,4)] next_ run]
        have ch: "chunks (unat (s3_part_size self)) (rd_bytes rd) = bs # chunks (unat (s3_part_size self)) (rd_bytes rd')"
          by (rule chunks_read [OF Ok [unfolded x] False])
        have ln: "len64 (rd_bytes rd) = len64 bs + len64 (rd_bytes rd')"
          unfolding rd(1) by (simp add: len64_def)
        show ?thesis using ih pl by (simp add: ch ln rd(2) add.assoc)
      qed
    qed
  qed
qed

lemma upload_parts_effect:
  assumes "good w" "ups w i = Some (k, Map.empty)" "upload_parts self k i rd w = (r, w')"
  shows "good w' \<and> objs w' = objs w \<and> (\<forall>j. j \<noteq> i \<longrightarrow> ups w' j = ups w j) \<and>
    (\<forall>e. r = Err e \<longrightarrow> aborted k i w') \<and>
    (\<forall>ps tot. r = Ok (ps, tot) \<longrightarrow> rd_end rd = Eof \<and> tot = len64 (rd_bytes rd) \<and>
       (\<exists>m. ups w' i = Some (k, m) \<and> parts_stored m ps (chunks (unat (s3_part_size self)) (rd_bytes rd))))"
  using upload_loop_effect [OF assms(1,2), of "[]" "[]" 1 0 rd r w'] assms(3) by (simp add: upload_parts_def)

lemma start_multipart_cases:
  assumes "good w" "start_multipart self k w = (r, w')"
  shows "good w' \<and> objs w' = objs w \<and> (\<forall>i. ups w i \<noteq> None \<longrightarrow> ups w' i = ups w i) \<and>
    (\<forall>i. r = Ok i \<longrightarrow> ups w i = None \<and> ups w' = (ups w)(i \<mapsto> (k, Map.empty)))"
proof -
  obtain c w1 where c: "send_create_upload (s3_client self) (s3_bucket self) k w = (c, w1)"
    by (metis surj_pair)
  have "w' = w1" "\<And>i. r = Ok i \<Longrightarrow> c = Ok (Some i)"
    using assms(2) c
    by (cases c; auto simp: start_multipart_def io_bind_eq io_map_err_eq split: option.splits)+
  then show ?thesis using create_law [OF assms(1) c] by blast
qed

text \<open>A whole upload: the object is replaced by all of the stream, or not at all.\<close>

definition uploaded :: "key \<Rightarrow> reader \<Rightarrow> 'w \<Rightarrow> blob_meta res \<Rightarrow> 'w \<Rightarrow> bool" where
  "uploaded k rd w r w' \<longleftrightarrow>
     good w' \<and> (objs w' = objs w \<or> rd_end rd = Eof \<and> objs w' = (objs w)(k \<mapsto> rd_bytes rd)) \<and>
     (\<forall>i. ups w i \<noteq> None \<longrightarrow> ups w' i = ups w i) \<and>
     (\<forall>m. r = Ok m \<longrightarrow> rd_end rd = Eof \<and> objs w' = (objs w)(k \<mapsto> rd_bytes rd) \<and>
        bm_key m = k \<and> stored_size m = len64 (rd_bytes rd))"

lemma upload_multipart_effect:
  assumes "good w" "upload_multipart self k rd w = (r, w')"
  shows "uploaded k rd w r w'"
proof -
  obtain x w1 where s: "start_multipart self k w = (x, w1)" by (metis surj_pair)
  note st = start_multipart_cases [OF assms(1) s]
  show ?thesis
  proof (cases x)
    case (Ok i)
    then have i: "ups w i = None" "ups w1 = (ups w)(i \<mapsto> (k, Map.empty))" using st by blast+
    obtain y w2 where u: "upload_parts self k i rd w1 = (y, w2)" by (metis surj_pair)
    have i1: "ups w1 i = Some (k, Map.empty)" using i(2) by simp
    note ue = upload_parts_effect [OF conjunct1 [OF st] i1 u]
    have keep: "ups w2 j = ups w j" if "ups w j \<noteq> None" for j using ue i that by (metis fun_upd_apply)
    show ?thesis
    proof (cases y)
      case ok: (Ok z)
      obtain ps tot where z: "z = (ps, tot)" by (cases z)
      have y: "y = Ok (ps, tot)" using ok z by simp
      note done_ = conjunct2 [OF conjunct2 [OF conjunct2 [OF conjunct2 [OF ue]]], rule_format, OF y]
      note e = conjunct1 [OF done_] conjunct1 [OF conjunct2 [OF done_]]
      obtain m' where m': "ups w2 i = Some (k, m')"
          "parts_stored m' ps (chunks (unat (s3_part_size self)) (rd_bytes rd))"
        using conjunct2 [OF conjunct2 [OF done_]] by (elim exE conjE)
      have g2: "good w2" "objs w2 = objs w" using conjunct1 [OF ue] conjunct1 [OF conjunct2 [OF ue]] st by simp_all
      obtain c w3 where c: "send_complete_upload (s3_client self) (s3_bucket self) k i ps w2 = (c, w3)"
        by (metis surj_pair)
      have cl: "good w3 \<and> (\<forall>j. j \<noteq> i \<longrightarrow> ups w3 j = ups w2 j) \<and>
         (objs w3 = objs w2 \<or> objs w3 = (objs w2)(k \<mapsto> rd_bytes rd)) \<and>
         (\<forall>t. c = Ok t \<longrightarrow> objs w3 = (objs w2)(k \<mapsto> rd_bytes rd))"
        using complete_law [OF g2(1) m' c] by (simp add: concat_chunks part_size_pos)
      have run: "complete_multipart self k i ps tot w2 = (r, w')"
        using assms(2) s Ok u y by (simp add: upload_multipart_def io_bind_eq)
      have "w' = w3" using run c by (cases c) (simp_all add: complete_multipart_def)
      moreover have "\<exists>t. c = Ok t \<and> m = \<lparr>bm_key = k, stored_size = tot, modified_at = s3_now self w3, etag = t\<rparr>"
        if "r = Ok m" for m
        using run c that by (cases c) (auto simp: complete_multipart_def)
      moreover have "ups w3 j = ups w j" if "ups w j \<noteq> None" for j
        using cl keep [OF that] that i(1) by metis
      ultimately show ?thesis using cl e unfolding uploaded_def g2(2) by auto
    next
      case (Err e)
      then have "r = Err e" "w' = w2" using assms(2) s Ok u by (simp_all add: upload_multipart_def)
      then show ?thesis using ue st keep by (simp add: uploaded_def)
    next
      case Hang
      then have "r = Hang" "w' = w2" using assms(2) s Ok u by (simp_all add: upload_multipart_def)
      then show ?thesis using ue st keep by (simp add: uploaded_def)
    qed
  next
    case (Err e)
    then have "r = Err e" "w' = w1" using assms(2) s by (simp_all add: upload_multipart_def)
    then show ?thesis using st by (simp add: uploaded_def)
  next
    case Hang
    then have "r = Hang" "w' = w1" using assms(2) s by (simp_all add: upload_multipart_def)
    then show ?thesis using st by (simp add: uploaded_def)
  qed
qed

lemma put_object_effect:
  assumes "good w" "s3_put_object self k d w = (r, w')" "rd_end rd = Eof" "rd_bytes rd = d"
  shows "uploaded k rd w r w'"
proof -
  obtain x w1 where p: "send_put_object (s3_client self) (s3_bucket self) k d w = (x, w1)"
    by (metis surj_pair)
  have "w' = w1" using assms(2) p by (cases x) (simp_all add: s3_put_object_def)
  moreover have "\<exists>t. x = Ok t \<and> bm_key m = k \<and> stored_size m = len64 d" if "r = Ok m" for m
    using assms(2) p that by (cases x) (auto simp: s3_put_object_def)
  ultimately show ?thesis using put_law [OF assms(1) p] assms(3,4) by (auto simp: uploaded_def)
qed

lemma len64_lookahead:
  "length bs \<le> unat MIN_MULTIPART_PART_SIZE \<Longrightarrow>
   len64 bs < MIN_MULTIPART_PART_SIZE \<longleftrightarrow> length bs < unat MIN_MULTIPART_PART_SIZE"
proof -
  assume l: "length bs \<le> unat MIN_MULTIPART_PART_SIZE"
  then have "unat (len64 bs) = length bs"
    unfolding len64_def unat_of_nat by (intro mod_less order_le_less_trans [OF l]) (simp add: MIN_MULTIPART_PART_SIZE_def)
  then show ?thesis by (simp add: word_less_nat_alt)
qed

lemma put_one_effect:
  assumes "good w" "s3_put_one self b w = (r, w')"
  shows "uploaded (bi_key b) (bi_data b) w r w'"
proof (cases "read_up_to (unat MIN_MULTIPART_PART_SIZE) [] (bi_data b)")
  case (Ok x)
  obtain bs rd where x: "x = (bs, rd)" by (cases x)
  note r = read_up_to_Ok [OF Ok [unfolded x]]
  have l: "length bs \<le> unat MIN_MULTIPART_PART_SIZE" unfolding r(3) by simp
  show ?thesis
  proof (cases "len64 bs < MIN_MULTIPART_PART_SIZE")
    case True
    then have s: "length bs < unat MIN_MULTIPART_PART_SIZE" using len64_lookahead [OF l] by simp
    have run: "s3_put_object self (bi_key b) bs w = (r, w')" using assms(2) Ok x True by (simp add: s3_put_one_def)
    show ?thesis by (rule put_object_effect [OF assms(1) run]) (use r(1) r(4) [OF s] in simp_all)
  next
    case False
    then have "upload_multipart self (bi_key b) (chain_slice bs rd) w = (r, w')"
      using assms(2) Ok x by (simp add: s3_put_one_def)
    from upload_multipart_effect [OF assms(1) this] show ?thesis
      using r(1,2) by (simp add: uploaded_def)
  qed
qed (use assms in \<open>auto simp: s3_put_one_def uploaded_def\<close>)

text \<open>An upload that keeps within 10000 parts succeeds on a service that answers.\<close>

lemma length_chunks_drop:
  "bs \<noteq> [] \<Longrightarrow> read_up_to n [] rd = Ok (bs, rd') \<Longrightarrow>
   length (chunks n (rd_bytes rd)) = Suc (length (chunks n (rd_bytes rd')))"
  by (simp add: chunks_read)

lemma upload_loop_succeeds:
  assumes "uploads_answered (s3_client self) (s3_bucket self) good ups"
    and "good w" "ups w i = Some (k, m)" "unat n = Suc (length parts)" "rd_end rd = Eof"
    and "length parts + length (chunks (unat (s3_part_size self)) (rd_bytes rd)) \<le> 10000"
  shows "\<exists>x w'. upload_loop self k i parts n tot rd w = (Ok x, w')"
  using assms(2-)
proof (induction "length (rd_bytes rd)" arbitrary: w m parts n tot rd rule: less_induct)
  case less
  note u = upload_loop.simps [of self k i parts n tot rd w]
  obtain bs rd' where r: "read_up_to (unat (s3_part_size self)) [] rd = Ok (bs, rd')"
    using read_up_to_not_Ok(2) [of "unat (s3_part_size self)" rd] less.prems(4) by (metis surj_pair)
  show ?case
  proof (cases "bs = []")
    case True
    then show ?thesis using u r by simp
  next
    case False
    note rd = read_up_to_Ok [OF r]
    have c: "length (chunks (unat (s3_part_size self)) (rd_bytes rd)) =
        Suc (length (chunks (unat (s3_part_size self)) (rd_bytes rd')))"
      by (rule length_chunks_drop [OF False r])
    then have n: "1 \<le> unat n" "unat n \<le> 10000" using less.prems(3,5) by simp_all
    obtain t w1 where up: "send_upload_part (s3_client self) (s3_bucket self) k i n bs w = (Ok t, w1)"
      using assms(1) less.prems(1,2) n unfolding uploads_answered_def by metis
    note pl = part_law [OF less.prems(1) up]
    have st: "ups w1 i = Some (k, m(n \<mapsto> (etag_text t, bs)))" using pl less.prems(2) by blast
    let ?p = "\<lparr>cp_etag = etag_text t, cp_part_number = n\<rparr>"
    have next_: "unat (n + 1) = Suc (length (parts @ [?p]))"
      using less.prems(3) n(2) by (simp add: unat_word_ariths)
    have lt: "length (rd_bytes rd') < length (rd_bytes rd)" using rd(1) False by simp
    have e: "rd_end rd' = Eof" using rd(2) less.prems(4) by simp
    have l: "length (parts @ [?p]) + length (chunks (unat (s3_part_size self)) (rd_bytes rd')) \<le> 10000"
      using less.prems(5) c by simp
    show ?thesis
      using less.hyps [OF lt conjunct1 [OF pl] st next_ e l] u r False up by simp
  qed
qed

lemma upload_multipart_succeeds:
  assumes a: "uploads_answered (s3_client self) (s3_bucket self) good ups" and "good w" "rd_end rd = Eof"
    and "rd_bytes rd \<noteq> []" "length (chunks (unat (s3_part_size self)) (rd_bytes rd)) \<le> 10000"
  shows "\<exists>x w'. upload_multipart self k rd w = (Ok x, w')"
proof -
  let ?cs = "chunks (unat (s3_part_size self)) (rd_bytes rd)"
  obtain i w1 where c: "send_create_upload (s3_client self) (s3_bucket self) k w = (Ok (Some i), w1)"
    using a assms(2) unfolding uploads_answered_def by metis
  have s: "start_multipart self k w = (Ok i, w1)" using c by (simp add: start_multipart_def)
  note st = start_multipart_cases [OF assms(2) s]
  have i: "ups w1 i = Some (k, Map.empty)" using st by simp
  obtain x w2 where u: "upload_loop self k i [] 1 0 rd w1 = (Ok x, w2)"
    using upload_loop_succeeds [OF a conjunct1 [OF st] i, of 1 "[]" rd 0] assms(3,5) by auto
  obtain ps tot where x: "x = (ps, tot)" by (cases x)
  have ue: "good w2 \<and> (\<exists>m'. ups w2 i = Some (k, m') \<and> parts_stored m' ps ([] @ ?cs))"
    using upload_loop_effect [OF conjunct1 [OF st] i _ _ u, of "[]"] x by simp
  then obtain m' where m': "good w2" "ups w2 i = Some (k, m')" "parts_stored m' ps ?cs" by auto
  have ne: "?cs \<noteq> []" using chunks_step [OF assms(4) part_size_pos] by simp
  have "unat MIN_MULTIPART_PART_SIZE \<le> length d" if "d \<in> set (butlast ?cs)" for d
    using chunks_full [OF part_size_pos that] part_min unfolding part_size_ok_def word_le_nat_alt by simp
  then obtain t w3 where "send_complete_upload (s3_client self) (s3_bucket self) k i ps w2 = (Ok t, w3)"
    using a m' ne unfolding uploads_answered_def by metis
  then have "complete_multipart self k i ps tot w2 =
      (Ok \<lparr>bm_key = k, stored_size = tot, modified_at = s3_now self w3, etag = t\<rparr>, w3)"
    by (simp add: complete_multipart_def)
  then show ?thesis using s u x by (auto simp: upload_multipart_def upload_parts_def)
qed

text \<open>A batch: each key keeps its object or gets a complete new one, whatever happens.\<close>

lemma put_all_effect:
  assumes "good w" "io_mapM (s3_put_one self) bs w = (r, w')"
  shows "good w' \<and> (\<forall>i. ups w i \<noteq> None \<longrightarrow> ups w' i = ups w i) \<and> whole_or_same bs (objs w) (objs w') \<and>
    (\<forall>ms. r = Ok ms \<longrightarrow> objs w' = put_blobs bs (objs w) \<and> (\<forall>b \<in> set bs. rd_end (bi_data b) = Eof) \<and>
       map bm_key ms = map bi_key bs \<and> map stored_size ms = map (\<lambda>b. len64 (rd_bytes (bi_data b))) bs)"
  using assms
proof (induction bs arbitrary: w r w')
  case Nil
  then show ?case by auto
next
  case (Cons b bs)
  obtain x w1 where o: "s3_put_one self b w = (x, w1)" by (metis surj_pair)
  note u = put_one_effect [OF Cons.prems(1) o, unfolded uploaded_def]
  have g1: "good w1" "ups w i \<noteq> None \<Longrightarrow> ups w1 i = ups w i" for i using u by simp_all
  have k1: "whole_or_same [b] (objs w) (objs w1)" using u by (auto simp: whole_or_same_def split: if_splits)
  show ?case
  proof (cases x)
    case (Ok m)
    obtain y w2 where t: "io_mapM (s3_put_one self) bs w1 = (y, w2)" by (metis surj_pair)
    note ih = Cons.IH [OF g1(1) t]
    note ih1 = conjunct1 [OF ih] and ih2 = conjunct1 [OF conjunct2 [OF ih]]
      and ih3 = conjunct1 [OF conjunct2 [OF conjunct2 [OF ih]]]
      and ih4 = conjunct2 [OF conjunct2 [OF conjunct2 [OF ih]]]
    have run: "io_bind (io_mapM (s3_put_one self) bs) (\<lambda>ms. io_ret (m # ms)) w1 = (r, w')"
      using Cons.prems(2) o Ok by simp
    have rw: "w' = w2" "r = res_bind y (\<lambda>ms. Ok (m # ms))"
      using run unfolding io_bind_eq t by (auto split: result.splits)
    have m: "rd_end (bi_data b) = Eof" "objs w1 = (objs w)(bi_key b \<mapsto> rd_bytes (bi_data b))"
        "bm_key m = bi_key b" "stored_size m = len64 (rd_bytes (bi_data b))"
      using spec [OF conjunct2 [OF conjunct2 [OF conjunct2 [OF u]]], of m, THEN mp, OF Ok] by simp_all
    have "whole_or_same (b # bs) (objs w) (objs w2)"
      using whole_or_same_append [OF k1 ih3] by simp
    moreover have "ups w2 i = ups w i" if "ups w i \<noteq> None" for i
      using ih2 g1(2) [OF that] that by metis
    moreover have "objs w2 = put_blobs (b # bs) (objs w) \<and> (\<forall>b \<in> set (b # bs). rd_end (bi_data b) = Eof) \<and>
        map bm_key ms = map bi_key (b # bs) \<and>
        map stored_size ms = map (\<lambda>b. len64 (rd_bytes (bi_data b))) (b # bs)" if ms: "r = Ok ms" for ms
    proof -
      obtain ms' where "y = Ok ms'" "ms = m # ms'" using ms rw(2) by (auto simp: res_bind_Ok_iff)
      then show ?thesis using ih4 m by (simp add: fun_upd_def)
    qed
    ultimately show ?thesis unfolding rw(1) using ih1 by blast
  next
    case (Err e)
    then have "r = Err e" "w' = w1" using Cons.prems(2) o by simp_all
    then show ?thesis using g1 whole_or_same_append [OF k1, of bs "objs w1"] by simp
  next
    case Hang
    then have "r = Hang" "w' = w1" using Cons.prems(2) o by simp_all
    then show ?thesis using g1 whole_or_same_append [OF k1, of bs "objs w1"] by simp
  qed
qed

lemma s3_put_effect:
  assumes "good w" "s3_put self bs w = (r, w')"
  shows "good w' \<and> (\<forall>i. ups w i \<noteq> None \<longrightarrow> ups w' i = ups w i) \<and>
    whole_or_same bs (objs w) (objs w') \<and>
    (\<forall>res. r = Ok res \<longrightarrow> objs w' = put_blobs bs (objs w) \<and> (\<forall>b \<in> set bs. rd_end (bi_data b) = Eof) \<and>
       map bm_key (pr_blobs res) = map bi_key bs \<and>
       map stored_size (pr_blobs res) = map (\<lambda>b. len64 (rd_bytes (bi_data b))) bs)"
proof (cases "\<forall>b \<in> set bs. valid_key (bi_key b)")
  case True
  obtain x w1 where p: "io_mapM (s3_put_one self) bs w = (x, w1)" by (metis surj_pair)
  have "w' = w1" "r = res_bind x (\<lambda>ms. Ok (put_result_multiple ms))"
    using assms(2) p validate_all_valid [OF True] by (cases x; simp add: s3_put_def)+
  then show ?thesis using put_all_effect [OF assms(1) p] by (auto simp: res_bind_Ok_iff put_result_multiple_def)
next
  case False
  then obtain m where "res_for (\<lambda>b. validate_blob_key (bi_key b)) bs = Err (InvalidInput m)"
    using validate_all_invalid [of _ bs bi_key] by blast
  then have "r = Err (InvalidInput m)" "w' = w" using assms(2) by (simp_all add: s3_put_def)
  then show ?thesis using assms(1) by simp
qed

lemma put_one_succeeds:
  assumes a: "uploads_answered (s3_client self) (s3_bucket self) good ups" and "good w" "within_limits self b"
  shows "\<exists>m w'. s3_put_one self b w = (Ok m, w')"
proof -
  have e: "rd_end (bi_data b) = Eof" using assms(3) by (simp add: within_limits_def)
  obtain bs rd where r: "read_up_to (unat MIN_MULTIPART_PART_SIZE) [] (bi_data b) = Ok (bs, rd)"
    using read_up_to_not_Ok(2) [of "unat MIN_MULTIPART_PART_SIZE" "bi_data b"] e by (metis surj_pair)
  note rr = read_up_to_Ok [OF r]
  show ?thesis
  proof (cases "len64 bs < MIN_MULTIPART_PART_SIZE")
    case True
    obtain t w1 where "send_put_object (s3_client self) (s3_bucket self) (bi_key b) bs w = (Ok t, w1)"
      using a assms(2) unfolding uploads_answered_def by metis
    then have "s3_put_object self (bi_key b) bs w =
        (Ok \<lparr>bm_key = bi_key b, stored_size = len64 bs, modified_at = s3_now self w1, etag = t\<rparr>, w1)"
      by (simp add: s3_put_object_def)
    then show ?thesis using r True by (simp add: s3_put_one_def)
  next
    case False
    have d: "rd_bytes (chain_slice bs rd) = rd_bytes (bi_data b)" "rd_end (chain_slice bs rd) = Eof"
      using rr(1,2) e by simp_all
    have "rd_bytes (bi_data b) \<noteq> []"
    proof
      assume "rd_bytes (bi_data b) = []"
      then have "bs = []" using rr(3) by simp
      then show False using False by (simp add: len64_def MIN_MULTIPART_PART_SIZE_def)
    qed
    moreover have "length (chunks (unat (s3_part_size self)) (rd_bytes (bi_data b))) \<le> 10000"
      using assms(3) by (intro chunks_count part_size_pos) (simp add: within_limits_def)
    ultimately obtain x w' where "upload_multipart self (bi_key b) (chain_slice bs rd) w = (Ok x, w')"
      using upload_multipart_succeeds [OF a assms(2) d(2)] d(1) by metis
    then show ?thesis using r False by (simp add: s3_put_one_def)
  qed
qed

lemma s3_put_succeeds:
  assumes a: "uploads_answered (s3_client self) (s3_bucket self) good ups" and "good w"
    and "\<forall>b \<in> set bs. within_limits self b"
  shows "\<exists>res w'. s3_put self bs w = (Ok res, w')"
proof -
  have "\<exists>ms w'. io_mapM (s3_put_one self) bs w = (Ok ms, w')"
    using assms(2,3)
  proof (induction bs arbitrary: w)
    case (Cons b bs)
    obtain m w1 where o: "s3_put_one self b w = (Ok m, w1)"
      using put_one_succeeds [OF a Cons.prems(1), of b] Cons.prems(2) by auto
    have "good w1" using put_one_effect [OF Cons.prems(1) o] by (simp add: uploaded_def)
    from Cons.IH [OF this] Cons.prems(2) obtain ms w2 where "io_mapM (s3_put_one self) bs w1 = (Ok ms, w2)" by auto
    then show ?case using o by simp
  qed simp
  then obtain ms w' where "io_mapM (s3_put_one self) bs w = (Ok ms, w')" by blast
  moreover have "res_for (\<lambda>b. validate_blob_key (bi_key b)) bs = Ok ()"
    using assms(3) by (intro validate_all_valid) (simp add: within_limits_def)
  ultimately show ?thesis by (simp add: s3_put_def)
qed

section \<open>Reading\<close>

lemma not_found_configured: "is_not_found e \<Longrightarrow> \<not> is_misconfigured e"
  by (auto simp: is_not_found_def is_misconfigured_def split: option.splits)

lemma get_effect:
  assumes "good w" "get_object_output self k w = (r, w')"
  shows "w' = w \<and>
    (case objs w k of
       Some d \<Rightarrow> \<exists>out. r = Ok out \<and> read_all (go_body out) = Ok d
     | None \<Rightarrow> r = Err (NotFound k))"
proof -
  obtain y w1 where g: "send_get_object (s3_client self) (s3_bucket self) k w = (y, w1)" by (metis surj_pair)
  have "w' = w1" using assms(2) g by (cases y) (simp_all add: get_object_output_def)
  moreover have "\<And>out. y = Ok out \<Longrightarrow> r = Ok out" "\<And>e. y = Err e \<Longrightarrow> r = Err (map_get_error self k e)"
    using assms(2) g by (auto simp: get_object_output_def)
  ultimately show ?thesis
    using get_law [OF assms(1) g] not_found_configured by (auto simp: map_get_error_def split: option.splits)
qed

lemma exists_effect:
  assumes "good w" "valid_key k" "s3_exists self k w = (r, w')"
  shows "w' = w \<and> (objs w k \<noteq> None \<longrightarrow> r = Ok True) \<and>
    (objs w k = None \<longrightarrow> r = Ok False)"
proof -
  obtain h w1 where h: "send_head_object (s3_client self) (s3_bucket self) k w = (h, w1)" by (metis surj_pair)
  show ?thesis
    using assms(2,3) h head_law [OF assms(1) h] not_found_configured
    by (auto simp: s3_exists_def split: if_splits)
qed

section \<open>Deleting\<close>

lemma delete_chunks_effect:
  assumes "good w" "\<forall>c \<in> set cs. length c \<le> 1000" "report_ok K (objs w) acc"
    and "delete_chunks self cs acc w = (r, w')"
  shows "good w' \<and> ups w' = ups w \<and>
    (\<forall>k. objs w' k = objs w k \<or> k \<in> set (concat cs) \<and> objs w' k = None) \<and>
    (\<forall>acc'. r = Ok acc' \<longrightarrow> report_ok (K \<union> set (concat cs)) (objs w') acc') \<and> (\<forall>b. r \<noteq> Err (Batch b))"
  using assms
proof (induction cs arbitrary: w acc K)
  case Nil
  then show ?case by auto
next
  case (Cons c cs)
  obtain x w1 where d: "send_delete_objects (s3_client self) (s3_bucket self) c w = (x, w1)"
    by (metis surj_pair)
  have l: "length c \<le> 1000" using Cons.prems(2) by simp
  note dl = delete_law [OF Cons.prems(1) l d]
  have g1: "good w1" "ups w1 = ups w" and o1: "\<And>k. objs w1 k = objs w k \<or> k \<in> set c \<and> objs w1 k = None"
    using dl by simp_all
  have m1: "report_ok K (objs w1) acc" by (rule report_ok_mono [OF Cons.prems(3)]) (use o1 in metis)
  show ?case
  proof (cases x)
    case (Ok out)
    then have "answer_ok c (objs w1) out" using dl by simp
    then have rep: "report_ok (K \<union> set c) (objs w1) (sort_out_response out acc)"
      by (rule sort_out_response_ok [OF _ m1])
    have run: "delete_chunks self cs (sort_out_response out acc) w1 = (r, w')"
      using Cons.prems(4) d Ok by simp
    have "\<forall>c \<in> set cs. length c \<le> 1000" using Cons.prems(2) by simp
    note ih = Cons.IH [OF g1(1) this rep run]
    have "objs w' k = objs w k \<or> k \<in> set (concat (c # cs)) \<and> objs w' k = None" for k
      using spec [OF conjunct1 [OF conjunct2 [OF conjunct2 [OF ih]]], of k] o1 [of k] by auto
    moreover have "K \<union> set (concat (c # cs)) = K \<union> set c \<union> set (concat cs)" by auto
    ultimately show ?thesis using ih g1(2) by simp
  next
    case (Err e)
    then have "r = Err (map_s3_error self ''S3 batch delete failed'' e)" "w' = w1"
      using Cons.prems(4) d by simp_all
    then show ?thesis using g1 o1 by (auto simp: map_s3_error_def bucket_missing_def)
  next
    case Hang
    then have "r = Hang" "w' = w1" using Cons.prems(4) d by simp_all
    then show ?thesis using g1 o1 by auto
  qed
qed

text \<open>The whole deletion. A \<open>Batch\<close> error names exactly the keys of the request.\<close>

lemma s3_delete_effect:
  assumes "good w" "s3_delete self ks w = (r, w')"
  shows "good w' \<and> ups w' = ups w \<and> (\<forall>k. objs w' k = objs w k \<or> k \<in> set ks \<and> objs w' k = None) \<and>
    (r = Ok () \<longrightarrow> objs w' = (objs w) |` (- set ks)) \<and>
    (\<forall>be. r = Err (Batch be) \<longrightarrow> report_ok (set ks) (objs w') (succeeded be, errors be) \<and> errors be \<noteq> [])"
proof (cases "\<forall>k \<in> set ks. valid_key k")
  case True
  obtain x w1 where d: "delete_chunks self (chunks 1000 ks) ([], []) w = (x, w1)" by (metis surj_pair)
  have "\<forall>c \<in> set (chunks 1000 ks). length c \<le> 1000" using chunks_lengths [of 1000 _ ks] by auto
  moreover have "report_ok {} (objs w) ([], [])" by (simp add: report_ok_def)
  ultimately have e: "good w1 \<and> ups w1 = ups w \<and>
    (\<forall>k. objs w1 k = objs w k \<or> k \<in> set (concat (chunks 1000 ks)) \<and> objs w1 k = None) \<and>
    (\<forall>acc'. x = Ok acc' \<longrightarrow> report_ok ({} \<union> set (concat (chunks 1000 ks))) (objs w1) acc') \<and>
    (\<forall>b. x \<noteq> Err (Batch b))"
    by (rule delete_chunks_effect [OF assms(1) _ _ d])
  have cc: "concat (chunks 1000 ks) = ks" by (rule concat_chunks) simp
  note e = e [unfolded cc]
  have v: "res_for validate_blob_key ks = Ok ()" using True by (simp add: res_for_Ok_iff)
  have w': "w' = w1" using assms(2) d v by (cases x) (auto simp: s3_delete_def io_bind_eq split: if_splits prod.splits)
  show ?thesis
  proof (cases x)
    case (Ok acc)
    obtain succ errs where acc: "acc = (succ, errs)" by (cases acc)
    have rep: "report_ok (set ks) (objs w1) (succ, errs)" using e Ok acc by simp
    have r: "r = (if errs = [] then Ok () else Err (Batch \<lparr>succeeded = succ, errors = errs\<rparr>))"
      using assms(2) d v Ok acc by (auto simp: s3_delete_def io_bind_eq split: if_splits)
    have "objs w1 = (objs w) |` (- set ks)" if "errs = []"
    proof
      fix k
      have "objs w1 k = None" if "k \<in> set ks" using rep that \<open>errs = []\<close> by (auto simp: report_ok_def)
      then show "objs w1 k = ((objs w) |` (- set ks)) k" using e by (cases "k \<in> set ks") auto
    qed
    then show ?thesis using e rep r w' by (auto split: if_splits)
  next
    case (Err er)
    then have "r = Err er" using assms(2) d v by (simp add: s3_delete_def)
    then show ?thesis using e w' Err by auto
  next
    case Hang
    then have "r = Hang" using assms(2) d v by (simp add: s3_delete_def)
    then show ?thesis using e w' by auto
  qed
next
  case False
  then obtain m where "res_for validate_blob_key ks = Err (InvalidInput m)"
    using validate_all_invalid [of _ ks "\<lambda>k. k"] by auto
  then have "r = Err (InvalidInput m)" "w' = w" using assms(2) by (simp_all add: s3_delete_def)
  then show ?thesis using assms(1) by simp
qed

section \<open>The loop over the pages\<close>

abbreviation object_of :: "key \<Rightarrow> object_info \<Rightarrow> bool" where
  "object_of k obj \<equiv> oi_key obj = Some k"

lemma page_objects_run:
  assumes ok: "loop_ok good objs (\<lambda>k. matches f k None) C act J T"
    and st: "steady (hinted f) objs J"
    and "J vs w v" "map oi_key os = map Some ks" "distinct ks" "set ks \<inter> set vs = {}"
    and "\<forall>k \<in> set ks. objs w k \<noteq> None \<and> hinted f k"
    and "\<forall>obj \<in> set os. \<forall>k. oi_key obj = Some k \<longrightarrow> C k obj"
    and "page_objects f act os (w, v) = (r, (w', v'))"
  shows "if r = Ok False then J (vs @ filter (\<lambda>k. matches f k None) ks) w' v'
    else \<exists>x. T x w' v' \<and> x \<noteq> Ok True \<and> r = res_bind x (\<lambda>_. Ok True)"
  using assms(3-)
proof (induction os arbitrary: ks vs w v)
  case Nil
  then show ?case by auto
next
  case (Cons obj os)
  then obtain k ks' where k: "ks = k # ks'" "oi_key obj = Some k" "map oi_key os = map Some ks'" by auto
  have d: "distinct ks'" "set ks' \<inter> set vs = {}" "k \<notin> set ks'" "k \<notin> set vs"
      "\<forall>j \<in> set ks'. objs w j \<noteq> None \<and> hinted f j" "objs w k \<noteq> None"
    using Cons.prems(3-5) k(1) by auto
  have c: "C k obj" and os: "\<forall>obj \<in> set os. \<forall>k. oi_key obj = Some k \<longrightarrow> C k obj"
    using Cons.prems(6) k(2) by simp_all
  show ?case
  proof (cases "matches f k None")
    case False
    then have "page_objects f act os (w, v) = (r, (w', v'))" using Cons.prems(7) k(2) by simp
    from Cons.IH [OF Cons.prems(1) k(3) d(1,2,5) os this] show ?thesis using k(1) False by simp
  next
    case True
    obtain x w1 v1 where a: "act obj k (w, v) = (x, (w1, v1))" by (metis surj_pair)
    note step = loop_okD(2) [OF ok Cons.prems(1) d(4,6) True c a]
    show ?thesis
    proof (cases "x = Ok True")
      case go: True
      then have J1: "J (vs @ [k]) w1 v1" using step by simp
      have run: "page_objects f act os (w1, v1) = (r, (w', v'))" using Cons.prems(7) k(2) True a go by simp
      have "set ks' \<inter> set (vs @ [k]) = {}" using d(2,3) by auto
      moreover have "\<forall>j \<in> set ks'. objs w1 j \<noteq> None \<and> hinted f j"
      proof
        fix j assume "j \<in> set ks'"
        then have "objs w j \<noteq> None" "hinted f j" "j \<notin> set (vs @ [k])" using d(2,3,5) by auto
        then show "objs w1 j \<noteq> None \<and> hinted f j" using steadyD [OF st Cons.prems(1) J1] by blast
      qed
      ultimately show ?thesis using Cons.IH [OF J1 k(3) d(1) _ _ os run] k(1) True by (auto split: if_splits)
    next
      case stop: False
      have "io_bind (act obj k) (\<lambda>continue. if continue then page_objects f act os else io_ret True) (w, v) =
          (r, (w', v'))"
        using Cons.prems(7) k(2) True by simp
      from this [unfolded io_bind_eq a] stop
      have "r = res_bind x (\<lambda>_. Ok True)" "w' = w1" "v' = v1"
        by (auto split: result.splits if_splits)
      moreover have "T x w1 v1" using step stop by simp
      moreover have "res_bind x (\<lambda>_. Ok True) \<noteq> Ok False" by (cases x) simp_all
      ultimately show ?thesis using stop by auto
    qed
  qed
qed

lemma request_page_effect:
  assumes "good w" "request_page self f token w = (r, w')"
  shows "w' = w \<and> (\<forall>page. r = Ok page \<longrightarrow>
    page_ok pos (objs w) (case prefix_hint f of Some p \<Rightarrow> if p = [] then None else Some p | None \<Rightarrow> None) token page)"
  using assms(2) list_law [OF assms(1)] unfolding request_page_def
  by (auto simp: io_map_err_eq split: prod.splits result.splits)

lemma in_range_hinted:
  "in_range pos (case prefix_hint f of Some p \<Rightarrow> if p = [] then None else Some p | None \<Rightarrow> None) token k \<longleftrightarrow>
   hinted f k \<and> (\<forall>t. token = Some t \<longrightarrow> pos t < k)"
  by (auto simp: in_range_def hinted_def split: option.splits)

lemma hint_sound_hinted: "hint_sound f \<Longrightarrow> matches f k None \<Longrightarrow> hinted f k"
  unfolding hint_sound_def hinted_def by blast

lemma pages_run:
  assumes ok: "loop_ok good objs (\<lambda>k. matches f k None) C act J T"
    and st: "steady (hinted f) objs J" and f: "hint_sound f"
    and told: "\<And>vs w v obj k d. J vs w v \<Longrightarrow> k \<notin> set vs \<Longrightarrow> oi_key obj = Some k \<Longrightarrow> objs w k = Some d \<Longrightarrow>
      oi_size obj = Some (len64 d) \<Longrightarrow> C k obj"
    and "J vs w v" "\<forall>k \<in> set vs. \<exists>t. token = Some t \<and> k \<le> pos t"
    and "\<forall>t k. token = Some t \<longrightarrow> k \<le> pos t \<longrightarrow> k \<in> tracked objs (\<lambda>k. matches f k None) J \<longrightarrow> k \<in> set vs"
    and "pages n self f act token (w, v) = (r, (w', v'))"
  shows "loop_end objs (\<lambda>k. matches f k None) J T r w' v'"
  using assms(5-)
proof (induction n arbitrary: token vs w v)
  case 0
  then show ?case by (auto simp: loop_end_def)
next
  case (Suc n)
  let ?P = "\<lambda>k. matches f k None"
  have g: "good w" by (rule loop_okD(1) [OF ok Suc.prems(1)])
  obtain y w1 where q: "request_page self f token w = (y, w1)" by (metis surj_pair)
  note rp = request_page_effect [OF g q]
  have w1: "w1 = w" using rp by simp
  show ?case
  proof (cases y)
    case (Ok page)
    obtain ks where ks: "map oi_key (lp_contents page) = map Some ks" "sorted ks" "distinct ks"
        "set ks = {k \<in> dom (objs w). (hinted f k \<and> (\<forall>t. token = Some t \<longrightarrow> pos t < k)) \<and>
           (\<forall>t. lp_next_token page = Some t \<longrightarrow> k \<le> pos t)}"
        "\<forall>t. lp_next_token page = Some t \<longrightarrow> pos t \<in> set ks"
      and sizes: "\<forall>obj \<in> set (lp_contents page). \<forall>k d. oi_key obj = Some k \<longrightarrow> objs w k = Some d \<longrightarrow>
        oi_size obj = Some (len64 d)"
      using conjunct2 [OF rp, rule_format, OF Ok] unfolding page_ok_def in_range_hinted by blast
    have dis: "set ks \<inter> set vs = {}" using Suc.prems(2) ks(4) by fastforce
    have stored: "\<forall>k \<in> set ks. objs w k \<noteq> None \<and> hinted f k" unfolding ks(4) by auto
    have ctx: "\<forall>obj \<in> set (lp_contents page). \<forall>k. oi_key obj = Some k \<longrightarrow> C k obj"
    proof (intro ballI allI impI)
      fix obj k assume o: "obj \<in> set (lp_contents page)" "oi_key obj = Some k"
      then have "Some k \<in> set (map oi_key (lp_contents page))" by force
      then have k: "k \<in> set ks" unfolding ks(1) by auto
      then obtain d where d: "objs w k = Some d" using stored by auto
      have "k \<notin> set vs" using k dis by auto
      then show "C k obj" using told [OF Suc.prems(1) _ o(2) d] sizes o d by blast
    qed
    obtain b w2 v2 where o: "page_objects f act (lp_contents page) (w, v) = (b, (w2, v2))"
      by (metis surj_pair)
    note po = page_objects_run [OF ok st Suc.prems(1) ks(1,3) dis stored ctx o]
    have seen: "k \<in> set (vs @ filter ?P ks)"
      if k: "k \<in> tracked objs ?P J" "\<forall>t. lp_next_token page = Some t \<longrightarrow> k \<le> pos t" for k
    proof (cases "k \<in> set vs")
      case False
      have tk: "objs w k \<noteq> None" "?P k" using trackedD [OF k(1) Suc.prems(1) False] by blast+
      have "pos t < k" if "token = Some t" for t
        using Suc.prems(3) that k(1) False not_le_imp_less [of k "pos t"] by blast
      then have "k \<in> set ks" unfolding ks(4) using tk k(2) hint_sound_hinted [OF f tk(2)] by auto
      then show ?thesis using tk(2) by simp
    qed simp
    show ?thesis
    proof (cases "b = Ok False")
      case True
      then have J2: "J (vs @ filter ?P ks) w2 v2" using po by simp
      show ?thesis
      proof (cases "lp_next_token page")
        case None
        then have "r = Ok ()" "w' = w2" "v' = v2"
          using Suc.prems(4) q w1 Ok o True by (simp_all add: io_bind_eq)
        then show ?thesis using J2 seen None by (auto simp: loop_end_def)
      next
        case (Some t)
        then have run: "pages n self f act (Some t) (w2, v2) = (r, (w', v'))"
          using Suc.prems(4) q w1 Ok o True by (simp add: io_bind_eq)
        have up: "k \<le> pos t" if "k \<in> set vs" for k
        proof -
          note ex = bspec [OF Suc.prems(2) that]
          obtain s where s: "token = Some s" "k \<le> pos s" using ex by auto
          then have "pos s < pos t" using ks(4,5) Some by auto
          then show ?thesis using s(2) by simp
        qed
        have "\<forall>k \<in> set (vs @ filter ?P ks). \<exists>s. Some t = Some s \<and> k \<le> pos s"
          using up ks(4) Some by auto
        moreover have "\<forall>s k. Some t = Some s \<longrightarrow> k \<le> pos s \<longrightarrow> k \<in> tracked objs ?P J \<longrightarrow> k \<in> set (vs @ filter ?P ks)"
          using seen Some by simp
        ultimately show ?thesis by (rule Suc.IH [OF J2 _ _ run])
      qed
    next
      case False
      then obtain x where x: "T x w2 v2" "x \<noteq> Ok True" "b = res_bind x (\<lambda>_. Ok True)" using po by auto
      have "io_bind (page_objects f act (lp_contents page)) (\<lambda>stopped.
          if stopped then io_ret ()
          else (case lp_next_token page of None \<Rightarrow> io_ret () | Some next \<Rightarrow> pages n self f act (Some next)))
          (w, v) = (r, (w', v'))"
        using Suc.prems(4) q w1 Ok by simp
      from this [unfolded io_bind_eq o x(3)] x(2)
      have "r = res_bind x (\<lambda>_. Ok ())" "w' = w2" "v' = v2"
        by (cases x; auto)+
      then show ?thesis using x(1,2) by (auto simp: loop_end_def)
    qed
  next
    case (Err e)
    then have "r = Err e" "w' = w" "v' = v" using Suc.prems(4) q w1 by simp_all
    then show ?thesis using Suc.prems(1) by (auto simp: loop_end_def)
  next
    case Hang
    then have "r = Hang" "w' = w" "v' = v" using Suc.prems(4) q w1 by simp_all
    then show ?thesis using Suc.prems(1) by (auto simp: loop_end_def)
  qed
qed

section \<open>The listings\<close>

lemma steady_const: "steady P objs (\<lambda>vs w v. I vs v \<and> w = start)"
  by (simp add: steady_def)

text \<open>What a page says of an object of the start world.\<close>

definition told_of :: "'w \<Rightarrow> key \<Rightarrow> object_info \<Rightarrow> bool" where
  "told_of w k obj \<longleftrightarrow> oi_key obj = Some k \<and> (\<forall>d. objs w k = Some d \<longrightarrow> oi_size obj = Some (len64 d))"

lemma listing_run:
  assumes "good start" "hint_sound f"
    and act: "\<And>vs v k obj x w' v'. I vs v \<Longrightarrow> k \<notin> set vs \<Longrightarrow> objs start k \<noteq> None \<Longrightarrow> matches f k None \<Longrightarrow>
      told_of start k obj \<Longrightarrow> act obj k (start, v) = (x, (w', v')) \<Longrightarrow> x = Ok True \<and> w' = start \<and> I (vs @ [k]) v'"
    and "I [] v" "pages fuel self f act None (start, v) = (r, (w', v'))"
  shows "w' = start \<and> (r = Ok () \<longrightarrow> (\<exists>vs. I vs v' \<and> (\<forall>k \<in> dom (objs start). matches f k None \<longrightarrow> k \<in> set vs)))"
proof -
  let ?J = "\<lambda>vs w v. I vs v \<and> w = start"
  have "loop_ok good objs (\<lambda>k. matches f k None) (told_of start) act ?J (\<lambda>_ _ _. False)"
  proof (rule loop_okI)
    fix vs w v k c w' v'
    assume "?J vs w v" "k \<notin> set vs" "objs w k \<noteq> None" "matches f k None" "told_of start k c"
      "act c k (w, v) = (Ok True, w', v')"
    then show "?J (vs @ [k]) w' v'" using act [of vs v k c "Ok True" w' v'] by blast
  next
    fix vs w v k c x w' v'
    assume a: "?J vs w v" "k \<notin> set vs" "objs w k \<noteq> None" "matches f k None" "told_of start k c"
      "act c k (w, v) = (x, w', v')" "x \<noteq> Ok True"
    show False using act [of vs v k c x w' v'] a by blast
  qed (use assms(1) in blast)
  then have "loop_end objs (\<lambda>k. matches f k None) ?J (\<lambda>_ _ _. False) r w' v'"
    by (rule pages_run [OF _ steady_const assms(2) _ _ _ _ assms(5)]) (use assms(4) in \<open>auto simp: told_of_def\<close>)
  then show ?thesis by (rule loop_end_const)
qed

lemma s3_list_effect:
  assumes "good w" "hint_sound f" "s3_list fuel self f w = (r, w')"
  shows "w' = w \<and> (\<forall>ks. r = Ok ks \<longrightarrow>
    sorted ks \<and> distinct ks \<and> set ks = {k \<in> dom (objs w). matches f k None})"
proof -
  obtain x w1 v1 where t: "pages fuel self f push_object_key None (w, []) = (x, (w1, v1))"
    by (metis prod_cases3)
  let ?I = "\<lambda>vs v. v = vs \<and> distinct vs \<and> (\<forall>k \<in> set vs. k \<in> dom (objs w) \<and> matches f k None)"
  have e: "w1 = w \<and> (x = Ok () \<longrightarrow> (\<exists>vs. ?I vs v1 \<and> (\<forall>k \<in> dom (objs w). matches f k None \<longrightarrow> k \<in> set vs)))"
    by (rule listing_run [OF assms(1,2) _ _ t]) (auto simp: push_object_key_def)
  then have "x = Ok () \<longrightarrow> distinct v1 \<and> set v1 = {k \<in> dom (objs w). matches f k None}" by auto
  moreover have "r = res_bind x (\<lambda>_. Ok (sort v1))" "w' = w1"
    using assms(3) t by (cases x; simp add: s3_list_def with_acc_def io_bind_eq)+
  ultimately show ?thesis using e by (auto simp: res_bind_Ok_iff)
qed

lemma s3_lwm_effect:
  assumes "good w" "hint_sound f" "s3_list_with_metadata fuel self f w = (r, w')"
  shows "w' = w \<and> (\<forall>ms. r = Ok ms \<longrightarrow> sorted (map bm_key ms) \<and> distinct (map bm_key ms) \<and>
      bm_key ` set ms = {k \<in> dom (objs w). matches f k None} \<and>
      (\<forall>m \<in> set ms. \<exists>d. objs w (bm_key m) = Some d \<and> stored_size m = len64 d))"
proof -
  obtain x w1 v1 where t: "pages fuel self f (push_object_meta self) None (w, []) = (x, (w1, v1))"
    by (metis prod_cases3)
  let ?I = "\<lambda>vs v. map bm_key v = vs \<and> distinct vs \<and> (\<forall>m \<in> set v. matches f (bm_key m) None \<and>
      (\<exists>d. objs w (bm_key m) = Some d \<and> stored_size m = len64 d))"
  have le: "w1 = w \<and> (x = Ok () \<longrightarrow> (\<exists>vs. ?I vs v1 \<and> (\<forall>k \<in> dom (objs w). matches f k None \<longrightarrow> k \<in> set vs)))"
    by (rule listing_run [OF assms(1,2) _ _ t])
      (auto simp: push_object_meta_def object_meta_def meta_of_response_def told_of_def)
  have rw: "r = res_bind x (\<lambda>_. Ok (sort_key bm_key v1))" "w' = w1"
    using assms(3) t by (cases x; simp add: s3_list_with_metadata_def with_acc_def io_bind_eq)+
  have "distinct (map bm_key (sort_key bm_key v1))" if "distinct (map bm_key v1)"
    using that by (simp add: distinct_map)
  moreover have "bm_key ` set v1 = {k \<in> dom (objs w). matches f k None}"
    if "x = Ok ()" using le that by (auto simp: image_iff)
  ultimately show ?thesis using le rw by (auto simp: res_bind_Ok_iff)
qed

text \<open>Without any condition on the filter, a listing leaves the world alone.\<close>

lemma page_objects_keep:
  assumes "\<And>obj k v. fst (snd (act obj k (w, v))) = w"
  shows "fst (snd (page_objects f act os (w, v))) = w"
proof (induction os arbitrary: v)
  case (Cons obj os)
  show ?case
  proof (cases "oi_key obj")
    case (Some k)
    obtain x w1 v1 where a: "act obj k (w, v) = (x, (w1, v1))" by (metis surj_pair)
    then have "w1 = w" using assms [of obj k v] by simp
    then show ?thesis using Some a Cons by (auto simp: io_bind_eq split: result.split)
  qed (use Cons in simp)
qed simp

lemma pages_keep:
  assumes "good w" "\<And>obj k v. fst (snd (act obj k (w, v))) = w"
  shows "fst (snd (pages n self f act token (w, v))) = w"
proof (induction n arbitrary: token v)
  case (Suc n)
  obtain y w1 where q: "request_page self f token w = (y, w1)" by (metis surj_pair)
  have w1: "w1 = w" using request_page_effect [OF assms(1) q] by simp
  show ?case
  proof (cases y)
    case (Ok page)
    obtain b w2 v2 where o: "page_objects f act (lp_contents page) (w, v) = (b, (w2, v2))"
      by (metis surj_pair)
    then have "w2 = w" using page_objects_keep [where act = act and w = w, OF assms(2), of f "lp_contents page" v] by simp
    then show ?thesis
      using q w1 Ok o Suc by (auto simp: io_bind_eq split: result.split option.split)
  qed (use q w1 in simp_all)
qed simp

lemma bind_ret_state: "snd (io_bind m (\<lambda>x. io_ret (g x)) w) = snd (m w)"
  by (simp add: io_bind_eq split: prod.split result.split)

lemma s3_list_keeps: "good w \<Longrightarrow> snd (s3_list fuel self f w) = w"
  using pages_keep [of w push_object_key fuel f None "[]"]
  by (simp add: s3_list_def bind_ret_state with_acc_state push_object_key_def)

lemma s3_lwm_keeps: "good w \<Longrightarrow> snd (s3_list_with_metadata fuel self f w) = w"
  using pages_keep [of w "push_object_meta self" fuel f None "[]"]
  by (simp add: s3_list_with_metadata_def bind_ret_state with_acc_state push_object_meta_def)

text \<open>
  The pages end: a page that is not the last has an object that no later page has, so there are at
  most as many pages as objects, and one more. A listing then returns if the service answers.
\<close>

definition lists_answered :: "'w \<Rightarrow> bool" where
  "lists_answered w \<longleftrightarrow> (\<forall>f token. \<exists>page. request_page self f token w = (Ok page, w))"

lemma pages_end:
  assumes "good w" "lists_answered w"
    and act: "\<And>obj k v. \<exists>v'. act obj k (w, v) = (Ok True, (w, v'))"
    and "finite (dom (objs w))"
    and "card {k \<in> dom (objs w). \<forall>t. token = Some t \<longrightarrow> pos t < k} < n"
  shows "\<exists>v'. pages n self f act token (w, v) = (Ok (), (w, v'))"
  using assms(5)
proof (induction n arbitrary: token v)
  case (Suc n)
  obtain page where q: "request_page self f token w = (Ok page, w)"
    using assms(2) unfolding lists_answered_def by metis
  have po: "\<exists>v'. page_objects f act os (w, v) = (Ok False, (w, v'))" for os v
  proof (induction os arbitrary: v)
    case (Cons obj os)
    show ?case
    proof (cases "oi_key obj")
      case (Some k)
      obtain v1 where "act obj k (w, v) = (Ok True, (w, v1))" using act by blast
      then show ?thesis using Some Cons by (simp add: io_bind_eq)
    qed (use Cons in simp)
  qed simp
  obtain v1 where o: "page_objects f act (lp_contents page) (w, v) = (Ok False, (w, v1))" using po by blast
  show ?case
  proof (cases "lp_next_token page")
    case None
    then show ?thesis using q o by (simp add: io_bind_eq)
  next
    case (Some t)
    let ?S = "\<lambda>token. {k \<in> dom (objs w). \<forall>t. token = Some t \<longrightarrow> pos t < k}"
    obtain ks where ks: "set ks = {k \<in> dom (objs w). (hinted f k \<and> (\<forall>t. token = Some t \<longrightarrow> pos t < k)) \<and>
           (\<forall>t. lp_next_token page = Some t \<longrightarrow> k \<le> pos t)}"
        "\<forall>t. lp_next_token page = Some t \<longrightarrow> pos t \<in> set ks"
      using conjunct2 [OF request_page_effect [OF assms(1) q], rule_format, OF refl]
      unfolding page_ok_def in_range_hinted by blast
    have "pos t \<in> set ks" using ks(2) Some by blast
    then have p: "pos t \<in> ?S token" unfolding ks(1) by simp
    have "?S (Some t) \<subseteq> ?S token"
    proof
      fix k assume "k \<in> ?S (Some t)"
      then show "k \<in> ?S token" using p by (auto intro: order.strict_trans)
    qed
    moreover have "pos t \<notin> ?S (Some t)" by simp
    ultimately have "?S (Some t) \<subset> ?S token" using p by blast
    then have "card (?S (Some t)) < card (?S token)"
      by (rule psubset_card_mono [rotated]) (use assms(4) in simp)
    then have "card (?S (Some t)) < n" using Suc.prems by simp
    then obtain v2 where "pages n self f act (Some t) (w, v1) = (Ok (), (w, v2))" using Suc.IH by blast
    then show ?thesis using q o Some by (simp add: io_bind_eq)
  qed
qed simp

lemma s3_list_ends:
  assumes "good w" "lists_answered w" "finite (dom (objs w))" "card (dom (objs w)) < fuel"
  shows "\<exists>ks. s3_list fuel self f w = (Ok ks, w)"
    and "\<exists>ms. s3_list_with_metadata fuel self f w = (Ok ms, w)"
proof -
  have c: "card {k \<in> dom (objs w). \<forall>t. None = Some t \<longrightarrow> pos t < k} < fuel" using assms(4) by simp
  obtain v where "pages fuel self f push_object_key None (w, []) = (Ok (), (w, v))"
    using pages_end [where act = push_object_key, OF assms(1,2) _ assms(3) c] by (auto simp: push_object_key_def)
  then show "\<exists>ks. s3_list fuel self f w = (Ok ks, w)"
    by (simp add: s3_list_def with_acc_def io_bind_eq)
  obtain v where "pages fuel self f (push_object_meta self) None (w, []) = (Ok (), (w, v))"
    using pages_end [where act = "push_object_meta self", OF assms(1,2) _ assms(3) c]
    by (auto simp: push_object_meta_def)
  then show "\<exists>ms. s3_list_with_metadata fuel self f w = (Ok ms, w)"
    by (simp add: s3_list_with_metadata_def with_acc_def io_bind_eq)
qed

section \<open>The contract\<close>

lemma invalid_io:
  "\<not> valid_key k \<Longrightarrow> \<exists>m. io_bind (io_lift (validate_blob_key k)) g w = (Err (InvalidInput m), w)"
  using validate_invalid [of k] by (auto simp: io_bind_eq)

lemma s3_get_cases:
  assumes "good w" "valid_key k"
  shows "case objs w k of
      Some d \<Rightarrow> \<exists>rd. s3_get self k w = (Ok rd, w) \<and> read_all rd = Ok d
    | None \<Rightarrow> s3_get self k w = (Err (NotFound k), w)"
proof -
  obtain r w' where g: "get_object_output self k w = (r, w')" by (metis surj_pair)
  show ?thesis
    using get_effect [OF assms(1) g] g
    by (auto simp: s3_get_def assms(2) io_bind_eq split: option.split)
qed

lemma s3_gwm_cases:
  assumes "good w" "valid_key k"
  shows "case objs w k of
      Some d \<Rightarrow> \<exists>m rd. s3_get_with_metadata self k w = (Ok (m, rd), w) \<and> bm_key m = k \<and> read_all rd = Ok d
    | None \<Rightarrow> s3_get_with_metadata self k w = (Err (NotFound k), w)"
proof -
  obtain r w' where g: "get_object_output self k w = (r, w')" by (metis surj_pair)
  show ?thesis
    using get_effect [OF assms(1) g] g
    by (auto simp: s3_get_with_metadata_def assms(2) io_bind_eq meta_of_response_def split: option.split)
qed

lemma s3_read_keeps:
  assumes "good w"
  shows "snd (s3_get self k w) = w" "snd (s3_exists self k w) = w" "snd (s3_get_with_metadata self k w) = w"
proof -
  have c: "snd (s3_get self k w) = w \<and> snd (s3_exists self k w) = w \<and> snd (s3_get_with_metadata self k w) = w"
  proof (cases "valid_key k")
    case True
    have "snd (s3_exists self k w) = w"
      using exists_effect [OF assms True surjective_pairing] by simp
    then show ?thesis
      using s3_get_cases [OF assms True] s3_gwm_cases [OF assms True] by (auto split: option.splits)
  next
    case False
    have "\<exists>m. s3_get self k w = (Err (InvalidInput m), w)"
      unfolding s3_get_def by (rule invalid_io [OF False])
    moreover have "\<exists>m. s3_exists self k w = (Err (InvalidInput m), w)"
      unfolding s3_exists_def by (rule invalid_io [OF False])
    moreover have "\<exists>m. s3_get_with_metadata self k w = (Err (InvalidInput m), w)"
      unfolding s3_get_with_metadata_def by (rule invalid_io [OF False])
    ultimately show ?thesis by auto
  qed
  show "snd (s3_get self k w) = w" by (rule conjunct1 [OF c])
  show "snd (s3_exists self k w) = w" by (rule conjunct1 [OF conjunct2 [OF c]])
  show "snd (s3_get_with_metadata self k w) = w" by (rule conjunct2 [OF conjunct2 [OF c]])
qed

lemma s3_get_valid: "s3_get self k w = (Ok rd, w') \<Longrightarrow> valid_key k"
  using invalid_io [of k "\<lambda>_. io_bind (get_object_output self k) (\<lambda>output. io_ret (go_body output))" w]
  by (auto simp: s3_get_def)

lemma s3_exists_valid: "s3_exists self k w = (Ok ex, w') \<Longrightarrow> valid_key k"
  by (rule ccontr) (auto simp: s3_exists_def io_bind_eq dest!: validate_invalid)

lemma s3_contract: "steady_contract (s3_store fuel self) good objs valid_key (\<lambda>_. True) hint_sound"
proof (unfold_locales, unfold s3_store_simps)
  fix b :: blob_input and bs w
  assume b: "b \<in> set bs" "\<not> valid_key (bi_key b)"
  show "\<exists>m. s3_put self bs w = (Err (InvalidInput m), w)"
    using validate_all_invalid [of b bs bi_key] b by (auto simp: s3_put_def)
next
  fix k ks w
  assume k: "k \<in> set ks" "\<not> valid_key k"
  show "\<exists>m. s3_delete self ks w = (Err (InvalidInput m), w)"
    using validate_all_invalid [of k ks "\<lambda>k. k"] k by (auto simp: s3_delete_def)
next
  fix w and bs :: "blob_input list" and res w'
  assume "good w" "s3_put self bs w = (Ok res, w')"
  then show "good w' \<and> objs w' = put_blobs bs (objs w) \<and> (\<forall>b \<in> set bs. rd_end (bi_data b) = Eof) \<and>
      map bm_key (pr_blobs res) = map bi_key bs"
    using s3_put_effect by simp
next
  fix w and bs :: "blob_input list" and pr w' k
  assume "good w" "s3_put self bs w = (pr, w')" "k \<notin> bi_key ` set bs"
  then show "objs w' k = objs w k" using s3_put_effect whole_or_same_other by blast
next
  fix w k d gr w'
  assume "good w" "valid_key k" "objs w k = Some d" "s3_get self k w = (gr, w')"
  then show "\<exists>rd. gr = Ok rd \<and> read_all rd = Ok d" using s3_get_cases [of w k] by auto
next
  fix w k rd w' d
  assume a: "good w" "s3_get self k w = (Ok rd, w')" "read_all rd = Ok d"
  have "valid_key k" by (rule s3_get_valid [OF a(2)])
  then show "objs w k = Some d" using s3_get_cases [OF a(1), of k] a(2,3) by (cases "objs w k") auto
next
  fix w k gr w'
  assume "good w" "s3_get self k w = (gr, w')"
  then show "good w' \<and> objs w' = objs w" using s3_read_keeps(1) [of w k] by simp
next
  fix w k er w'
  assume "good w" "valid_key k" "s3_exists self k w = (er, w')"
  then show "er = Ok (objs w k \<noteq> None)" using exists_effect by (cases "objs w k") auto
next
  fix w k ex w'
  assume a: "good w" "s3_exists self k w = (Ok ex, w')"
  have "valid_key k" by (rule s3_exists_valid [OF a(2)])
  then show "ex = (objs w k \<noteq> None)" using exists_effect [OF a(1) _ a(2)] by (cases "objs w k") auto
next
  fix w k er w'
  assume "good w" "s3_exists self k w = (er, w')"
  then show "good w' \<and> objs w' = objs w" using s3_read_keeps(2) [of w k] by simp
next
  fix w ks w'
  assume "good w" "s3_delete self ks w = (Ok (), w')"
  then show "objs w' = (objs w) |` (- set ks)" using s3_delete_effect by simp
next
  fix w ks be w'
  assume "good w" "s3_delete self ks w = (Err (Batch be), w')"
  then have "report_ok (set ks) (objs w') (succeeded be, errors be)" using s3_delete_effect by simp
  then show "(\<forall>k \<in> set (succeeded be). k \<in> set ks \<and> objs w' k = None) \<and> (\<forall>e \<in> set (errors be). ke_key e \<in> set ks) \<and>
      (\<forall>k \<in> set ks. k \<in> set (succeeded be) \<or> k \<in> ke_key ` set (errors be))"
    unfolding report_ok_def by auto
next
  fix w ks dr w'
  assume "good w" "s3_delete self ks w = (dr, w')"
  then show "good w' \<and> (\<forall>k. objs w' k = objs w k \<or> k \<in> set ks \<and> objs w' k = None)"
    using s3_delete_effect by blast
next
  fix w f ks w'
  assume "good w" "hint_sound f" "s3_list fuel self f w = (Ok ks, w')"
  then show "sorted ks \<and> distinct ks \<and> set ks = {k \<in> dom (objs w). matches f k None}"
    using s3_list_effect by simp
next
  fix w f lr w'
  assume "good w" "s3_list fuel self f w = (lr, w')"
  then show "good w' \<and> objs w' = objs w" using s3_list_keeps [of w fuel f] by simp
next
  fix w k d mr w'
  assume "good w" "valid_key k" "objs w k = Some d" "s3_get_with_metadata self k w = (mr, w')"
  then show "\<exists>m rd. mr = Ok (m, rd) \<and> bm_key m = k \<and> read_all rd = Ok d"
    using s3_gwm_cases [of w k] by auto
next
  fix w k mr w'
  assume "good w" "s3_get_with_metadata self k w = (mr, w')"
  then show "good w' \<and> objs w' = objs w" using s3_read_keeps(3) [of w k] by simp
next
  fix w f ms w'
  assume "good w" "hint_sound f" "s3_list_with_metadata fuel self f w = (Ok ms, w')"
  then show "sorted (map bm_key ms) \<and> distinct (map bm_key ms) \<and>
      bm_key ` set ms = {k \<in> dom (objs w). matches f k None}"
    using s3_lwm_effect by blast
next
  fix w f nr w'
  assume "good w" "s3_list_with_metadata fuel self f w = (nr, w')"
  then show "good w' \<and> objs w' = objs w" using s3_lwm_keeps [of w fuel f] by simp
next
  fix f vis J T w v vr w' v'
  assume ok: "loop_ok good objs (\<lambda>k. matches f k None) meta_for (\<lambda>c k. vis k c) J T"
    and st: "steady (hinted f) objs J" and f: "hint_sound f"
    and J: "J [] w v" and e: "s3_visit fuel self f vis (w, v) = (vr, w', v')"
  have "loop_ok good objs (\<lambda>k. matches f k None) object_of (visit_object self vis) J T"
    unfolding loop_ok_def
  proof (intro conjI allI impI)
    show "good w" if "J vs w v" for vs w v by (rule loop_okD(1) [OF ok that])
    show "if x = Ok True then J (vs @ [k]) w' v' else T x w' v'"
      if "J vs w v" "k \<notin> set vs" "objs w k \<noteq> None" "matches f k None" "object_of k c"
        "visit_object self vis c k (w, v) = (x, w', v')" for vs w v k c x w' v'
      by (rule loop_okD(2) [OF ok that(1-4), of "Some (object_meta self c k)"])
        (use that(6) in \<open>simp_all add: object_meta_def meta_of_response_def visit_object_def\<close>)
  qed
  from pages_run [OF this st f _ J _ _ e [unfolded s3_visit_def]]
  show "loop_end objs (\<lambda>k. matches f k None) J T vr w' v'" by simp
qed simp_all

end

sublocale s3_layer \<subseteq> s3: steady_contract "s3_store fuel self" good objs valid_key "\<lambda>_. True" hint_sound
  for fuel
  by (rule s3_contract)

sublocale s3_layer \<subseteq> s3: robust_ops "s3_store fuel self" good objs valid_key "\<lambda>_. True" hint_sound
  for fuel
  by unfold_locales (use s3_put_effect in auto)

end
