(* ===== verification/S3_Memory.thy ===== *)
theory S3_Memory
  imports S3_Contract "HOL-Library.AList"
begin

text \<open>
  A service that keeps its objects in memory, as the client of the S3 backend: listings of any page
  size, multipart uploads with the service's limits on parts, keys that may not be deleted, and any
  request that changes something or lists made to fail. It meets the laws of \<open>s3_service\<close>, so the
  backend over it is a model of the backend's locale.
\<close>

section \<open>The service\<close>

datatype mem_request =
    PutRequest key | DeleteRequest | ListRequest | CreateRequest key | PartRequest i32
  | CompleteRequest key | AbortRequest key

record bucket =
  bk_objects :: "(key \<times> bytes) list"
  bk_uploads :: "string \<Rightarrow> upload option"
  bk_next_id :: nat
  bk_max_keys :: nat
  bk_locked :: "key \<Rightarrow> bool"
  bk_fault :: "mem_request \<Rightarrow> sdk_error option"

definition mem_try :: "mem_request \<Rightarrow> ('z bucket_scheme, 'a) request \<Rightarrow> ('z bucket_scheme, 'a) request" where
  "mem_try req act = (\<lambda>w. case bk_fault w req of Some e \<Rightarrow> (Err e, w) | None \<Rightarrow> act w)"

definition no_such_key :: sdk_error where
  "no_such_key = SdkError (Some ''NoSuchKey'') ''The specified key does not exist.''"

definition mem_put :: "key \<Rightarrow> bytes \<Rightarrow> ('z bucket_scheme, string option) request" where
  "mem_put k d = mem_try (PutRequest k) (\<lambda>w. (Ok None, w\<lparr>bk_objects := AList.update k d (bk_objects w)\<rparr>))"

definition mem_get :: "key \<Rightarrow> ('z bucket_scheme, get_object_response) request" where
  "mem_get k = (\<lambda>w. case map_of (bk_objects w) k of
     None \<Rightarrow> (Err no_such_key, w)
   | Some d \<Rightarrow> (Ok \<lparr>go_body = reader_of d, go_content_length = Some (len64 d), go_etag = None,
       go_last_modified = None\<rparr>, w))"

definition mem_head :: "key \<Rightarrow> ('z bucket_scheme, unit) request" where
  "mem_head k = (\<lambda>w. if map_of (bk_objects w) k = None then (Err no_such_key, w) else (Ok (), w))"

definition mem_delete :: "key list \<Rightarrow> ('z bucket_scheme, delete_output) request" where
  "mem_delete ks = mem_try DeleteRequest (\<lambda>w.
     (Ok \<lparr>do_deleted = map Some (filter (\<lambda>k. \<not> bk_locked w k) ks),
          do_errors = map (\<lambda>k. \<lparr>se_key = Some k, se_code = Some ''AccessDenied'', se_message = None\<rparr>)
            (filter (bk_locked w) ks)\<rparr>,
      w\<lparr>bk_objects := filter (\<lambda>(k, d). k \<notin> set ks \<or> bk_locked w k) (bk_objects w)\<rparr>))"

text \<open>The token is the last key of its page.\<close>

definition mem_page :: "(key \<times> bytes) list \<Rightarrow> nat \<Rightarrow> string option \<Rightarrow> string option \<Rightarrow> list_page" where
  "mem_page objects max_keys pfx token =
     (let range = filter (in_range (\<lambda>t. t) pfx token) (sort (map fst objects));
          ks = take max_keys range
      in \<lparr>lp_contents = map (\<lambda>k. \<lparr>oi_key = Some k,
              oi_size = map_option len64 (map_of objects k), oi_etag = None, oi_last_modified = None\<rparr>) ks,
          lp_next_token = (if length range \<le> max_keys then None else Some (last ks))\<rparr>)"

definition mem_list :: "string option \<Rightarrow> string option \<Rightarrow> ('z bucket_scheme, list_page) request" where
  "mem_list pfx token = mem_try ListRequest
     (\<lambda>w. (Ok (mem_page (bk_objects w) (bk_max_keys w) pfx token), w))"

definition mem_create :: "key \<Rightarrow> ('z bucket_scheme, string option) request" where
  "mem_create k = mem_try (CreateRequest k) (\<lambda>w.
     (let i = replicate (bk_next_id w) (CHR ''u'')
      in (Ok (Some i), w\<lparr>bk_uploads := (bk_uploads w)(i \<mapsto> (k, Map.empty)), bk_next_id := Suc (bk_next_id w)\<rparr>)))"

definition mem_part :: "key \<Rightarrow> string \<Rightarrow> i32 \<Rightarrow> bytes \<Rightarrow> ('z bucket_scheme, string option) request" where
  "mem_part k i n d = mem_try (PartRequest n) (\<lambda>w.
     (case bk_uploads w i of
        Some (k', m) \<Rightarrow>
          if k' = k \<and> 1 \<le> unat n \<and> unat n \<le> 10000
          then (Ok None, w\<lparr>bk_uploads := (bk_uploads w)(i \<mapsto> (k, m(n \<mapsto> ([], d))))\<rparr>)
          else (Err (SdkError (Some ''InvalidArgument'') ''part number''), w)
      | None \<Rightarrow> (Err (SdkError (Some ''NoSuchUpload'') ''upload''), w)))"

definition part_data :: "(i32 \<Rightarrow> (string \<times> bytes) option) \<Rightarrow> completed_part list \<Rightarrow> bytes list option" where
  "part_data m parts = those (map (\<lambda>p. case m (cp_part_number p) of
     Some (t, d) \<Rightarrow> if t = cp_etag p then Some d else None | None \<Rightarrow> None) parts)"

definition mem_complete :: "key \<Rightarrow> string \<Rightarrow> completed_part list \<Rightarrow> ('z bucket_scheme, string option) request" where
  "mem_complete k i parts = mem_try (CompleteRequest k) (\<lambda>w.
     (case bk_uploads w i of
        Some (k', m) \<Rightarrow>
          (case part_data m parts of
             Some ds \<Rightarrow>
               if k' = k \<and> ds \<noteq> [] \<and> (\<forall>d \<in> set (butlast ds). unat MIN_MULTIPART_PART_SIZE \<le> length d)
               then (Ok None, w\<lparr>bk_objects := AList.update k (concat ds) (bk_objects w),
                       bk_uploads := (bk_uploads w)(i := None)\<rparr>)
               else (Err (SdkError (Some ''EntityTooSmall'') ''part''), w)
           | None \<Rightarrow> (Err (SdkError (Some ''InvalidPart'') ''part''), w))
      | None \<Rightarrow> (Err (SdkError (Some ''NoSuchUpload'') ''upload''), w)))"

definition mem_abort :: "key \<Rightarrow> string \<Rightarrow> ('z bucket_scheme, unit) request" where
  "mem_abort k i = mem_try (AbortRequest k) (\<lambda>w. (Ok (), w\<lparr>bk_uploads := (bk_uploads w)(i := None)\<rparr>))"

definition mem_client :: "'z bucket_scheme s3_client" where
  "mem_client =
     \<lparr>send_put_object = (\<lambda>_. mem_put), send_get_object = (\<lambda>_. mem_get), send_head_object = (\<lambda>_. mem_head),
      send_delete_objects = (\<lambda>_. mem_delete), send_list_objects = (\<lambda>_. mem_list),
      send_create_upload = (\<lambda>_. mem_create), send_upload_part = (\<lambda>_. mem_part),
      send_complete_upload = (\<lambda>_. mem_complete), send_abort_upload = (\<lambda>_. mem_abort)\<rparr>"

definition mem_good :: "'z bucket_scheme \<Rightarrow> bool" where
  "mem_good w \<longleftrightarrow> distinct (map fst (bk_objects w)) \<and> 0 < bk_max_keys w \<and>
     (\<forall>i. bk_uploads w i \<noteq> None \<longrightarrow> length i < bk_next_id w)"

abbreviation mem_blobs :: "'z bucket_scheme \<Rightarrow> key \<Rightarrow> bytes option" where
  "mem_blobs w \<equiv> map_of (bk_objects w)"

section \<open>The laws\<close>

lemma mem_tryE:
  assumes "mem_try req act w = (r, w')"
  obtains e where "r = Err e" "w' = w" | "act w = (r, w')"
  using assms by (auto simp: mem_try_def split: option.splits)

lemma map_of_filter_keys: "map_of (filter (\<lambda>(k, d). P k) xs) k = (if P k then map_of xs k else None)"
  by (induction xs) auto

lemma mem_page_ok:
  assumes "distinct (map fst objects)" "0 < max_keys"
  shows "page_ok (\<lambda>t. t) (map_of objects) pfx token (mem_page objects max_keys pfx token)"
proof -
  let ?R = "filter (in_range (\<lambda>t. t) pfx token) (sort (map fst objects))"
  let ?ks = "take max_keys ?R"
  let ?next = "if length ?R \<le> max_keys then None else Some (last ?ks)"
  have sr: "sorted ?R" "distinct ?R" using assms(1) by (simp_all add: sorted_wrt_filter)
  have sk: "sorted ?ks" "distinct ?ks" using sr by (simp_all add: sorted_wrt_take)
  have R: "set ?R = {k \<in> dom (map_of objects). in_range (\<lambda>t. t) pfx token k}"
    by (auto simp: dom_map_of_conv_image_fst)
  have k: "set ?ks = {k \<in> set ?R. \<forall>t. ?next = Some t \<longrightarrow> k \<le> t}"
  proof (cases "length ?R \<le> max_keys")
    case False
    then have ln: "length ?ks = max_keys" by simp
    then have ne: "?ks \<noteq> []" using assms(2) by (metis less_numeral_extra(3) list.size(3))
    have "last ?ks = ?R ! (max_keys - 1)" unfolding last_conv_nth [OF ne] ln using assms(2) by simp
    note l = ne this ln
    have "k \<le> last ?ks" if k: "k \<in> set ?ks" for k
    proof -
      obtain j where "j < length ?ks" "?ks ! j = k" using k by (meson in_set_conv_nth)
      then have j: "j < max_keys" "k = ?R ! j" using l(3) by auto
      have "?R ! j \<le> ?R ! (max_keys - 1)"
        by (rule sorted_nth_mono [OF sr(1)]) (use j(1) False in auto)
      then show ?thesis using j(2) l(2) by simp
    qed
    moreover have "k \<in> set ?ks" if k: "k \<in> set ?R" "k \<le> last ?ks" for k
    proof -
      obtain j where j: "j < length ?R" "k = ?R ! j" using k(1) by (metis in_set_conv_nth)
      have "j < max_keys"
      proof (rule ccontr)
        assume "\<not> j < max_keys"
        then have lt: "max_keys - 1 < j" using assms(2) by simp
        then have "?R ! (max_keys - 1) \<le> ?R ! j" using sorted_nth_mono [OF sr(1), of "max_keys - 1" j] j(1) by simp
        then have "?R ! (max_keys - 1) = ?R ! j" using k(2) j(2) l(2) by simp
        then show False using nth_eq_iff_index_eq [OF sr(2), of "max_keys - 1" j] lt j(1) by simp
      qed
      then show ?thesis using j l(3) by (metis in_set_conv_nth nth_take)
    qed
    ultimately show ?thesis using False by (auto dest: in_set_takeD)
  qed simp
  have p: "mem_page objects max_keys pfx token =
      \<lparr>lp_contents = map (\<lambda>k. \<lparr>oi_key = Some k, oi_size = map_option len64 (map_of objects k), oi_etag = None,
         oi_last_modified = None\<rparr>) ?ks, lp_next_token = ?next\<rparr>"
    unfolding mem_page_def Let_def by (rule refl)
  have nxt: "\<forall>t. ?next = Some t \<longrightarrow> t \<in> set ?ks"
  proof (intro allI impI)
    fix t assume t: "?next = Some t"
    then have "?R \<noteq> []" "t = last ?ks" by (auto split: if_splits)
    then have "?ks \<noteq> []" using assms(2) by simp
    then show "t \<in> set ?ks" unfolding \<open>t = last ?ks\<close> by (rule last_in_set)
  qed
  have sz: "oi_size obj = Some (len64 d)" if "obj \<in> set (lp_contents (mem_page objects max_keys pfx token))"
    "oi_key obj = Some k" "map_of objects k = Some d" for obj k d
    using that unfolding p by auto
  have nx: "lp_next_token (mem_page objects max_keys pfx token) = ?next" unfolding p by simp
  have sk': "set ?ks = {k \<in> dom (map_of objects). in_range (\<lambda>t. t) pfx token k \<and> (\<forall>t. ?next = Some t \<longrightarrow> k \<le> t)}"
    unfolding k R by blast
  show ?thesis
    unfolding page_ok_def nx
  proof (intro conjI exI [of _ ?ks])
    show "map oi_key (lp_contents (mem_page objects max_keys pfx token)) = map Some ?ks" unfolding p by simp
  qed (use sk sk' nxt sz in blast)+
qed

lemma part_data_stored: "parts_stored m parts ds \<Longrightarrow> part_data m parts = Some ds"
proof -
  assume "parts_stored m parts ds"
  then have "list_all2 (\<lambda>p d. m (cp_part_number p) = Some (cp_etag p, d)) parts ds"
    by (simp add: parts_stored_def)
  then show ?thesis by (induction rule: list_all2_induct) (simp_all add: part_data_def)
qed

lemma mem_goodD:
  "mem_good w \<Longrightarrow> distinct (map fst (bk_objects w))" "mem_good w \<Longrightarrow> 0 < bk_max_keys w"
  "mem_good w \<Longrightarrow> bk_uploads w i \<noteq> None \<Longrightarrow> length i < bk_next_id w"
  by (simp_all add: mem_good_def)

lemma mem_put_law:
  assumes "mem_good w" "mem_put k d w = (x, w')"
  shows "mem_good w' \<and> bk_uploads w' = bk_uploads w \<and> (mem_blobs w' = mem_blobs w \<or> mem_blobs w' = (mem_blobs w)(k \<mapsto> d)) \<and>
    (\<forall>t. x = Ok t \<longrightarrow> mem_blobs w' = (mem_blobs w)(k \<mapsto> d))"
  using assms(2) unfolding mem_put_def
  by (rule mem_tryE) (use assms(1) in \<open>auto simp: mem_good_def update_conv' distinct_update\<close>)

lemma mem_delete_law:
  assumes "mem_good w" "mem_delete ks w = (x, w')"
  shows "mem_good w' \<and> bk_uploads w' = bk_uploads w \<and>
    (\<forall>k. mem_blobs w' k = mem_blobs w k \<or> k \<in> set ks \<and> mem_blobs w' k = None) \<and>
    (\<forall>out. x = Ok out \<longrightarrow> answer_ok ks (mem_blobs w') out)"
  using assms(2) unfolding mem_delete_def
proof (rule mem_tryE)
  let ?o = "\<lparr>do_deleted = map Some (filter (\<lambda>k. \<not> bk_locked w k) ks),
          do_errors = map (\<lambda>k. \<lparr>se_key = Some k, se_code = Some ''AccessDenied'', se_message = None\<rparr>)
            (filter (bk_locked w) ks)\<rparr>"
  let ?w = "w\<lparr>bk_objects := filter (\<lambda>(k, d). k \<notin> set ks \<or> bk_locked w k) (bk_objects w)\<rparr>"
  assume e: "(Ok ?o, ?w) = (x, w')"
  have m: "mem_blobs ?w k = (if k \<notin> set ks \<or> bk_locked w k then mem_blobs w k else None)" for k
    using map_of_filter_keys [of "\<lambda>k. k \<notin> set ks \<or> bk_locked w k" "bk_objects w" k] by simp
  have d: "distinct (map fst (filter (\<lambda>(k, d). k \<notin> set ks \<or> bk_locked w k) (bk_objects w)))"
    by (rule distinct_map_filter [OF mem_goodD(1) [OF assms(1)]])
  have "answer_ok ks (mem_blobs ?w) ?o"
    unfolding answer_ok_def using m by (auto simp: gone_error_def image_iff)
  moreover have "mem_good ?w" using assms(1) d by (simp add: mem_good_def)
  moreover have "\<forall>k. mem_blobs ?w k = mem_blobs w k \<or> k \<in> set ks \<and> mem_blobs ?w k = None"
    using m by simp
  moreover have "x = Ok ?o" "w' = ?w" using e by simp_all
  ultimately show ?thesis by simp
qed (use assms(1) in simp)

lemma mem_create_law:
  assumes "mem_good w" "mem_create k w = (c, w')"
  shows "mem_good w' \<and> mem_blobs w' = mem_blobs w \<and> (\<forall>i. bk_uploads w i \<noteq> None \<longrightarrow> bk_uploads w' i = bk_uploads w i) \<and>
    (\<forall>i. c = Ok (Some i) \<longrightarrow> bk_uploads w i = None \<and> bk_uploads w' = (bk_uploads w)(i \<mapsto> (k, Map.empty)))"
  using assms(2) unfolding mem_create_def
proof (rule mem_tryE)
  let ?i = "replicate (bk_next_id w) (CHR ''u'')"
  have n: "bk_uploads w ?i = None"
  proof (rule ccontr)
    assume "bk_uploads w ?i \<noteq> None"
    from mem_goodD(3) [OF assms(1) this] show False by simp
  qed
  assume "(let i = ?i in (Ok (Some i), w\<lparr>bk_uploads := (bk_uploads w)(i \<mapsto> (k, Map.empty)),
    bk_next_id := Suc (bk_next_id w)\<rparr>)) = (c, w')"
  then have e: "c = Ok (Some ?i)" "w' = w\<lparr>bk_uploads := (bk_uploads w)(?i \<mapsto> (k, Map.empty)),
    bk_next_id := Suc (bk_next_id w)\<rparr>" by (simp_all add: Let_def)
  have "mem_good w'" using assms(1) unfolding e(2) mem_good_def by (auto intro: less_SucI)
  then show ?thesis using n e by auto
qed (use assms(1) in simp)

lemma mem_part_law:
  assumes "mem_good w" "mem_part k i n d w = (e, w')"
  shows "mem_good w' \<and> mem_blobs w' = mem_blobs w \<and> (\<forall>j. j \<noteq> i \<longrightarrow> bk_uploads w' j = bk_uploads w j) \<and>
    (\<forall>t m. e = Ok t \<longrightarrow> bk_uploads w i = Some (k, m) \<longrightarrow>
      1 \<le> unat n \<and> unat n \<le> 10000 \<and> bk_uploads w' i = Some (k, m(n \<mapsto> (etag_text t, d))))"
  using assms(2) unfolding mem_part_def
  by (rule mem_tryE) (use assms(1) in \<open>auto simp: mem_good_def split: option.splits if_splits\<close>)

lemma mem_complete_law:
  assumes "mem_good w" "bk_uploads w i = Some (k, m)" "parts_stored m parts ds" "mem_complete k i parts w = (f, w')"
  shows "mem_good w' \<and> (\<forall>j. j \<noteq> i \<longrightarrow> bk_uploads w' j = bk_uploads w j) \<and>
    (mem_blobs w' = mem_blobs w \<or> mem_blobs w' = (mem_blobs w)(k \<mapsto> concat ds)) \<and>
    (\<forall>t. f = Ok t \<longrightarrow> mem_blobs w' = (mem_blobs w)(k \<mapsto> concat ds))"
  using assms(4) unfolding mem_complete_def
  by (rule mem_tryE) (use assms(1,2) part_data_stored [OF assms(3)] in
    \<open>auto simp: mem_good_def update_conv' distinct_update split: if_splits\<close>)

lemma mem_abort_law:
  assumes "mem_good w" "mem_abort k i w = (a, w')"
  shows "mem_good w' \<and> mem_blobs w' = mem_blobs w \<and> (\<forall>j. j \<noteq> i \<longrightarrow> bk_uploads w' j = bk_uploads w j)"
  using assms(2) unfolding mem_abort_def
  by (rule mem_tryE) (use assms(1) in \<open>auto simp: mem_good_def split: if_splits\<close>)

lemma no_such_key_not_found: "is_not_found no_such_key"
  by (simp add: is_not_found_def no_such_key_def)

lemma mem_service: "s3_service mem_client bucket mem_good mem_blobs bk_uploads (\<lambda>t. t)"
proof (unfold_locales, unfold mem_client_def s3_client.simps)
  fix w w' :: "'a bucket_scheme" and k y h pfx token l
  assume g: "mem_good w"
  show "w' = w \<and> (case mem_blobs w k of Some d \<Rightarrow> \<exists>out. y = Ok out \<and> read_all (go_body out) = Ok d
      | None \<Rightarrow> \<exists>e. y = Err e \<and> is_not_found e)" if "mem_get k w = (y, w')"
    using that by (auto simp: mem_get_def split: option.splits intro: no_such_key_not_found)
  show "w' = w \<and> (if mem_blobs w k = None then \<exists>e. h = Err e \<and> is_not_found e else h = Ok ())" if "mem_head k w = (h, w')"
    using that by (auto simp: mem_head_def split: if_splits intro: no_such_key_not_found)
  show "w' = w \<and> (\<forall>page. l = Ok page \<longrightarrow> page_ok (\<lambda>t. t) (mem_blobs w) pfx token page)" if "mem_list pfx token w = (l, w')"
    using that unfolding mem_list_def
    by (rule mem_tryE) (use mem_page_ok [OF mem_goodD(1,2) [OF g]] in auto)
qed (rule mem_put_law mem_delete_law mem_create_law mem_part_law mem_complete_law mem_abort_law; assumption)+

section \<open>The backend on it\<close>

definition mem_s3 :: "string \<Rightarrow> u64 \<Rightarrow> (int \<Rightarrow> int \<Rightarrow> datetime option) \<Rightarrow> ('z bucket_scheme \<Rightarrow> datetime) \<Rightarrow> 'z bucket_scheme s3_blob_store" where
  "mem_s3 bucket sz from_ts now = with_multipart_part_size (s3_new mem_client bucket from_ts now) sz"

lemma mem_layer: "s3_layer (mem_s3 bucket sz from_ts now) mem_good mem_blobs bk_uploads (\<lambda>t. t)"
proof (rule s3_layer.intro)
  have "s3_client (mem_s3 bucket sz from_ts now) = mem_client" "s3_bucket (mem_s3 bucket sz from_ts now) = bucket"
    by (simp_all add: mem_s3_def with_multipart_part_size_def s3_new_def)
  then show "s3_service (s3_client (mem_s3 bucket sz from_ts now)) (s3_bucket (mem_s3 bucket sz from_ts now))
      mem_good mem_blobs bk_uploads (\<lambda>t. t)"
    using mem_service by simp
  show "s3_layer_axioms (mem_s3 bucket sz from_ts now)"
    by (rule s3_layer_axioms.intro) (simp add: mem_s3_def part_size_with)
qed

interpretation ms3: s3_layer "mem_s3 bucket sz from_ts now" mem_good mem_blobs bk_uploads "\<lambda>t. t"
  for bucket sz from_ts now
  by (rule mem_layer)

section \<open>The service without failures\<close>

definition mem_calm :: "'z bucket_scheme \<Rightarrow> bool" where
  "mem_calm w \<longleftrightarrow> mem_good w \<and> (\<forall>req. bk_fault w req = None)"

lemma mem_faults_kept:
  "mem_put k d w = (x, w') \<Longrightarrow> bk_fault w' = bk_fault w"
  "mem_delete ks w = (o', w') \<Longrightarrow> bk_fault w' = bk_fault w"
  "mem_create k w = (c, w') \<Longrightarrow> bk_fault w' = bk_fault w"
  "mem_part k i n d w = (e, w') \<Longrightarrow> bk_fault w' = bk_fault w"
  "mem_complete k i parts w = (f, w') \<Longrightarrow> bk_fault w' = bk_fault w"
  "mem_abort k i w = (a, w') \<Longrightarrow> bk_fault w' = bk_fault w"
  by (auto simp: mem_put_def mem_delete_def mem_create_def mem_part_def mem_complete_def mem_abort_def
      mem_try_def Let_def split: option.splits if_splits)

lemma mem_calm_keep: "mem_calm w \<Longrightarrow> mem_good w' \<Longrightarrow> bk_fault w' = bk_fault w \<Longrightarrow> mem_calm w'"
  by (simp add: mem_calm_def)

lemma mem_calm_good: "mem_calm w \<Longrightarrow> mem_good w"
  by (simp add: mem_calm_def)

lemma mem_client_simps [simp]:
  "send_put_object mem_client b = mem_put" "send_get_object mem_client b = mem_get"
  "send_head_object mem_client b = mem_head" "send_delete_objects mem_client b = mem_delete"
  "send_list_objects mem_client b = mem_list" "send_create_upload mem_client b = mem_create"
  "send_upload_part mem_client b = mem_part" "send_complete_upload mem_client b = mem_complete"
  "send_abort_upload mem_client b = mem_abort"
  by (simp_all add: mem_client_def)

lemma mem_calm_service: "s3_service mem_client bucket mem_calm mem_blobs bk_uploads (\<lambda>t. t)"
proof (unfold_locales, unfold mem_client_simps)
  fix w w' :: "'a bucket_scheme" and k d x ks o' c i n e parts m ds f a pfx token l y h
  assume c: "mem_calm w"
  note g = mem_calm_good [OF c] and keep = mem_calm_keep [OF c]
  show "mem_calm w' \<and> bk_uploads w' = bk_uploads w \<and> (mem_blobs w' = mem_blobs w \<or> mem_blobs w' = (mem_blobs w)(k \<mapsto> d)) \<and>
      (\<forall>t. x = Ok t \<longrightarrow> mem_blobs w' = (mem_blobs w)(k \<mapsto> d))" if r: "mem_put k d w = (x, w')"
    using mem_put_law [OF g r] keep [OF _ mem_faults_kept(1) [OF r]] by (elim conjE) (intro conjI)
  show "mem_calm w' \<and> bk_uploads w' = bk_uploads w \<and>
      (\<forall>k. mem_blobs w' k = mem_blobs w k \<or> k \<in> set ks \<and> mem_blobs w' k = None) \<and>
      (\<forall>out. o' = Ok out \<longrightarrow> answer_ok ks (mem_blobs w') out)" if r: "mem_delete ks w = (o', w')"
    using mem_delete_law [OF g r] keep [OF _ mem_faults_kept(2) [OF r]] by (elim conjE) (intro conjI)
  show "mem_calm w' \<and> mem_blobs w' = mem_blobs w \<and> (\<forall>i. bk_uploads w i \<noteq> None \<longrightarrow> bk_uploads w' i = bk_uploads w i) \<and>
      (\<forall>i. c = Ok (Some i) \<longrightarrow> bk_uploads w i = None \<and> bk_uploads w' = (bk_uploads w)(i \<mapsto> (k, Map.empty)))"
    if r: "mem_create k w = (c, w')" for c
    using mem_create_law [OF g r] keep [OF _ mem_faults_kept(3) [OF r]] by (elim conjE) (intro conjI)
  show "mem_calm w' \<and> mem_blobs w' = mem_blobs w \<and> (\<forall>j. j \<noteq> i \<longrightarrow> bk_uploads w' j = bk_uploads w j) \<and>
      (\<forall>t m. e = Ok t \<longrightarrow> bk_uploads w i = Some (k, m) \<longrightarrow>
        1 \<le> unat n \<and> unat n \<le> 10000 \<and> bk_uploads w' i = Some (k, m(n \<mapsto> (etag_text t, d))))"
    if r: "mem_part k i n d w = (e, w')"
    using mem_part_law [OF g r] keep [OF _ mem_faults_kept(4) [OF r]] by (elim conjE) (intro conjI)
  show "mem_calm w' \<and> (\<forall>j. j \<noteq> i \<longrightarrow> bk_uploads w' j = bk_uploads w j) \<and>
      (mem_blobs w' = mem_blobs w \<or> mem_blobs w' = (mem_blobs w)(k \<mapsto> concat ds)) \<and>
      (\<forall>t. f = Ok t \<longrightarrow> mem_blobs w' = (mem_blobs w)(k \<mapsto> concat ds))"
    if u: "bk_uploads w i = Some (k, m)" "parts_stored m parts ds" and r: "mem_complete k i parts w = (f, w')"
    using mem_complete_law [OF g u r] keep [OF _ mem_faults_kept(5) [OF r]] by (elim conjE) (intro conjI)
  show "mem_calm w' \<and> mem_blobs w' = mem_blobs w \<and> (\<forall>j. j \<noteq> i \<longrightarrow> bk_uploads w' j = bk_uploads w j)"
    if r: "mem_abort k i w = (a, w')"
    using mem_abort_law [OF g r] keep [OF _ mem_faults_kept(6) [OF r]] by (elim conjE) (intro conjI)
  show "w' = w \<and> (case mem_blobs w k of Some d \<Rightarrow> \<exists>out. y = Ok out \<and> read_all (go_body out) = Ok d
      | None \<Rightarrow> \<exists>e. y = Err e \<and> is_not_found e)" if "mem_get k w = (y, w')"
    using s3_service.get_law [OF mem_service g, of undefined k y w'] that by simp
  show "w' = w \<and> (if mem_blobs w k = None then \<exists>e. h = Err e \<and> is_not_found e else h = Ok ())" if "mem_head k w = (h, w')"
    using s3_service.head_law [OF mem_service g, of undefined k h w'] that by simp
  show "w' = w \<and> (\<forall>page. l = Ok page \<longrightarrow> page_ok (\<lambda>t. t) (mem_blobs w) pfx token page)" if "mem_list pfx token w = (l, w')"
    using s3_service.list_law [OF mem_service g, of undefined pfx token l w'] that by simp
qed

lemma mem_calm_layer: "s3_layer (mem_s3 bucket sz from_ts now) mem_calm mem_blobs bk_uploads (\<lambda>t. t)"
proof (rule s3_layer.intro)
  show "s3_service (s3_client (mem_s3 bucket sz from_ts now)) (s3_bucket (mem_s3 bucket sz from_ts now))
      mem_calm mem_blobs bk_uploads (\<lambda>t. t)"
    using mem_calm_service by (simp add: mem_s3_def with_multipart_part_size_def s3_new_def)
  show "s3_layer_axioms (mem_s3 bucket sz from_ts now)"
    by (rule s3_layer_axioms.intro) (simp add: mem_s3_def part_size_with)
qed

text \<open>It answers every upload request that keeps to the rules.\<close>

lemma mem_calm_answers:
  "uploads_answered mem_client b (mem_calm :: 'z bucket_scheme \<Rightarrow> bool) bk_uploads"
  unfolding uploads_answered_def mem_client_simps
proof (intro conjI allI impI)
  fix w :: "'z bucket_scheme" and k d i n m parts ds
  assume c: "mem_calm w"
  then have nf: "bk_fault w req = None" for req by (simp add: mem_calm_def)
  show "\<exists>t w'. mem_put k d w = (Ok t, w')" by (simp add: mem_put_def mem_try_def nf)
  show "\<exists>i w'. mem_create k w = (Ok (Some i), w')" by (simp add: mem_create_def mem_try_def nf Let_def)
  show "\<exists>t w'. mem_part k i n d w = (Ok t, w')"
    if "bk_uploads w i = Some (k, m)" "1 \<le> unat n" "unat n \<le> 10000"
    using that by (simp add: mem_part_def mem_try_def nf)
  show "\<exists>t w'. mem_complete k i parts w = (Ok t, w')"
    if "bk_uploads w i = Some (k, m)" "parts_stored m parts ds" "ds \<noteq> []"
      "\<forall>d \<in> set (butlast ds). unat MIN_MULTIPART_PART_SIZE \<le> length d"
    using that part_data_stored [OF that(2)] by (simp add: mem_complete_def mem_try_def nf)
qed

end
