(* ===== verification/S3_Layers.thy ===== *)
theory S3_Layers
  imports S3_Memory Prefix Encrypt_Fs Cleanup
begin

text \<open>
  The layers over the S3 backend: the locales of the prefix, cleanup and encryption layers on the
  backend's definitions, for any service that keeps its laws, and their interpretations on the
  service in memory.
\<close>

context s3_layer
begin

lemma s3_prefix: "prefix_steady_layer (s3_store fuel self) good objs valid_key (\<lambda>_. True) hint_sound"
  by (intro prefix_steady_layer.intro prefix_layer.intro s3_contract steady_contract.axioms(1) [OF s3_contract])

lemma s3_cleanup: "cleanup_layer (s3_store fuel self) good objs valid_key (\<lambda>_. True) hint_sound"
  by (intro cleanup_layer.intro s3_contract cleanup_layer_axioms.intro) simp

lemma s3_encryption:
  assumes "provider_ok good objs enc opens"
  shows "encryption_layer (s3_store fuel self) good objs valid_key (\<lambda>_. True) hint_sound enc opens"
proof (intro encryption_layer.intro s3.robust_ops_axioms encryption_layer_axioms.intro)
  show "w' = w" if "good w" "bs_exists (s3_store fuel self) k w = (x, w')" for w k x w'
    using s3_read_keeps(2) [OF that(1), of k] that(2) by simp
qed (use assms in simp_all)

text \<open>
  Cleanup, where the predicate is given the key and the size that the page tells: the verdict \<open>sel\<close>
  is what it says of the stored objects.
\<close>

lemma s3_cleanup_effect:
  assumes "good start"
    and p: "\<And>k d m. objs start k = Some d \<Longrightarrow> bm_key m = k \<Longrightarrow> stored_size m = len64 d \<Longrightarrow> pred k m = sel k"
    and run: "cleanup now \<lparr>bc_inner = s3_store fuel self, bc_predicate = pred, bc_batch_size = n\<rparr> start = (r, w')"
  shows "good w' \<and> (\<forall>k. objs w' k = objs start k \<or> sel k \<and> objs w' k = None) \<and>
    (\<forall>res. r = Ok res \<longrightarrow> finite {k \<in> dom (objs start). sel k} \<and>
       objs w' = (objs start) |` (- {k \<in> dom (objs start). sel k}) \<and>
       cr_deleted_count res = of_nat (card {k \<in> dom (objs start). sel k}))"
proof (cases "max_batch_capacity < int n")
  case True
  then show ?thesis using run assms(1) by (auto simp: cleanup_def)
next
  case False
  let ?st = "s3_store fuel self :: ('w, cleanup_visitor) blob_store"
  let ?v = "\<lparr>cv_batch = [], cv_deleted_count = 0\<rparr>"
  let ?J = "cleanup_J good objs sel n start"
  let ?T = "\<lambda>x w v. cleanup_T good objs sel start w \<and> (\<forall>b. x \<noteq> Ok b)"
  let ?act = "visit_object self (cleanup_visit now ?st pred n)"
  obtain x w1 v1 where v: "pages fuel self (prefix_filter []) ?act None (start, ?v) = (x, (w1, v1))"
    by (metis surj_pair)
  obtain y w2 v2 where f: "io_bind (\<lambda>_. (x, (w1, v1))) (\<lambda>_. cleanup_flush ?st) (start, ?v) = (y, (w2, v2))"
    by (metis surj_pair)
  have rw: "w' = w2" "r = res_bind y (\<lambda>_. Ok \<lparr>cr_deleted_count = cv_deleted_count v2\<rparr>)"
    using run v f False by (simp_all add: cleanup_def io_bind_eq s3_visit_def)
  have K: "delete_keeps good ?st good"
    unfolding delete_keeps_def using s3.delete_frame by blast
  have call: "?act c k (w, v) = cleanup_pick ?st n (sel k) k (w, v)"
    if c: "objs w k \<noteq> None" "objs w k = objs start k" "told_of start k c" for w v k c
  proof -
    obtain d where d: "objs start k = Some d" using c by auto
    then have "oi_size c = Some (len64 d)" using c(3) by (simp add: told_of_def)
    then have "pred k (object_meta self c k) = sel k"
      by (intro p [OF d]) (simp_all add: object_meta_def meta_of_response_def)
    then show ?thesis by (simp add: visit_object_def cleanup_visit_def)
  qed
  have ok: "loop_ok good objs (\<lambda>k. matches (prefix_filter []) k None) (told_of start) ?act ?J ?T"
    by (rule cleanup_layer.cleanup_loop [OF s3_cleanup K]) (rule call)
  have told: "told_of start k obj"
    if "?J vs w v" "k \<notin> set vs" "oi_key obj = Some k" "objs w k = Some d" "oi_size obj = Some (len64 d)"
    for vs w v obj k d
    using cleanup_J_stored(1) [OF that(1,2)] that(3-5) by (auto simp: told_of_def)
  have "loop_end objs (\<lambda>k. matches (prefix_filter []) k None) ?J ?T x w1 v1"
    by (rule pages_run [OF ok cleanup_J_steady _ told cleanup_J_start [where K = good, OF assms(1)] _ _ v]) simp_all
  then have "loop_end objs (\<lambda>_. True) ?J ?T x w1 v1" by simp
  from cleanup_layer.cleanup_result [OF s3_cleanup K this f] show ?thesis
    using rw by (auto simp: res_bind_Ok_iff cleanup_T_def)
qed

end

section \<open>Over the service in memory\<close>

interpretation pms3: prefix_steady_layer "s3_store fuel (mem_s3 bucket sz from_ts now)" mem_good mem_blobs
  valid_key "\<lambda>_. True" hint_sound p
  for fuel bucket sz from_ts now p
  by (rule ms3.s3_prefix)

interpretation cms3: cleanup_layer "s3_store fuel (mem_s3 bucket sz from_ts now)" mem_good mem_blobs
  valid_key "\<lambda>_. True" hint_sound
  for fuel bucket sz from_ts now
  by (rule ms3.s3_cleanup)

interpretation ems3: encryption_layer "s3_store fuel (mem_s3 bucket sz from_ts now)" mem_good mem_blobs
  valid_key "\<lambda>_. True" hint_sound "envelope_encryption kek cur dk" suf timeout "envelope_opens kek"
  for fuel bucket sz from_ts now kek cur dk suf timeout
  by (rule ms3.s3_encryption [OF envelope_ok])

end
