(* ===== verification/S3_Properties.thy ===== *)
theory S3_Properties
  imports S3_Layers Fs_Os
begin

text \<open>
  The properties of the S3 backend, for every service that keeps the laws of \<open>s3_service\<close> and every
  part size that the constructors give, each with an instance on the service in memory.
\<close>

definition demo_bucket :: bucket where
  "demo_bucket = \<lparr>bk_objects = [(''b'', [3]), (''a/x'', [1, 2]), (''c'', [])], bk_uploads = (\<lambda>_. None),
     bk_next_id = 0, bk_max_keys = 2, bk_locked = (\<lambda>k. k = ''c''), bk_fault = (\<lambda>_. None)\<rparr>"

definition demo_s3 :: "bucket s3_blob_store" where
  "demo_s3 = mem_s3 ''bucket'' 0 (\<lambda>s n. Some s) (\<lambda>_. 9)"

lemma demo_s3_simps: "s3_client demo_s3 = mem_client" "s3_bucket demo_s3 = ''bucket''"
  by (simp_all add: demo_s3_def mem_s3_def with_multipart_part_size_def s3_new_def)

lemma demo_calm: "mem_calm demo_bucket"
  by (simp add: mem_calm_def mem_good_def demo_bucket_def)

lemma demo_layer: "s3_layer demo_s3 mem_calm mem_blobs bk_uploads (\<lambda>t. t)"
  unfolding demo_s3_def by (rule mem_calm_layer)

lemma demo_answers: "uploads_answered (s3_client demo_s3) (s3_bucket demo_s3) mem_calm bk_uploads"
  unfolding demo_s3_simps by (rule mem_calm_answers)

section \<open>Uploads\<close>

text \<open>
  C27: a put over S3 is atomic for each blob, whatever fails: afterwards every key has its old
  object or the whole content of one of the inputs, and an input whose stream fails or stalls is
  never stored in part. On success the bucket holds the batch, and the result reports the keys and
  the sizes of the inputs in order.
\<close>
theorem s3_put_atomic:
  assumes "s3_layer self good objs ups pos" "good w" "s3_put self bs w = (r, w')"
  shows "good w' \<and>
    (\<forall>k. objs w' k = objs w k \<or> (\<exists>b \<in> set bs. bi_key b = k \<and> rd_end (bi_data b) = Eof \<and>
       objs w' k = Some (rd_bytes (bi_data b)))) \<and>
    (\<forall>res. r = Ok res \<longrightarrow> objs w' = put_blobs bs (objs w) \<and> (\<forall>b \<in> set bs. rd_end (bi_data b) = Eof) \<and>
       map bm_key (pr_blobs res) = map bi_key bs \<and>
       map stored_size (pr_blobs res) = map (\<lambda>b. len64 (rd_bytes (bi_data b))) bs)"
  using s3_layer.s3_put_effect [OF assms] unfolding whole_or_same_def by (elim conjE) (intro conjI)

theorem s3_put_atomic_witness:
  "let w' = snd (s3_put demo_s3 [blob_input_new ''b'' \<lparr>rd_chunks = [replicate 9000000 7], rd_end = Fails enoent\<rparr>] demo_bucket)
   in mem_calm w' \<and> mem_blobs w' ''b'' = Some [3]"
proof -
  let ?b = "blob_input_new ''b'' \<lparr>rd_chunks = [replicate 9000000 7], rd_end = Fails enoent\<rparr>"
  obtain r w' where p: "s3_put demo_s3 [?b] demo_bucket = (r, w')" by (metis surj_pair)
  have e: "rd_end (bi_data ?b) \<noteq> Eof" by (simp add: blob_input_new_def)
  have "mem_calm w'" "mem_blobs w' ''b'' = mem_blobs demo_bucket ''b''"
    using s3_put_atomic [OF demo_layer demo_calm p] e by auto
  then show ?thesis using p by (simp add: demo_bucket_def)
qed

text \<open>
  C28: a batch of valid keys whose streams end, each of at most 10000 parts, is stored by a service
  that accepts the uploads that keep to its rules: the single requests, and multipart uploads with
  part numbers from 1 to 10000 in ascending order, at least one part, and none but the last smaller
  than 5 MiB.
\<close>
theorem s3_put_within_limits:
  assumes "s3_layer self good objs ups pos" "uploads_answered (s3_client self) (s3_bucket self) good ups"
    and "good w" "\<forall>b \<in> set bs. within_limits self b"
  shows "\<exists>res w'. s3_put self bs w = (Ok res, w') \<and> objs w' = put_blobs bs (objs w)"
  using s3_layer.s3_put_succeeds [OF assms] s3_layer.s3_put_effect [OF assms(1,3)] by blast

theorem s3_put_within_limits_witness:
  "\<exists>res w'. s3_put demo_s3 [blob_input_new ''n'' (reader_of (replicate 9000000 7))] demo_bucket = (Ok res, w') \<and>
     mem_blobs w' ''n'' = Some (replicate 9000000 7)"
proof -
  let ?b = "blob_input_new ''n'' (reader_of (replicate 9000000 7))"
  have "unat (s3_part_size demo_s3) = 5242880"
    by (simp add: demo_s3_def mem_s3_def with_multipart_part_size_def s3_new_def MIN_MULTIPART_PART_SIZE_def)
  then have "within_limits demo_s3 ?b"
    by (simp add: within_limits_def blob_input_new_def valid_key_def good_component_def KEY_SEPARATOR_def
        backslash_def rd_bytes_def reader_of_def)
  then obtain res w' where "s3_put demo_s3 [?b] demo_bucket = (Ok res, w')"
      "mem_blobs w' = put_blobs [?b] (mem_blobs demo_bucket)"
    using s3_put_within_limits [OF demo_layer demo_answers demo_calm, of "[?b]"] by auto
  then show ?thesis by (auto simp: blob_input_new_def)
qed

text \<open>
  C29: how \<open>upload_parts\<close> cuts a stream. If it succeeds the upload holds the stream as numbered
  parts from 1 on that concatenate to it, each but the last of exactly the part size and none empty
  or larger, and the reported size is the stream's. If reading or a part fails, no object has
  changed, other uploads are untouched, and on a service that carries out aborts nothing is left of
  the upload.
\<close>
theorem s3_upload_parts_plan:
  assumes "s3_layer self good objs ups pos" "good w" "ups w i = Some (k, Map.empty)"
    and "\<forall>w. good w \<longrightarrow> ups (snd (send_abort_upload (s3_client self) (s3_bucket self) k i w)) i = None"
    and "upload_parts self k i rd w = (r, w')"
  shows "objs w' = objs w \<and> (\<forall>j. j \<noteq> i \<longrightarrow> ups w' j = ups w j) \<and>
    (\<forall>e. r = Err e \<longrightarrow> ups w' i = None) \<and>
    (\<forall>ps tot. r = Ok (ps, tot) \<longrightarrow> rd_end rd = Eof \<and> tot = len64 (rd_bytes rd) \<and>
       (\<exists>m ds. ups w' i = Some (k, m) \<and> parts_stored m ps ds \<and> concat ds = rd_bytes rd \<and>
          (\<forall>d \<in> set (butlast ds). length d = unat (s3_part_size self)) \<and>
          (\<forall>d \<in> set ds. d \<noteq> [] \<and> length d \<le> unat (s3_part_size self))))"
proof -
  note e = s3_layer.upload_parts_effect [OF assms(1-3,5)]
  note pos_ = s3_layer.part_size_pos [OF assms(1)]
  show ?thesis
  proof (intro conjI allI impI)
    show "objs w' = objs w" using e by (elim conjE)
    show "ups w' j = ups w j" if "j \<noteq> i" for j using e that by simp
    show "ups w' i = None" if "r = Err x" for x
    proof -
      have "s3_layer.aborted self good k i w'" using e that by (elim conjE) simp
      then show ?thesis using assms(4) unfolding s3_layer.aborted_def [OF assms(1)] by auto
    qed
    fix ps tot assume "r = Ok (ps, tot)"
    note d = conjunct2 [OF conjunct2 [OF conjunct2 [OF conjunct2 [OF e]]], rule_format, OF this]
    show "rd_end rd = Eof" "tot = len64 (rd_bytes rd)" using d by simp_all
    show "\<exists>m ds. ups w' i = Some (k, m) \<and> parts_stored m ps ds \<and> concat ds = rd_bytes rd \<and>
          (\<forall>d \<in> set (butlast ds). length d = unat (s3_part_size self)) \<and>
          (\<forall>d \<in> set ds. d \<noteq> [] \<and> length d \<le> unat (s3_part_size self))"
      using d chunks_full [OF pos_] chunks_lengths [OF pos_] concat_chunks [OF pos_] by blast
  qed
qed

text \<open>An upload in progress in the service in memory.\<close>

definition demo_upload :: bucket where
  "demo_upload = demo_bucket\<lparr>bk_uploads := [''u'' \<mapsto> (''n'', Map.empty)], bk_next_id := 2\<rparr>"

lemma demo_upload_calm: "mem_calm demo_upload"
  by (simp add: mem_calm_def mem_good_def demo_upload_def demo_bucket_def)

theorem s3_upload_parts_plan_witness:
  "let w' = snd (upload_parts demo_s3 ''n'' ''u'' \<lparr>rd_chunks = [[1, 2]], rd_end = Fails enoent\<rparr> demo_upload)
   in bk_uploads w' ''u'' = None \<and> mem_blobs w' ''b'' = Some [3]"
proof -
  let ?rd = "\<lparr>rd_chunks = [[1, 2]], rd_end = Fails enoent\<rparr>"
  obtain r w' where u: "upload_parts demo_s3 ''n'' ''u'' ?rd demo_upload = (r, w')" by (metis surj_pair)
  have a: "\<forall>w. mem_calm w \<longrightarrow>
      bk_uploads (snd (send_abort_upload (s3_client demo_s3) (s3_bucket demo_s3) ''n'' ''u'' w)) ''u'' = None"
    by (simp add: demo_s3_simps mem_abort_def mem_try_def mem_calm_def)
  have i: "bk_uploads demo_upload ''u'' = Some (''n'', Map.empty)" by (simp add: demo_upload_def)
  note p = s3_upload_parts_plan [OF demo_layer demo_upload_calm i a u]
  have l: "length (rd_bytes ?rd) < unat (s3_part_size demo_s3)"
    by (simp add: rd_bytes_def demo_s3_def mem_s3_def with_multipart_part_size_def s3_new_def
        MIN_MULTIPART_PART_SIZE_def)
  have "read_up_to (unat (s3_part_size demo_s3)) [] ?rd = Err enoent"
    using read_up_to_short [of "[]" ?rd "unat (s3_part_size demo_s3)"] l by simp
  then have "\<exists>e. r = Err e"
    using u s3_layer.abort_effect [OF demo_layer demo_upload_calm]
    by (auto simp: upload_parts_def upload_loop.simps [of demo_s3 _ _ _ _ _ ?rd] abort_upload_def io_ignore_eq
        io_bind_eq demo_s3_simps mem_abort_def mem_try_def demo_upload_def demo_bucket_def)
  then have "bk_uploads w' ''u'' = None" "mem_blobs w' = mem_blobs demo_upload" using p by auto
  then show ?thesis using u by (simp add: demo_upload_def demo_bucket_def)
qed

section \<open>Reads and deletions\<close>





section \<open>Listings\<close>

text \<open>
  C32: over any number of pages, list and list_with_metadata return exactly the stored keys that
  match the filter, each once, in ascending order, list_with_metadata with the sizes of the objects;
  they change nothing. The filter's hint, with which the requests are narrowed, must be sound.
\<close>
theorem s3_list_exact:
  assumes "s3_layer self good objs ups pos" "good w" "hint_sound f"
  shows "snd (s3_list fuel self f w) = w \<and> snd (s3_list_with_metadata fuel self f w) = w \<and>
    (\<forall>ks. fst (s3_list fuel self f w) = Ok ks \<longrightarrow>
       ks = sorted_list_of_set {k \<in> dom (objs w). matches f k None} \<and> set ks = {k \<in> dom (objs w). matches f k None}) \<and>
    (\<forall>ms. fst (s3_list_with_metadata fuel self f w) = Ok ms \<longrightarrow>
       map bm_key ms = sorted_list_of_set {k \<in> dom (objs w). matches f k None} \<and>
       (\<forall>m \<in> set ms. \<exists>d. objs w (bm_key m) = Some d \<and> stored_size m = len64 d))"
proof -
  let ?S = "{k \<in> dom (objs w). matches f k None}"
  have u: "ks = sorted_list_of_set ?S" if "sorted ks" "distinct ks" "set ks = ?S" for ks
    using sorted_distinct_set_unique [of ks "sorted_list_of_set ?S"] that
    by (metis List.finite_set distinct_sorted_list_of_set set_sorted_list_of_set sorted_sorted_list_of_set)
  note l = s3_layer.s3_list_effect [OF assms surjective_pairing [of "s3_list fuel self f w"]]
  note m = s3_layer.s3_lwm_effect [OF assms surjective_pairing [of "s3_list_with_metadata fuel self f w"]]
  show ?thesis
  proof (intro conjI allI impI)
    show "snd (s3_list fuel self f w) = w" "snd (s3_list_with_metadata fuel self f w) = w" using l m by simp_all
    fix ks assume "fst (s3_list fuel self f w) = Ok ks"
    then show "ks = sorted_list_of_set ?S" "set ks = ?S" using l u by simp_all
  next
    fix ms assume r: "fst (s3_list_with_metadata fuel self f w) = Ok ms"
    then have "sorted (map bm_key ms)" "distinct (map bm_key ms)" "set (map bm_key ms) = ?S" using m by simp_all
    then show "map bm_key ms = sorted_list_of_set ?S" by (rule u)
    show "\<forall>m \<in> set ms. \<exists>d. objs w (bm_key m) = Some d \<and> stored_size m = len64 d" using m r by blast
  qed
qed

theorem s3_list_exact_witness:
  "fst (s3_list 3 demo_s3 (suffix_filter []) demo_bucket) = Ok [''a/x'', ''b'', ''c''] \<and>
   sorted_list_of_set {k \<in> dom (mem_blobs demo_bucket). matches (suffix_filter []) k None} = [''a/x'', ''b'', ''c'']"
proof -
  have l: "fst (s3_list 3 demo_s3 (suffix_filter []) demo_bucket) = Ok [''a/x'', ''b'', ''c'']" by code_simp
  have "hint_sound (suffix_filter [])" by simp
  from s3_list_exact [OF demo_layer demo_calm this, of 3] l
  have "[''a/x'', ''b'', ''c''] = sorted_list_of_set {k \<in> dom (mem_blobs demo_bucket). matches (suffix_filter []) k None}"
    by blast
  then show ?thesis using l by simp
qed

text \<open>
  C33: the listings end. A page that is not the last has an object that no later page has, so with
  one round per object and one more, and a service that answers list requests, list and
  list_with_metadata return.
\<close>
theorem s3_list_terminates:
  assumes "s3_layer self good objs ups pos" "good w"
    and "\<And>pfx token. \<exists>page. send_list_objects (s3_client self) (s3_bucket self) pfx token w = (Ok page, w)"
    and "finite (dom (objs w))" "card (dom (objs w)) < fuel"
  shows "(\<exists>ks. s3_list fuel self f w = (Ok ks, w)) \<and> (\<exists>ms. s3_list_with_metadata fuel self f w = (Ok ms, w))"
proof -
  have "s3_layer.lists_answered self w"
    unfolding s3_layer.lists_answered_def [OF assms(1)]
  proof (intro allI)
    fix f :: list_filter and token
    obtain page where "send_list_objects (s3_client self) (s3_bucket self)
        (case prefix_hint f of Some p \<Rightarrow> if p = [] then None else Some p | None \<Rightarrow> None) token w = (Ok page, w)"
      using assms(3) by blast
    then show "\<exists>page. request_page self f token w = (Ok page, w)" by (simp add: request_page_def)
  qed
  from s3_layer.s3_list_ends [OF assms(1,2) this assms(4,5)] show ?thesis by blast
qed

theorem s3_list_terminates_witness:
  "\<exists>ks. s3_list 4 demo_s3 (prefix_filter ''a/'') demo_bucket = (Ok ks, demo_bucket)"
proof -
  have a: "\<exists>page. send_list_objects (s3_client demo_s3) (s3_bucket demo_s3) pfx token demo_bucket = (Ok page, demo_bucket)"
    for pfx token
    by (simp add: demo_s3_simps mem_list_def mem_try_def demo_bucket_def)
  have d: "dom (mem_blobs demo_bucket) = {''b'', ''a/x'', ''c''}" by (auto simp: demo_bucket_def)
  show ?thesis using s3_list_terminates [OF demo_layer demo_calm a, of 4 "prefix_filter ''a/''"] by (simp add: d)
qed

section \<open>Cleanup over S3\<close>

text \<open>
  C34: cleanup over S3 deletes exactly what the predicate selects, although the keys of a page were
  read before the batches of the run were deleted: with a predicate that looks at the key and the
  size, a run that succeeds leaves the objects it does not select, and counts the others; a run that
  fails has touched no other object.
\<close>
theorem s3_cleanup_exact:
  assumes "s3_layer self good objs ups pos" "good w"
    and "\<And>k d m. objs w k = Some d \<Longrightarrow> bm_key m = k \<Longrightarrow> stored_size m = len64 d \<Longrightarrow> pred k m = sel k"
    and run: "cleanup now \<lparr>bc_inner = s3_store fuel self, bc_predicate = pred, bc_batch_size = n\<rparr> w = (r, w')"
  shows "(\<forall>k. objs w' k = objs w k \<or> sel k \<and> objs w' k = None) \<and>
    (\<forall>res. r = Ok res \<longrightarrow> objs w' = (objs w) |` (- {k \<in> dom (objs w). sel k}) \<and>
       cr_deleted_count res = of_nat (card {k \<in> dom (objs w). sel k}))"
proof -
  have p: "good w' \<and> (\<forall>k. objs w' k = objs w k \<or> sel k \<and> objs w' k = None) \<and>
    (\<forall>res. r = Ok res \<longrightarrow> finite {k \<in> dom (objs w). sel k} \<and>
       objs w' = (objs w) |` (- {k \<in> dom (objs w). sel k}) \<and>
       cr_deleted_count res = of_nat (card {k \<in> dom (objs w). sel k}))"
    by (rule s3_layer.s3_cleanup_effect [OF assms(1,2) _ run]) (rule assms(3))
  then show ?thesis by blast
qed

theorem s3_cleanup_exact_witness:
  "fst (cleanup (\<lambda>_. 0) \<lparr>bc_inner = s3_store 9 demo_s3, bc_predicate = (\<lambda>k m. 0 < stored_size m), bc_batch_size = 2\<rparr>
     demo_bucket) = Ok \<lparr>cr_deleted_count = 2\<rparr> \<and>
   mem_blobs (snd (cleanup (\<lambda>_. 0) \<lparr>bc_inner = s3_store 9 demo_s3, bc_predicate = (\<lambda>k m. 0 < stored_size m),
     bc_batch_size = 2\<rparr> demo_bucket)) ''c'' = Some []"
proof -
  let ?c = "\<lparr>bc_inner = s3_store 9 demo_s3, bc_predicate = (\<lambda>(k :: key) m. 0 < stored_size m), bc_batch_size = 2\<rparr>"
  have r: "fst (cleanup (\<lambda>_. 0) ?c demo_bucket) = Ok \<lparr>cr_deleted_count = 2\<rparr>" by code_simp
  let ?sel = "\<lambda>k. \<exists>d. mem_blobs demo_bucket k = Some d \<and> 0 < len64 d"
  have p: "(0 < stored_size m) = ?sel k"
    if "mem_blobs demo_bucket k = Some d" "bm_key m = k" "stored_size m = len64 d" for k d m
    using that by simp
  have "\<not> ?sel ''c''" by (simp add: demo_bucket_def len64_def)
  then have "mem_blobs (snd (cleanup (\<lambda>_. 0) ?c demo_bucket)) ''c'' = mem_blobs demo_bucket ''c''"
    using conjunct1 [OF s3_cleanup_exact [where pred = "\<lambda>k m. 0 < stored_size m" and sel = ?sel,
      OF demo_layer demo_calm _ surjective_pairing [of "cleanup (\<lambda>_. 0) ?c demo_bucket"]]] p by blast
  then show ?thesis using r by (simp add: demo_bucket_def)
qed

end
