(* ===== verification/Maintenance.thy ===== *)
theory Maintenance
  imports Errors
begin

text \<open>
  \<open>builder/strategies.rs\<close> and \<open>builder/maintenance.rs\<close>: when maintenance tasks are enqueued, and the
  worker that runs them.

  The spawned tasks (one scheduling loop for each registered strategy, and the worker) interleave, so
  the background is a step relation. A loop is in one of four places (\<open>pc\<close>); the functions \<open>\<dots>_moves\<close>
  list where it can go next, \<open>\<dots>_sent\<close> say where it goes once its call of \<open>trigger\<close> has returned, and
  \<open>worker_moves\<close> lists what the worker can do. Where \<open>select!\<close> has several branches ready it picks any
  of them, unless it is \<open>biased\<close>. What happened is the list of events of a run.

  A queued task is the number of its registration. What the tasks do is \<open>Builder\<close>'s; here a task
  that has begun completes or panics. Time is not modelled: a sleep ends at some point.
\<close>

section \<open>The strategies\<close>

text \<open>
  A \<open>Duration\<close> is a number of nanoseconds, a \<open>Manual\<close> the number of its watch channel. A strategy of
  the user's is a parameter: the errors that its \<open>validate\<close> and its \<open>schedule\<close> return, if any.
\<close>

datatype strategy = OnStart | Periodic nat | Manual nat | OtherStrategy "blob_storage_error option" "blob_storage_error option"

definition is_zero :: "nat \<Rightarrow> bool" where
  "is_zero d \<longleftrightarrow> d = 0"

fun strategy_validate :: "strategy \<Rightarrow> unit res" where
  "strategy_validate (Periodic d) =
     (if is_zero d then Err (InvalidInput ''Periodic duration must be non-zero'') else Ok ())"
| "strategy_validate (OtherStrategy v _) = (case v of None \<Rightarrow> Ok () | Some e \<Rightarrow> Err e)"
| "strategy_validate _ = Ok ()"

section \<open>The state of the background\<close>

datatype pc = AtSelect | Woken | Sending | Finished

text \<open>A scheduling loop; \<open>sl_seen\<close> is the version that its watch receiver has seen.\<close>

record scheduling_loop =
  sl_strategy :: strategy
  sl_pc :: pc
  sl_seen :: nat

text \<open>
  The watch channel of a \<open>Manual\<close>: its value, the version that the channel counts up with every value
  sent, and whether the sender is gone.
\<close>

record watch =
  wt_value :: u64
  wt_version :: nat
  wt_closed :: bool

datatype worker = Receiving | Busy nat | Stopped

text \<open>
  \<open>bg_pending\<close> are the strategies that \<open>spawn_tasks\<close> has not scheduled yet; \<open>bg_released\<close> says that
  the layers are gone, so that the tasks' \<open>Weak\<close> references do not upgrade any more.
\<close>

record background =
  bg_pending :: "strategy list"
  bg_loops :: "scheduling_loop list"
  bg_queue :: "nat list"
  bg_worker :: worker
  bg_cancelled :: bool
  bg_released :: bool
  bg_watch :: "nat \<Rightarrow> watch"

definition QUEUE_SLOTS :: nat where
  "QUEUE_SLOTS = 16"

definition background_start :: "strategy list \<Rightarrow> (nat \<Rightarrow> watch) \<Rightarrow> background" where
  "background_start strategies watches =
     \<lparr>bg_pending = strategies, bg_loops = [], bg_queue = [], bg_worker = Receiving,
      bg_cancelled = False, bg_released = False, bg_watch = watches\<rparr>"

section \<open>Triggers\<close>

text \<open>\<open>None\<close>: the queue is full, the call waits.\<close>

definition trigger :: "nat \<Rightarrow> background \<Rightarrow> (unit res \<times> background) option" where
  "trigger i s =
     (if bg_worker s = Stopped then Some (Err (InvalidInput ''maintenance queue shut down''), s)
      else if length (bg_queue s) < QUEUE_SLOTS then Some (Ok (), s\<lparr>bg_queue := bg_queue s @ [i]\<rparr>)
      else None)"

definition try_trigger :: "nat \<Rightarrow> background \<Rightarrow> unit res \<times> background" where
  "try_trigger i s =
     (if bg_worker s = Stopped then (Err (InvalidInput ''maintenance queue shut down''), s)
      else if length (bg_queue s) < QUEUE_SLOTS then (Ok (), s\<lparr>bg_queue := bg_queue s @ [i]\<rparr>)
      else (Err (InvalidInput ''maintenance queue full''), s))"

text \<open>
  A \<open>BackgroundContext\<close> is what a strategy sees of the background: the trigger of its registration
  \<open>i\<close>, and a \<open>BackgroundCancellation\<close>, a read-only view of the one token. Waiting for \<open>cancelled()\<close> ends
  when \<open>is_cancelled\<close> holds.
\<close>

definition is_cancelled :: "background \<Rightarrow> bool" where
  "is_cancelled s \<longleftrightarrow> bg_cancelled s"

definition context_trigger :: "nat \<Rightarrow> background \<Rightarrow> (unit res \<times> background) option" where
  "context_trigger i s = trigger i s"

definition context_try_trigger :: "nat \<Rightarrow> background \<Rightarrow> unit res \<times> background" where
  "context_try_trigger i s = try_trigger i s"

definition context_is_cancelled :: "background \<Rightarrow> bool" where
  "context_is_cancelled s \<longleftrightarrow> is_cancelled s"

lemmas context_simps [simp] =
  is_cancelled_def context_trigger_def context_try_trigger_def context_is_cancelled_def

definition manual_new :: watch where
  "manual_new = \<lparr>wt_value = 0, wt_version = 0, wt_closed = False\<rparr>"

text \<open>\<open>watch::Sender::send\<close> fails when there is no receiver, and then leaves the channel alone.\<close>

definition manual_trigger :: "bool \<Rightarrow> watch \<Rightarrow> watch" where
  "manual_trigger received w =
     (let current = wt_value w in
      if received then w\<lparr>wt_value := current + 1, wt_version := Suc (wt_version w)\<rparr> else w)"

section \<open>The scheduling loops\<close>

fun on_start_moves :: "bool \<Rightarrow> pc \<Rightarrow> pc list" where
  "on_start_moves cancelled AtSelect = [if cancelled then Finished else Sending]"
| "on_start_moves cancelled Sending = (if cancelled then [Finished] else [])"
| "on_start_moves _ _ = []"

fun periodic_moves :: "bool \<Rightarrow> pc \<Rightarrow> pc list" where
  "periodic_moves cancelled AtSelect = Woken # (if cancelled then [Finished] else [])"
| "periodic_moves cancelled Woken = [if cancelled then Finished else Sending]"
| "periodic_moves _ _ = []"

text \<open>\<open>changed()\<close> looks at the version first: an unseen value counts although the sender is gone.\<close>

fun manual_moves :: "bool \<Rightarrow> watch \<Rightarrow> nat \<Rightarrow> pc \<Rightarrow> (pc \<times> nat) list" where
  "manual_moves cancelled w seen AtSelect =
     (if cancelled then [(Finished, seen)] else []) @
     (if wt_version w \<noteq> seen then [(Sending, wt_version w)]
      else if wt_closed w then [(Finished, seen)] else [])"
| "manual_moves _ _ _ _ = []"

text \<open>What the documentation asks of a user's strategy: it stops when cancellation is signalled.\<close>

fun other_moves :: "bool \<Rightarrow> pc \<Rightarrow> pc list" where
  "other_moves cancelled AtSelect = (if cancelled then [Finished] else [Sending, Finished])"
| "other_moves _ _ = []"

definition moves :: "background \<Rightarrow> scheduling_loop \<Rightarrow> scheduling_loop list" where
  "moves s l =
     (case sl_strategy l of
        OnStart \<Rightarrow> map (\<lambda>p. l\<lparr>sl_pc := p\<rparr>) (on_start_moves (context_is_cancelled s) (sl_pc l))
      | Periodic _ \<Rightarrow> map (\<lambda>p. l\<lparr>sl_pc := p\<rparr>) (periodic_moves (context_is_cancelled s) (sl_pc l))
      | Manual h \<Rightarrow> map (\<lambda>(p, v). l\<lparr>sl_pc := p, sl_seen := v\<rparr>)
          (manual_moves (context_is_cancelled s) (bg_watch s h) (sl_seen l) (sl_pc l))
      | OtherStrategy _ _ \<Rightarrow> map (\<lambda>p. l\<lparr>sl_pc := p\<rparr>) (other_moves (context_is_cancelled s) (sl_pc l)))"

text \<open>Where a loop goes when its \<open>trigger\<close> has returned \<open>r\<close>.\<close>

definition on_start_sent :: "unit res \<Rightarrow> pc" where
  "on_start_sent r = Finished"

definition periodic_sent :: "unit res \<Rightarrow> pc" where
  "periodic_sent r = (if r = Ok () then AtSelect else Finished)"

definition manual_sent :: "unit res \<Rightarrow> pc" where
  "manual_sent r = (if r = Ok () then AtSelect else Finished)"

fun sent :: "strategy \<Rightarrow> unit res \<Rightarrow> pc" where
  "sent OnStart r = on_start_sent r"
| "sent (Periodic _) r = periodic_sent r"
| "sent (Manual _) r = manual_sent r"
| "sent (OtherStrategy _ _) _ = AtSelect"

text \<open>\<open>schedule\<close>: the loop it spawns, in the place where it starts.\<close>

definition on_start_schedule :: scheduling_loop where
  "on_start_schedule = \<lparr>sl_strategy = OnStart, sl_pc = AtSelect, sl_seen = 0\<rparr>"

definition periodic_schedule :: "nat \<Rightarrow> scheduling_loop" where
  "periodic_schedule d =
     (if is_zero d then \<lparr>sl_strategy = Periodic d, sl_pc = Finished, sl_seen = 0\<rparr>
      else \<lparr>sl_strategy = Periodic d, sl_pc = Sending, sl_seen = 0\<rparr>)"

definition manual_schedule :: "nat \<Rightarrow> watch \<Rightarrow> scheduling_loop" where
  "manual_schedule h w = \<lparr>sl_strategy = Manual h, sl_pc = AtSelect, sl_seen = wt_version w\<rparr>"

lemmas strategy_simps [simp] =
  on_start_sent_def periodic_sent_def manual_sent_def
  on_start_schedule_def periodic_schedule_def manual_schedule_def

fun schedule :: "background \<Rightarrow> strategy \<Rightarrow> scheduling_loop res" where
  "schedule s OnStart = Ok on_start_schedule"
| "schedule s (Periodic d) = Ok (periodic_schedule d)"
| "schedule s (Manual h) = Ok (manual_schedule h (bg_watch s h))"
| "schedule s (OtherStrategy v r) =
     (case r of None \<Rightarrow> Ok \<lparr>sl_strategy = OtherStrategy v r, sl_pc = AtSelect, sl_seen = 0\<rparr> | Some e \<Rightarrow> Err e)"

text \<open>
  Whether \<open>spawn_tasks\<close> succeeds; what happens in the meantime is the step relation below.
\<close>

definition spawn_tasks :: "strategy list \<Rightarrow> (nat \<Rightarrow> watch) \<Rightarrow> unit res" where
  "spawn_tasks tasks watches =
     res_for (\<lambda>task. res_bind (schedule (background_start tasks watches) task) (\<lambda>_. Ok ())) tasks"

section \<open>The worker\<close>

datatype event =
    Spawned | SpawnFailed | Dropped | Released
  | Triggered nat | HandleDropped nat
  | Polled nat | Enqueued nat
  | Began nat | Skipped nat | Completed nat | Panicked nat | WorkerEnded

definition senders_left :: "background \<Rightarrow> bool" where
  "senders_left s \<longleftrightarrow> bg_pending s \<noteq> [] \<or> list_ex (\<lambda>l. sl_pc l \<noteq> Finished) (bg_loops s)"

text \<open>
  \<open>recv\<close> returns a queued task, or \<open>None\<close> when the queue is empty and no sender is left; the other
  branch of the \<open>select!\<close> is the cancellation. A task that has begun runs to its end, cancelled or
  not; a panic ends the worker with it. When the worker ends, the receiver and the queue are dropped.
\<close>

definition worker_moves :: "background \<Rightarrow> (event \<times> background) list" where
  "worker_moves s =
     (case bg_worker s of
        Receiving \<Rightarrow>
          (case bg_queue s of
             i # q \<Rightarrow> [if bg_released s then (Skipped i, s\<lparr>bg_queue := q\<rparr>)
                       else (Began i, s\<lparr>bg_queue := q, bg_worker := Busy i\<rparr>)]
           | [] \<Rightarrow> (if senders_left s then [] else [(WorkerEnded, s\<lparr>bg_worker := Stopped\<rparr>)])) @
          (if bg_cancelled s then [(WorkerEnded, s\<lparr>bg_worker := Stopped, bg_queue := []\<rparr>)] else [])
      | Busy i \<Rightarrow> [(Completed i, s\<lparr>bg_worker := Receiving\<rparr>),
                   (Panicked i, s\<lparr>bg_worker := Stopped, bg_queue := []\<rparr>)]
      | Stopped \<Rightarrow> [])"

section \<open>Steps and runs\<close>

definition has_receiver :: "background \<Rightarrow> nat \<Rightarrow> bool" where
  "has_receiver s h \<longleftrightarrow> list_ex (\<lambda>l. sl_strategy l = Manual h \<and> sl_pc l \<noteq> Finished) (bg_loops s)"

text \<open>The \<open>drop\<close> of the \<open>ShutdownGuard\<close>, which every user of the store shares.\<close>

definition guard_drop :: "background \<Rightarrow> background" where
  "guard_drop s = s\<lparr>bg_cancelled := True\<rparr>"

declare guard_drop_def [simp]

text \<open>
  \<open>spawn\<close>, \<open>spawn_fails\<close>: one round of \<open>spawn_tasks\<close>; an error of \<open>schedule\<close> makes the build fail, and
  the guard that is dropped with it cancels. \<open>drop\<close>, \<open>release\<close>: the last user of the store drops it,
  which first cancels and then releases the layers.
\<close>

inductive background_step :: "background \<Rightarrow> event \<Rightarrow> background \<Rightarrow> bool" where
  spawn: "bg_pending s = st # rest \<Longrightarrow> schedule s st = Ok l \<Longrightarrow>
     background_step s Spawned (s\<lparr>bg_pending := rest, bg_loops := bg_loops s @ [l]\<rparr>)"
| spawn_fails: "bg_pending s = st # rest \<Longrightarrow> schedule s st = Err e \<Longrightarrow>
     background_step s SpawnFailed (guard_drop (s\<lparr>bg_pending := []\<rparr>))"
| drop: "bg_pending s = [] \<Longrightarrow> \<not> bg_cancelled s \<Longrightarrow>
     background_step s Dropped (guard_drop s)"
| release: "bg_cancelled s \<Longrightarrow> \<not> bg_released s \<Longrightarrow>
     background_step s Released (s\<lparr>bg_released := True\<rparr>)"
| manual: "\<not> wt_closed (bg_watch s h) \<Longrightarrow>
     background_step s (Triggered h)
       (s\<lparr>bg_watch := (bg_watch s)(h := manual_trigger (has_receiver s h) (bg_watch s h))\<rparr>)"
| handle_drop: "Manual h \<notin> set (bg_pending s) \<Longrightarrow> \<not> wt_closed (bg_watch s h) \<Longrightarrow>
     background_step s (HandleDropped h)
       (s\<lparr>bg_watch := (bg_watch s)(h := (bg_watch s h)\<lparr>wt_closed := True\<rparr>)\<rparr>)"
| poll: "i < length (bg_loops s) \<Longrightarrow> l \<in> set (moves s (bg_loops s ! i)) \<Longrightarrow>
     background_step s (Polled i) (s\<lparr>bg_loops := (bg_loops s)[i := l]\<rparr>)"
| send: "i < length (bg_loops s) \<Longrightarrow> bg_loops s ! i = l \<Longrightarrow> sl_pc l = Sending \<Longrightarrow>
     context_trigger i s = Some (r, s') \<Longrightarrow>
     background_step s (if r = Ok () then Enqueued i else Polled i)
       (s'\<lparr>bg_loops := (bg_loops s')[i := l\<lparr>sl_pc := sent (sl_strategy l) r\<rparr>]\<rparr>)"
| try_send: "i < length (bg_loops s) \<Longrightarrow> bg_loops s ! i = l \<Longrightarrow> sl_pc l = AtSelect \<Longrightarrow>
     sl_strategy l = OtherStrategy v c \<Longrightarrow> \<not> context_is_cancelled s \<Longrightarrow> context_try_trigger i s = (r, s') \<Longrightarrow>
     background_step s (if r = Ok () then Enqueued i else Polled i) s'"
| work: "(e, s') \<in> set (worker_moves s) \<Longrightarrow> background_step s e s'"

inductive background_run :: "background \<Rightarrow> event list \<Rightarrow> background \<Rightarrow> bool" for s0 where
  start: "background_run s0 [] s0"
| step: "background_run s0 es s \<Longrightarrow> background_step s e s' \<Longrightarrow> background_run s0 (es @ [e]) s'"

end
