(* ===== verification/Builder.thy ===== *)
theory Builder
  imports Maintenance S3_Store Fs_Store Prefix Encrypt Cleanup
begin

text \<open>
  \<open>builder.rs\<close> and \<open>builder/backend.rs\<close>: the builder collects a backend and an ordered list of layers;
  \<open>build\<close> validates the strategies, makes the backend, wraps the layers around it in the order of the
  calls, and hands the maintenance tasks to the background (\<open>Maintenance\<close>).

  The world has the file system in it and whatever else the S3 client, the encryption providers and
  a custom backend need. The clock, \<open>DateTime::from_timestamp\<close> and the fuel of the listings are one
  record, \<open>runtime\<close>.
\<close>

record 'w runtime =
  rt_fuel :: nat
  rt_from_timestamp :: "int \<Rightarrow> nat \<Rightarrow> datetime option"
  rt_s3_from_timestamp :: "int \<Rightarrow> int \<Rightarrow> datetime option"
  rt_now :: "'w \<Rightarrow> datetime"
  rt_watches :: "nat \<Rightarrow> watch"

section \<open>A store that any visitor can walk\<close>

text \<open>
  The \<open>visit\<close> of an \<open>Arc<dyn BlobStore>\<close> takes any visitor. A record of the model has one type of
  visitor state, so such a store is a record per type: the user's \<open>'u\<close>, and the two that the
  maintenance tasks bring. Each layer acts on the three alike.
\<close>

record ('w, 'u) dyn_store =
  ds_user :: "('w, 'u) blob_store"
  ds_cleanup :: "('w, cleanup_visitor) blob_store"
  ds_rekey :: "('w, u64) blob_store"

definition fs_dyn :: "nat \<Rightarrow> fs_blob_store \<Rightarrow> ('z fsys_scheme, 'u) dyn_store" where
  "fs_dyn fuel self =
     \<lparr>ds_user = fs_store fuel self, ds_cleanup = fs_store fuel self, ds_rekey = fs_store fuel self\<rparr>"

definition s3_dyn :: "nat \<Rightarrow> 'w s3_blob_store \<Rightarrow> ('w, 'u) dyn_store" where
  "s3_dyn fuel self =
     \<lparr>ds_user = s3_store fuel self, ds_cleanup = s3_store fuel self, ds_rekey = s3_store fuel self\<rparr>"

definition prefix_dyn :: "('w, 'u) dyn_store \<Rightarrow> string \<Rightarrow> ('w, 'u) dyn_store" where
  "prefix_dyn inner p =
     \<lparr>ds_user = prefix_store (ds_user inner) p, ds_cleanup = prefix_store (ds_cleanup inner) p,
      ds_rekey = prefix_store (ds_rekey inner) p\<rparr>"

definition enc_dyn :: "('w, 'u) dyn_store \<Rightarrow> 'w encryption_provider \<Rightarrow> ('w, 'u) dyn_store" where
  "enc_dyn inner provider =
     \<lparr>ds_user = enc_store (encrypted_new (ds_user inner) provider),
      ds_cleanup = enc_store (encrypted_new (ds_cleanup inner) provider),
      ds_rekey = enc_store (encrypted_new (ds_rekey inner) provider)\<rparr>"

definition cleanup_dyn ::
  "('w, 'u) dyn_store \<Rightarrow> (key \<Rightarrow> blob_meta \<Rightarrow> bool) \<Rightarrow> nat \<Rightarrow> ('w, 'u) dyn_store"
where
  "cleanup_dyn inner predicate n =
     \<lparr>ds_user = cleanup_store (with_batch_size n (cleanup_new (ds_user inner) predicate)),
      ds_cleanup = cleanup_store (with_batch_size n (cleanup_new (ds_cleanup inner) predicate)),
      ds_rekey = cleanup_store (with_batch_size n (cleanup_new (ds_rekey inner) predicate))\<rparr>"

section \<open>The guard\<close>

text \<open>
  \<open>ShutdownGuard\<close> passes every call on. Its \<open>drop\<close>, which cancels the background, is the event
  \<open>Dropped\<close> of \<open>Maintenance\<close>.
\<close>

definition guard_store :: "('w, 'v) blob_store \<Rightarrow> ('w, 'v) blob_store" where
  "guard_store inner =
     \<lparr>bs_put = (\<lambda>blobs. bs_put inner blobs), bs_get = (\<lambda>key. bs_get inner key),
      bs_delete = (\<lambda>keys. bs_delete inner keys), bs_list = (\<lambda>f. bs_list inner f),
      bs_exists = (\<lambda>key. bs_exists inner key),
      bs_get_with_metadata = (\<lambda>key. bs_get_with_metadata inner key),
      bs_visit = (\<lambda>f visitor. bs_visit inner f visitor),
      bs_list_with_metadata = (\<lambda>f. bs_list_with_metadata inner f)\<rparr>"

lemma guard_store_inner [simp]: "guard_store inner = inner"
  by (simp add: guard_store_def)

definition guard_dyn :: "('w, 'u) dyn_store \<Rightarrow> ('w, 'u) dyn_store" where
  "guard_dyn inner =
     \<lparr>ds_user = guard_store (ds_user inner), ds_cleanup = guard_store (ds_cleanup inner),
      ds_rekey = guard_store (ds_rekey inner)\<rparr>"

section \<open>Layers and their tasks\<close>

datatype ('w, 'u) backend_kind =
    Fs path
  | S3 "'w s3_client" string u64
  | CustomBackend "('w, 'u) dyn_store"
  | NoneBackend

datatype ('w, 'u) layer_kind =
    Prefix string
  | Encryption "'w encryption_provider" "strategy option"
  | Cleanup "key \<Rightarrow> blob_meta \<Rightarrow> bool" nat "strategy option"
  | CustomLayer "('w, 'u) dyn_store \<Rightarrow> ('w, 'u) dyn_store"

text \<open>A task's factory: what the task does, given whether its \<open>Weak\<close> reference still upgrades.\<close>

record 'w maintenance_task =
  mt_factory :: "bool \<Rightarrow> ('w, unit) io"
  mt_strategy :: strategy

definition rekey_task :: "('w, u64) encrypted_blob_store \<Rightarrow> bool \<Rightarrow> ('w, unit) io" where
  "rekey_task enc upgraded =
     (if upgraded then io_catch (enc_rekey enc) (\<lambda>_. io_ret ()) (\<lambda>_. io_ret ()) else io_ret ())"

definition cleanup_task ::
  "('w \<Rightarrow> datetime) \<Rightarrow> ('w, cleanup_visitor) blob_cleanup \<Rightarrow> bool \<Rightarrow> ('w, unit) io"
where
  "cleanup_task now c upgraded =
     (if upgraded then io_catch (cleanup now c) (\<lambda>_. io_ret ()) (\<lambda>_. io_ret ()) else io_ret ())"

fun wrap ::
  "'w runtime \<Rightarrow> ('w, 'u) layer_kind \<Rightarrow> ('w, 'u) dyn_store \<Rightarrow>
   ('w, 'u) dyn_store \<times> 'w maintenance_task list"
where
  "wrap rt (Prefix p) inner = (prefix_dyn inner p, [])"
| "wrap rt (Encryption provider rekey_strategy) inner =
     (enc_dyn inner provider,
      (case rekey_strategy of
         None \<Rightarrow> []
       | Some strategy \<Rightarrow>
           [\<lparr>mt_factory = rekey_task (encrypted_new (ds_rekey inner) provider), mt_strategy = strategy\<rparr>]))"
| "wrap rt (Cleanup predicate batch_size strat) inner =
     (cleanup_dyn inner predicate batch_size,
      (case strat of
         None \<Rightarrow> []
       | Some strategy \<Rightarrow>
           [\<lparr>mt_factory = cleanup_task (rt_now rt)
                (with_batch_size batch_size (cleanup_new (ds_cleanup inner) predicate)),
             mt_strategy = strategy\<rparr>]))"
| "wrap rt (CustomLayer f) inner = (f inner, [])"

section \<open>The builder\<close>

record ('w, 'u) blob_store_builder =
  bb_backend :: "('w, 'u) backend_kind option"
  bb_layers :: "('w, 'u) layer_kind list"

definition builder_new :: "('w, 'u) blob_store_builder" where
  "builder_new = \<lparr>bb_backend = None, bb_layers = []\<rparr>"

definition with_fs :: "path \<Rightarrow> ('w, 'u) blob_store_builder \<Rightarrow> ('w, 'u) blob_store_builder" where
  "with_fs root self = \<lparr>bb_backend = Some (Fs root), bb_layers = bb_layers self\<rparr>"

definition with_s3 ::
  "'w s3_client \<Rightarrow> string \<Rightarrow> ('w, 'u) blob_store_builder \<Rightarrow> ('w, 'u) blob_store_builder"
where
  "with_s3 client bucket self =
     \<lparr>bb_backend = Some (S3 client bucket DEFAULT_MULTIPART_PART_SIZE), bb_layers = bb_layers self\<rparr>"

definition with_backend ::
  "('w, 'u) dyn_store \<Rightarrow> ('w, 'u) blob_store_builder \<Rightarrow> ('w, 'u) blob_store_builder"
where
  "with_backend store self = \<lparr>bb_backend = Some (CustomBackend store), bb_layers = bb_layers self\<rparr>"

definition with_prefix :: "string \<Rightarrow> ('w, 'u) blob_store_builder \<Rightarrow> ('w, 'u) blob_store_builder" where
  "with_prefix p self = self\<lparr>bb_layers := bb_layers self @ [Prefix p]\<rparr>"

definition with_encryption ::
  "'w encryption_provider \<Rightarrow> ('w, 'u) blob_store_builder \<Rightarrow> ('w, 'u) blob_store_builder"
where
  "with_encryption provider self = self\<lparr>bb_layers := bb_layers self @ [Encryption provider None]\<rparr>"

definition with_rekey :: "strategy \<Rightarrow> ('w, 'u) blob_store_builder \<Rightarrow> ('w, 'u) blob_store_builder" where
  "with_rekey strategy self =
     (case rev (bb_layers self) of
        Encryption provider _ # below \<Rightarrow>
          self\<lparr>bb_layers := rev below @ [Encryption provider (Some strategy)]\<rparr>
      | _ \<Rightarrow> self)"

definition with_clean ::
  "(key \<Rightarrow> blob_meta \<Rightarrow> bool) \<Rightarrow> strategy \<Rightarrow> ('w, 'u) blob_store_builder \<Rightarrow>
   ('w, 'u) blob_store_builder"
where
  "with_clean predicate strategy self =
     self\<lparr>bb_layers := bb_layers self @ [Cleanup predicate 1000 (Some strategy)]\<rparr>"

definition with_clean_batch_size :: "nat \<Rightarrow> ('w, 'u) blob_store_builder \<Rightarrow> ('w, 'u) blob_store_builder" where
  "with_clean_batch_size batch_size self =
     (case rev (bb_layers self) of
        Cleanup predicate _ strat # below \<Rightarrow>
          self\<lparr>bb_layers := rev below @ [Cleanup predicate batch_size strat]\<rparr>
      | _ \<Rightarrow> self)"

definition with_layer ::
  "(('w, 'u) dyn_store \<Rightarrow> ('w, 'u) dyn_store) \<Rightarrow> ('w, 'u) blob_store_builder \<Rightarrow>
   ('w, 'u) blob_store_builder"
where
  "with_layer f self = self\<lparr>bb_layers := bb_layers self @ [CustomLayer f]\<rparr>"

definition with_s3_part_size :: "u64 \<Rightarrow> ('w, 'u) blob_store_builder \<Rightarrow> ('w, 'u) blob_store_builder" where
  "with_s3_part_size sz self =
     (case bb_backend self of
        Some (S3 client bucket _) \<Rightarrow>
          self\<lparr>bb_backend := Some (S3 client bucket (max sz MIN_MULTIPART_PART_SIZE))\<rparr>
      | _ \<Rightarrow> self)"

text \<open>
  The typestate: which calls the Rust types allow. \<open>build\<close> exists for every marker but \<open>NoBackend\<close>.
\<close>

datatype marker = NoBackend | FsChosen | S3Chosen | CustomChosen

inductive in_state :: "marker \<Rightarrow> ('w, 'u) blob_store_builder \<Rightarrow> bool" where
  new: "in_state NoBackend builder_new"
| fs: "in_state NoBackend b \<Longrightarrow> in_state FsChosen (with_fs root b)"
| s3: "in_state NoBackend b \<Longrightarrow> in_state S3Chosen (with_s3 client bucket b)"
| backend: "in_state NoBackend b \<Longrightarrow> in_state CustomChosen (with_backend store b)"
| prefix: "in_state m b \<Longrightarrow> in_state m (with_prefix p b)"
| encryption: "in_state m b \<Longrightarrow> in_state m (with_encryption provider b)"
| rekey: "in_state m b \<Longrightarrow> in_state m (with_rekey strategy b)"
| clean: "in_state m b \<Longrightarrow> in_state m (with_clean predicate strategy b)"
| clean_batch_size: "in_state m b \<Longrightarrow> in_state m (with_clean_batch_size n b)"
| layer: "in_state m b \<Longrightarrow> in_state m (with_layer f b)"
| part_size: "in_state S3Chosen b \<Longrightarrow> in_state S3Chosen (with_s3_part_size sz b)"

section \<open>Building\<close>

fun layer_strategy :: "('w, 'u) layer_kind \<Rightarrow> strategy option" where
  "layer_strategy (Encryption _ strategy) = strategy"
| "layer_strategy (Cleanup _ _ strategy) = strategy"
| "layer_strategy _ = None"

definition validate_strategies :: "('w, 'u) blob_store_builder \<Rightarrow> unit res" where
  "validate_strategies self =
     res_for (\<lambda>layer. case layer_strategy layer of None \<Rightarrow> Ok () | Some strategy \<Rightarrow> strategy_validate strategy)
       (bb_layers self)"

fun build_raw_arc ::
  "'z fsys_scheme runtime \<Rightarrow> ('z fsys_scheme, 'u) backend_kind \<Rightarrow>
   ('z fsys_scheme, ('z fsys_scheme, 'u) dyn_store) io"
where
  "build_raw_arc rt (Fs root) =
     io_bind (fs_new (rt_from_timestamp rt) root) (\<lambda>store. io_ret (fs_dyn (rt_fuel rt) store))"
| "build_raw_arc rt (S3 client bucket part_size) =
     io_ret (s3_dyn (rt_fuel rt)
       (with_multipart_part_size (s3_new client bucket (rt_s3_from_timestamp rt) (rt_now rt)) part_size))"
| "build_raw_arc rt (CustomBackend store) = io_ret store"
| "build_raw_arc rt NoneBackend = io_lift Hang"

text \<open>The loop over the layers: the store and the tasks so far.\<close>

fun wrap_all ::
  "'w runtime \<Rightarrow> ('w, 'u) layer_kind list \<Rightarrow> ('w, 'u) dyn_store \<Rightarrow> 'w maintenance_task list \<Rightarrow>
   ('w, 'u) dyn_store \<times> 'w maintenance_task list"
where
  "wrap_all rt [] store tasks = (store, tasks)"
| "wrap_all rt (layer # layers) store tasks =
     (case wrap rt layer store of (new_store, layer_tasks) \<Rightarrow>
        wrap_all rt layers new_store (tasks @ layer_tasks))"

text \<open>
  The result is the guarded store, and the tasks with which the background starts. A backend that is
  not there is a panic, the value \<open>Hang\<close>.
\<close>

definition do_build ::
  "'z fsys_scheme runtime \<Rightarrow> ('z fsys_scheme, 'u) blob_store_builder \<Rightarrow>
   ('z fsys_scheme, ('z fsys_scheme, 'u) dyn_store \<times> 'z fsys_scheme maintenance_task list) io"
where
  "do_build rt self =
     io_bind (io_lift (validate_strategies self)) (\<lambda>_.
     case bb_backend self of
       None \<Rightarrow> io_lift Hang
     | Some backend \<Rightarrow>
         io_bind (build_raw_arc rt backend) (\<lambda>raw.
           case wrap_all rt (bb_layers self) raw [] of
             (store, tasks) \<Rightarrow>
               io_bind
                 (if tasks = [] then io_ret ()
                  else io_lift (spawn_tasks (map mt_strategy tasks) (rt_watches rt)))
                 (\<lambda>_. io_ret (guard_dyn store, tasks))))"

text \<open>The public \<open>build\<close> of the three markers that have one.\<close>

definition build ::
  "'z fsys_scheme runtime \<Rightarrow> ('z fsys_scheme, 'u) blob_store_builder \<Rightarrow>
   ('z fsys_scheme, ('z fsys_scheme, 'u) dyn_store \<times> 'z fsys_scheme maintenance_task list) io"
where
  "build rt self = do_build rt self"

end
