(* ===== verification/Builder_Facts.thy ===== *)
theory Builder_Facts
  imports Builder Encrypt_Fs S3_Layers
begin

text \<open>
  What the builder makes: the calls that the types allow leave a backend, \<open>build\<close> then never panics,
  and a stack of layers over a backend that keeps the contract keeps it too, each layer for its own
  view of the blobs.
\<close>

section \<open>The typestate\<close>

fun backend_for :: "marker \<Rightarrow> ('w, 'u) backend_kind option \<Rightarrow> bool" where
  "backend_for NoBackend b \<longleftrightarrow> b = None"
| "backend_for FsChosen (Some (Fs root)) \<longleftrightarrow> True"
| "backend_for S3Chosen (Some (S3 client bucket part_size)) \<longleftrightarrow> MIN_MULTIPART_PART_SIZE \<le> part_size"
| "backend_for CustomChosen (Some (CustomBackend store)) \<longleftrightarrow> True"
| "backend_for _ _ \<longleftrightarrow> False"

lemma bb_backend_simps [simp]:
  "bb_backend (with_prefix p b) = bb_backend b" "bb_backend (with_encryption provider b) = bb_backend b"
  "bb_backend (with_rekey strategy b) = bb_backend b" "bb_backend (with_clean predicate strategy b) = bb_backend b"
  "bb_backend (with_clean_batch_size n b) = bb_backend b" "bb_backend (with_layer f b) = bb_backend b"
  by (simp_all add: with_prefix_def with_encryption_def with_rekey_def with_clean_def
      with_clean_batch_size_def with_layer_def split: list.split layer_kind.split)

lemma in_state_backend: "in_state m b \<Longrightarrow> backend_for m (bb_backend b)"
proof (induction rule: in_state.induct)
  case (part_size b sz)
  then show ?case
    by (cases "bb_backend b"; cases "the (bb_backend b)") (simp_all add: with_s3_part_size_def le_max_iff_disj)
qed (simp_all add: builder_new_def with_fs_def with_s3_def with_backend_def
    DEFAULT_MULTIPART_PART_SIZE_def MIN_MULTIPART_PART_SIZE_def)

lemma mkdirs_not_Hang: "fst (mkdirs cur cs fs) \<noteq> Hang"
  by (induction cs arbitrary: cur fs) (auto simp: faulty_def io_ret_def split: option.split node.split)

lemma fs_new_not_Hang: "fst (fs_new ts root w) \<noteq> Hang"
proof -
  have "fst (create_dir_all (normalise_root root) w) \<noteq> Hang"
    by (simp add: create_dir_all_def mkdirs_not_Hang)
  then show ?thesis
    by (cases "create_dir_all (normalise_root root) w"; cases "fst (create_dir_all (normalise_root root) w)")
      (auto simp: fs_new_def Let_def io_map_err_eq io_bind_eq)
qed

lemma strategy_validate_not_Hang: "strategy_validate st \<noteq> Hang"
  by (cases st) (simp_all split: option.split)

lemma schedule_not_Hang: "schedule s st \<noteq> Hang"
  by (cases st) (simp_all split: option.split)

lemma spawn_tasks_not_Hang: "spawn_tasks tasks watches \<noteq> Hang"
  unfolding spawn_tasks_def
proof (rule res_for_not_Hang)
  fix task show "res_bind (schedule (background_start tasks watches) task) (\<lambda>_. Ok ()) \<noteq> Hang"
    using schedule_not_Hang [of "background_start tasks watches" task]
    by (cases "schedule (background_start tasks watches) task") simp_all
qed

lemma build_raw_arc_not_Hang: "backend \<noteq> NoneBackend \<Longrightarrow> fst (build_raw_arc rt backend w) \<noteq> Hang"
proof (cases backend)
  case (Fs root)
  then show ?thesis
    using fs_new_not_Hang [of "rt_from_timestamp rt" root w]
    by (cases "fs_new (rt_from_timestamp rt) root w"; cases "fst (fs_new (rt_from_timestamp rt) root w)")
      (auto simp: io_bind_eq)
qed simp_all

lemma do_build_not_Hang:
  assumes "bb_backend b = Some backend" "backend \<noteq> NoneBackend"
  shows "fst (do_build rt b w) \<noteq> Hang"
proof -
  have v: "validate_strategies b \<noteq> Hang"
    unfolding validate_strategies_def
    by (rule res_for_not_Hang) (simp add: strategy_validate_not_Hang split: option.split)
  obtain raw w1 where r: "build_raw_arc rt backend w = (raw, w1)" by (metis surj_pair)
  have "raw \<noteq> Hang" using build_raw_arc_not_Hang [OF assms(2), of rt w] r by simp
  moreover have "fst ((case wrap_all rt (bb_layers b) store [] of
      (store, tasks) \<Rightarrow>
        io_bind (if tasks = [] then io_ret () else io_lift (spawn_tasks (map mt_strategy tasks) (rt_watches rt)))
          (\<lambda>_. io_ret (guard_dyn store, tasks))) w1) \<noteq> Hang" for store
    using spawn_tasks_not_Hang [of _ "rt_watches rt"]
    by (auto simp: io_bind_eq split: prod.split result.split)
  ultimately show ?thesis
    using v assms(1) r
    by (cases "validate_strategies b"; cases raw) (auto simp: do_build_def io_bind_eq)
qed

lemma validate_zero_period:
  assumes "layer \<in> set (bb_layers b)" "layer_strategy layer = Some (Periodic 0)"
  shows "\<exists>e. validate_strategies b = Err e"
proof -
  let ?f = "\<lambda>layer. case layer_strategy layer of None \<Rightarrow> Ok () | Some strategy \<Rightarrow> strategy_validate strategy"
  have "\<exists>e. res_for ?f ls = Err e" if "layer \<in> set ls" for ls :: "('a, 'b) layer_kind list"
    using that
  proof (induction ls)
    case (Cons l ls)
    have "?f l \<noteq> Hang" by (simp add: strategy_validate_not_Hang split: option.split)
    then show ?case using Cons assms(2) by (cases "?f l") (auto simp: is_zero_def)
  qed simp
  then show ?thesis using assms(1) by (simp add: validate_strategies_def)
qed

section \<open>The contract through a layer\<close>

context prefix_layer
begin

lemma prefix_ops:
  "blob_ops (prefix_store st p) inv (prefix_blobs p blobs) (prefix_ok p ok) (\<lambda>k. text_ok (p @ k))
     (prefix_filter_ok p filter_ok)"
  by (rule pre.blob_ops_axioms)

lemma prefix_exists_pure:
  assumes "\<forall>w k x w'. inv w \<longrightarrow> bs_exists st k w = (x, w') \<longrightarrow> w' = w"
    and "inv w" "bs_exists (prefix_store st p) k w = (x, w')"
  shows "w' = w"
proof (cases "prefixed p k")
  case (Ok full)
  then show ?thesis
    using assms by (cases "bs_exists st full w") (auto simp: prefix_exists_def io_map_err_eq split: result.splits)
qed (use assms(3) in \<open>simp_all add: prefix_exists_def\<close>)

end

context robust_prefix_ops
begin

lemma robust_prefix:
  "robust_ops (prefix_store st p) inv (prefix_blobs p blobs) (prefix_ok p ok) (\<lambda>k. text_ok (p @ k))
     (prefix_filter_ok p filter_ok)"
  by (rule pre.robust_ops_axioms)

end

context encryption_layer
begin

lemma encryption_ops:
  "blob_ops (enc_store this_enc) good plain (enc_ok suf) (\<lambda>k. text_ok k \<and> text_ok (k @ suf)) (\<lambda>_. True)"
  by (rule es.blob_ops_axioms)

end

section \<open>Stacks of layers\<close>

text \<open>
  How a store is seen: the invariant of its world, its blobs, and the keys and filters of its
  contract. \<open>layer_view\<close> is the view through one more layer; \<open>opens\<close> says of each provider which
  plaintext a ciphertext and a header open to.
\<close>

record 'w view =
  vw_inv :: "'w \<Rightarrow> bool"
  vw_blobs :: "'w \<Rightarrow> key \<Rightarrow> bytes option"
  vw_ok :: "key \<Rightarrow> bool"
  vw_text :: "key \<Rightarrow> bool"
  vw_filter :: "list_filter \<Rightarrow> bool"

type_synonym 'w opener = "'w encryption_provider \<Rightarrow> bytes \<Rightarrow> bytes \<Rightarrow> bytes option"

fun layer_view :: "'w opener \<Rightarrow> ('w, 'u) layer_kind \<Rightarrow> 'w view \<Rightarrow> 'w view" where
  "layer_view opens (Prefix p) c =
     \<lparr>vw_inv = vw_inv c, vw_blobs = prefix_blobs p (vw_blobs c), vw_ok = prefix_ok p (vw_ok c),
      vw_text = (\<lambda>k. vw_text c (p @ k)), vw_filter = prefix_filter_ok p (vw_filter c)\<rparr>"
| "layer_view opens (Encryption provider _) c =
     \<lparr>vw_inv = enc_inv DEFAULT_HEADER_SUFFIX (opens provider) (vw_inv c) (vw_blobs c),
      vw_blobs = enc_blobs DEFAULT_HEADER_SUFFIX (opens provider) (vw_blobs c),
      vw_ok = enc_ok DEFAULT_HEADER_SUFFIX,
      vw_text = (\<lambda>k. vw_text c k \<and> vw_text c (k @ DEFAULT_HEADER_SUFFIX)),
      vw_filter = (\<lambda>_. True)\<rparr>"
| "layer_view opens (Cleanup _ _ _) c = c"
| "layer_view opens (CustomLayer _) c = c"

definition stack_view :: "'w opener \<Rightarrow> ('w, 'u) layer_kind list \<Rightarrow> 'w view \<Rightarrow> 'w view" where
  "stack_view opens layers c = foldl (\<lambda>c layer. layer_view opens layer c) c layers"

text \<open>
  The stacks covered: prefix and cleanup layers in any number and order, and at most one encryption
  layer, which needs every key to be usable below it. \<open>robust\<close> says that no encryption layer is below.
\<close>

fun stack_ok :: "'w opener \<Rightarrow> bool \<Rightarrow> ('w, 'u) layer_kind list \<Rightarrow> 'w view \<Rightarrow> bool" where
  "stack_ok opens robust [] c \<longleftrightarrow> True"
| "stack_ok opens robust (Prefix p # layers) c \<longleftrightarrow>
     stack_ok opens robust layers (layer_view opens (Prefix p :: ('w, 'u) layer_kind) c)"
| "stack_ok opens robust (Encryption provider st # layers) c \<longleftrightarrow>
     robust \<and> (\<forall>k. valid_key k \<longrightarrow> vw_ok c k) \<and> vw_filter c (suffix_filter []) \<and>
     provider_ok (vw_inv c) (vw_blobs c) provider (opens provider) \<and>
     stack_ok opens False layers (layer_view opens (Encryption provider st :: ('w, 'u) layer_kind) c)"
| "stack_ok opens robust (Cleanup predicate n st # layers) c \<longleftrightarrow> stack_ok opens robust layers c"
| "stack_ok opens robust (CustomLayer f # layers) c \<longleftrightarrow> False"

abbreviation serves :: "('w, 'v) blob_store \<Rightarrow> 'w view \<Rightarrow> bool" where
  "serves st c \<equiv> blob_ops st (vw_inv c) (vw_blobs c) (vw_ok c) (vw_text c) (vw_filter c)"

definition serves_robustly :: "('w, 'v) blob_store \<Rightarrow> 'w view \<Rightarrow> bool" where
  "serves_robustly st c \<longleftrightarrow>
     robust_ops st (vw_inv c) (vw_blobs c) (vw_ok c) (vw_text c) (vw_filter c) \<and>
     (\<forall>w k x w'. vw_inv c w \<longrightarrow> bs_exists st k w = (x, w') \<longrightarrow> w' = w)"

lemma serves_robustly_serves: "serves_robustly st c \<Longrightarrow> serves st c"
  by (simp add: serves_robustly_def robust_ops_def)

lemma prefix_serves:
  assumes "serves st c"
  shows "serves (prefix_store st p) (layer_view opens (Prefix p :: ('w, 'u) layer_kind) c)"
  using prefix_layer.prefix_ops [OF prefix_layer.intro [OF assms]] by simp

lemma prefix_serves_robustly:
  assumes "serves_robustly st c"
  shows "serves_robustly (prefix_store st p) (layer_view opens (Prefix p :: ('w, 'u) layer_kind) c)"
proof -
  note r = assms [unfolded serves_robustly_def]
  note l = prefix_layer.intro [OF serves_robustly_serves [OF assms]]
  have "robust_prefix_ops st (vw_inv c) (vw_blobs c) (vw_ok c) (vw_text c) (vw_filter c)"
    by (rule robust_prefix_ops.intro [OF l conjunct1 [OF r]])
  from robust_prefix_ops.robust_prefix [OF this] show ?thesis
    using prefix_layer.prefix_exists_pure [OF l conjunct2 [OF r]]
    unfolding serves_robustly_def by simp
qed

lemma below_encryption:
  assumes "serves_robustly st c" "\<forall>k. valid_key k \<longrightarrow> vw_ok c k" "vw_filter c (suffix_filter [])"
    and "provider_ok (vw_inv c) (vw_blobs c) provider opn"
  shows "encryption_layer st (vw_inv c) (vw_blobs c) (vw_ok c) (vw_text c) (vw_filter c) provider opn"
proof -
  note r = assms(1) [unfolded serves_robustly_def]
  show ?thesis
    by (intro encryption_layer.intro conjunct1 [OF r] encryption_layer_axioms.intro)
      (use assms(2-4) conjunct2 [OF r] in blast)+
qed

lemma encryption_serves:
  assumes "serves_robustly st c" "\<forall>k. valid_key k \<longrightarrow> vw_ok c k" "vw_filter c (suffix_filter [])"
    and "provider_ok (vw_inv c) (vw_blobs c) provider (opens provider)"
  shows "serves (enc_store (encrypted_new st provider))
    (layer_view opens (Encryption provider sg :: ('w, 'u) layer_kind) c)"
  using encryption_layer.encryption_ops [OF below_encryption [OF assms]] by (simp add: encrypted_new_def)

lemma cleanup_dyn_inner [simp]: "cleanup_dyn inner predicate n = inner"
  by (simp add: cleanup_dyn_def cleanup_store_inner with_batch_size_def cleanup_new_def)

lemma guard_dyn_inner [simp]: "guard_dyn inner = inner"
  by (simp add: guard_dyn_def)

lemma wrap_all_tasks: "fst (wrap_all rt layers store tasks) = fst (wrap_all rt layers store [])"
proof (induction layers arbitrary: store tasks)
  case (Cons layer layers)
  then show ?case by (cases "wrap rt layer store") (metis fst_conv split_conv wrap_all.simps(2))
qed simp

lemma wrap_all_step:
  "fst (wrap_all rt (layer # layers) store []) = fst (wrap_all rt layers (fst (wrap rt layer store)) [])"
  by (cases "wrap rt layer store") (simp, rule wrap_all_tasks)

declare wrap_all.simps(2) [simp del]

lemma wrap_strategies: "map mt_strategy (snd (wrap rt layer store)) = List.map_filter layer_strategy [layer]"
  by (cases layer) (simp_all add: map_filter_def split: option.split)

lemma wrap_all_strategies:
  "map mt_strategy (snd (wrap_all rt layers store tasks)) =
   map mt_strategy tasks @ List.map_filter layer_strategy layers"
proof (induction layers arbitrary: store tasks)
  case (Cons layer layers)
  obtain new_store layer_tasks where w: "wrap rt layer store = (new_store, layer_tasks)" by (metis surj_pair)
  have "List.map_filter layer_strategy (layer # layers) =
      map mt_strategy layer_tasks @ List.map_filter layer_strategy layers"
    using wrap_strategies [of rt layer store] w by (simp add: map_filter_def)
  then show ?case using Cons.IH w by (simp add: wrap_all.simps)
qed (simp add: map_filter_def)

lemma stack_serves:
  assumes "stack_ok opens robust layers c" "serves (ds_user store) c"
    and "robust \<Longrightarrow> serves_robustly (ds_user store) c"
  shows "serves (ds_user (fst (wrap_all rt layers store []))) (stack_view opens layers c)"
  using assms
proof (induction opens robust layers c arbitrary: store rule: stack_ok.induct)
  case (1 opens robust c)
  then show ?case by (simp add: stack_view_def)
next
  case (2 opens robust p layers c)
  have "serves (ds_user (fst (wrap rt (Prefix p) store))) (layer_view opens (Prefix p) c)"
    using prefix_serves [OF 2(3)] by (simp add: prefix_dyn_def)
  moreover have "serves_robustly (ds_user (fst (wrap rt (Prefix p) store))) (layer_view opens (Prefix p) c)"
    if robust using prefix_serves_robustly [OF 2(4) [OF that]] by (simp add: prefix_dyn_def)
  ultimately show ?case using 2(1,2) by (simp add: wrap_all_step stack_view_def)
next
  case (3 opens robust provider sg layers c)
  have "serves (ds_user (fst (wrap rt (Encryption provider sg) store))) (layer_view opens (Encryption provider sg) c)"
    using encryption_serves [where opens = opens and provider = provider and st = "ds_user store" and c = c and sg = sg]
      3(2,4) by (simp add: enc_dyn_def)
  from 3(1) [OF _ this] 3(2) show ?case by (simp add: wrap_all_step stack_view_def)
next
  case (4 opens robust predicate n sg layers c)
  then show ?case by (simp add: wrap_all_step stack_view_def)
qed simp

text \<open>A world without blobs satisfies the invariant of every layer.\<close>

lemma layer_view_empty:
  "vw_inv c w \<Longrightarrow> vw_blobs c w = Map.empty \<Longrightarrow>
   vw_inv (layer_view opens layer c) w \<and> vw_blobs (layer_view opens layer c) w = Map.empty"
  by (cases layer) (auto simp: prefix_blobs_def enc_inv_def enc_blobs_def)

lemma stack_view_empty:
  "vw_inv c w \<Longrightarrow> vw_blobs c w = Map.empty \<Longrightarrow>
   vw_inv (stack_view opens layers c) w \<and> vw_blobs (stack_view opens layers c) w = Map.empty"
proof (induction layers arbitrary: c)
  case (Cons layer layers)
  then show ?case
    using Cons.IH [of "layer_view opens layer c"] layer_view_empty [of c w opens layer]
    by (simp add: stack_view_def)
qed (simp add: stack_view_def)

section \<open>The backends\<close>

context s3_layer
begin

lemma s3_robust: "robust_ops (s3_store fuel self) good objs valid_key (\<lambda>_. True) hint_sound"
  by (rule s3.robust_ops_axioms)

end

definition fs_view :: "fs_blob_store \<Rightarrow> 'z fsys_scheme view" where
  "fs_view self = \<lparr>vw_inv = fs_inv self, vw_blobs = fs_blobs self, vw_ok = valid_key, vw_text = utf8,
     vw_filter = fs_filter_ok\<rparr>"

lemma fs_serves: "serves_robustly (fs_store fuel self) (fs_view self)"
  using fs.robust_ops_axioms read_only_eq [OF fs_exists_read_only]
  unfolding serves_robustly_def fs_view_def by auto

lemma s3_serves:
  assumes "s3_layer self good objs ups pos"
  shows "serves_robustly (s3_store fuel self)
    \<lparr>vw_inv = good, vw_blobs = objs, vw_ok = valid_key, vw_text = (\<lambda>_. True), vw_filter = hint_sound\<rparr>"
  using s3_layer.s3_robust [OF assms] s3_layer.s3_read_keeps(2) [OF assms]
  unfolding serves_robustly_def by (auto simp: prod_eq_iff)

end
