(* ===== verification/Maintenance_Facts.thy ===== *)
theory Maintenance_Facts
  imports Maintenance
begin

text \<open>
  Invariants of the background by rule induction over its runs: the queue is bounded and first in,
  first out; one task runs at a time; nothing begins once the layers are gone; how often each
  strategy enqueues; and a measure that falls with every step after the cancellation.
\<close>

section \<open>Events of a run\<close>

definition enqueues :: "event list \<Rightarrow> nat list" where
  "enqueues es = concat (map (\<lambda>e. case e of Enqueued i \<Rightarrow> [i] | _ \<Rightarrow> []) es)"

definition taken :: "event list \<Rightarrow> nat list" where
  "taken es = concat (map (\<lambda>e. case e of Began i \<Rightarrow> [i] | Skipped i \<Rightarrow> [i] | _ \<Rightarrow> []) es)"

text \<open>The task at work after the events so far, \<open>None\<close> once two have overlapped.\<close>

fun at_work :: "nat option option \<Rightarrow> event \<Rightarrow> nat option option" where
  "at_work (Some None) (Began i) = Some (Some i)"
| "at_work (Some (Some j)) (Began i) = None"
| "at_work (Some (Some j)) (Skipped i) = None"
| "at_work (Some cur) (Completed i) = (if cur = Some i then Some None else None)"
| "at_work (Some cur) (Panicked i) = (if cur = Some i then Some None else None)"
| "at_work cur _ = cur"

definition one_at_a_time :: "event list \<Rightarrow> bool" where
  "one_at_a_time es \<longleftrightarrow> foldl at_work (Some None) es \<noteq> None"

definition busy_with :: "background \<Rightarrow> nat option" where
  "busy_with s = (case bg_worker s of Busy i \<Rightarrow> Some i | _ \<Rightarrow> None)"

lemma enqueues_simps [simp]:
  "enqueues [] = []" "enqueues (es @ [e]) = enqueues es @ (case e of Enqueued i \<Rightarrow> [i] | _ \<Rightarrow> [])"
  by (simp_all add: enqueues_def)

lemma taken_simps [simp]:
  "taken [] = []"
  "taken (es @ [e]) = taken es @ (case e of Began i \<Rightarrow> [i] | Skipped i \<Rightarrow> [i] | _ \<Rightarrow> [])"
  by (simp_all add: taken_def)

section \<open>Runs\<close>

lemma run_trans:
  assumes "background_run s fs u" "background_run r es s"
  shows "background_run r (es @ fs) u"
  using assms(1)
proof (induction rule: background_run.induct)
  case start
  then show ?case using assms(2) by simp
next
  case (step fs t e u)
  then show ?case using background_run.step [of r "es @ fs" t e u] by simp
qed

lemma run_split:
  assumes "background_run r (es @ fs) u"
  shows "\<exists>s. background_run r es s \<and> background_run s fs u"
  using assms
proof (induction fs arbitrary: u rule: rev_induct)
  case Nil
  then show ?case using background_run.start by auto
next
  case (snoc e fs)
  have "background_run r ((es @ fs) @ [e]) u" using snoc.prems by simp
  then obtain t where t: "background_run r (es @ fs) t" "background_step t e u"
    by (cases rule: background_run.cases) auto
  then show ?case using snoc.IH [OF t(1)] background_run.step by blast
qed

section \<open>What a step touches\<close>

lemma trigger_Some:
  "trigger i s = Some (r, s') \<longleftrightarrow>
     (bg_worker s = Stopped \<and> r = Err (InvalidInput ''maintenance queue shut down'') \<and> s' = s) \<or>
     (bg_worker s \<noteq> Stopped \<and> length (bg_queue s) < QUEUE_SLOTS \<and> r = Ok () \<and>
        s' = s\<lparr>bg_queue := bg_queue s @ [i]\<rparr>)"
  by (auto simp: trigger_def)

lemma try_trigger_cases:
  "try_trigger i s = (r, s') \<Longrightarrow>
     (r \<noteq> Ok () \<and> s' = s) \<or>
     (bg_worker s \<noteq> Stopped \<and> length (bg_queue s) < QUEUE_SLOTS \<and> r = Ok () \<and>
        s' = s\<lparr>bg_queue := bg_queue s @ [i]\<rparr>)"
  by (auto simp: try_trigger_def split: if_splits)

lemmas context_try_trigger_cases = try_trigger_cases [folded context_try_trigger_def]

lemmas send_trigger = send [unfolded context_trigger_def]

lemmas try_send_trigger = try_send [unfolded context_try_trigger_def context_is_cancelled_def is_cancelled_def]

text \<open>The queue and the worker change only with the events that say so.\<close>

lemma step_queue:
  assumes "background_step s e s'"
  shows "(case e of
      Enqueued i \<Rightarrow> bg_worker s \<noteq> Stopped \<and> length (bg_queue s) < QUEUE_SLOTS \<and>
        bg_queue s' = bg_queue s @ [i] \<and> bg_worker s' = bg_worker s
    | Began i \<Rightarrow> bg_worker s = Receiving \<and> bg_queue s = i # bg_queue s' \<and> bg_worker s' = Busy i \<and>
        \<not> bg_released s
    | Skipped i \<Rightarrow> bg_worker s = Receiving \<and> bg_queue s = i # bg_queue s' \<and> bg_worker s' = Receiving
    | Completed i \<Rightarrow> bg_worker s = Busy i \<and> bg_queue s' = bg_queue s \<and> bg_worker s' = Receiving
    | Panicked i \<Rightarrow> bg_worker s = Busy i \<and> bg_queue s' = [] \<and> bg_worker s' = Stopped
    | WorkerEnded \<Rightarrow> bg_worker s = Receiving \<and> bg_queue s' = [] \<and> bg_worker s' = Stopped
    | _ \<Rightarrow> bg_queue s' = bg_queue s \<and> bg_worker s' = bg_worker s)"
  using assms
proof (cases rule: background_step.cases)
  case (send i l r t)
  then show ?thesis by (auto simp: trigger_Some)
next
  case (try_send i l v c r)
  then show ?thesis using try_trigger_cases [of i s r s'] by (cases "r = Ok ()") auto
next
  case work
  then show ?thesis by (auto simp: worker_moves_def split: worker.splits list.splits if_splits)
qed simp_all

lemma step_flags:
  assumes "background_step s e s'"
  shows "(bg_released s' \<longleftrightarrow> bg_released s \<or> e = Released) \<and>
    (bg_cancelled s' \<longleftrightarrow> bg_cancelled s \<or> e = Dropped \<or> e = SpawnFailed) \<and>
    (e = Released \<longrightarrow> bg_cancelled s)"
  using assms
proof (cases rule: background_step.cases)
  case (send i l r t)
  then show ?thesis by (auto simp: trigger_Some)
next
  case (try_send i l v c r)
  then show ?thesis using try_trigger_cases [of i s r s'] by (cases "r = Ok ()") auto
next
  case work
  then show ?thesis by (auto simp: worker_moves_def split: worker.splits list.splits if_splits)
qed auto

section \<open>The queue and the worker\<close>

lemma run_queue:
  assumes "background_run (background_start sts ws) es s"
  shows "length (bg_queue s) \<le> QUEUE_SLOTS \<and> (bg_worker s = Stopped \<longrightarrow> bg_queue s = []) \<and>
    (\<exists>gone. enqueues es = taken es @ bg_queue s @ gone \<and> (bg_worker s \<noteq> Stopped \<longrightarrow> gone = [])) \<and>
    foldl at_work (Some None) es = Some (busy_with s)"
  using assms
proof (induction rule: background_run.induct)
  case start
  then show ?case by (simp add: background_start_def busy_with_def)
next
  case (step es s e s')
  show ?case using step.IH step_queue [OF step.hyps(2)]
    by (cases e) (auto simp: busy_with_def split: worker.splits)
qed

lemma run_released:
  assumes "background_run s0 es s"
  shows "(Released \<in> set es \<longrightarrow> bg_released s) \<and>
    (\<forall>xs ys. es = xs @ Released # ys \<longrightarrow> (\<forall>i. Began i \<notin> set ys))"
  using assms
proof (induction rule: background_run.induct)
  case (step es s e s')
  have r: "Released \<in> set (es @ [e]) \<longrightarrow> bg_released s'" using step.IH step_flags [OF step.hyps(2)] by auto
  have "Began i \<notin> set ys" if d: "es @ [e] = xs @ Released # ys" for xs ys i
  proof (cases ys rule: rev_cases)
    case (snoc zs f)
    then have z: "es = xs @ Released # zs" "f = e" using d by simp_all
    then have "e \<noteq> Began i" using step.IH step_queue [OF step.hyps(2)] by auto
    then show ?thesis using z snoc step.IH by simp
  qed simp
  then show ?case using r by blast
qed simp

text \<open>A panic is the end of the worker, and so of all maintenance.\<close>

lemma run_panicked:
  assumes "background_run s0 es s"
  shows "((\<exists>j. Panicked j \<in> set es) \<longrightarrow> bg_worker s = Stopped) \<and>
    (\<forall>xs j ys. es = xs @ Panicked j # ys \<longrightarrow> (\<forall>i. Began i \<notin> set ys))"
  using assms
proof (induction rule: background_run.induct)
  case (step es s e s')
  note q = step_queue [OF step.hyps(2)]
  have stopped: "bg_worker s' = Stopped" if "\<exists>j. Panicked j \<in> set (es @ [e])"
    using that step.IH q by (cases e) auto
  have "Began i \<notin> set ys" if d: "es @ [e] = xs @ Panicked j # ys" for xs j ys i
  proof (cases ys rule: rev_cases)
    case (snoc zs f)
    then have z: "es = xs @ Panicked j # zs" "f = e" using d by simp_all
    then have "bg_worker s = Stopped" using step.IH by auto
    then have "e \<noteq> Began i" using q by auto
    then show ?thesis using z snoc step.IH by simp
  qed simp
  then show ?case using stopped by blast
qed simp

section \<open>How often a strategy enqueues\<close>

text \<open>
  What holds of the loop of a registration that has enqueued \<open>c\<close> tasks, where \<open>v0\<close> are the watch
  channels at the start and \<open>ws\<close> the ones now.
\<close>

definition loop_fact :: "(nat \<Rightarrow> watch) \<Rightarrow> (nat \<Rightarrow> watch) \<Rightarrow> nat \<Rightarrow> scheduling_loop \<Rightarrow> bool" where
  "loop_fact v0 ws c l \<longleftrightarrow>
     (case sl_strategy l of
        OnStart \<Rightarrow> c + of_bool (sl_pc l \<noteq> Finished) \<le> 1 \<and> sl_pc l \<noteq> Woken
      | Periodic d \<Rightarrow> d = 0 \<longrightarrow> c = 0 \<and> sl_pc l = Finished
      | Manual h \<Rightarrow> c + of_bool (sl_pc l = Sending) + wt_version (v0 h) \<le> sl_seen l \<and>
          sl_seen l \<le> wt_version (ws h) \<and> sl_pc l \<noteq> Woken
      | OtherStrategy _ _ \<Rightarrow> sl_pc l \<noteq> Woken)"

lemma loop_fact_moves:
  "l' \<in> set (moves s l) \<Longrightarrow> loop_fact v0 (bg_watch s) c l \<Longrightarrow> loop_fact v0 (bg_watch s) c l'"
  by (cases "sl_strategy l"; cases "sl_pc l") (auto simp: loop_fact_def moves_def split: if_splits)

lemma loop_fact_sent:
  "sl_pc l = Sending \<Longrightarrow> loop_fact v0 ws c l \<Longrightarrow>
   loop_fact v0 ws (c + of_bool (r = Ok ())) (l\<lparr>sl_pc := sent (sl_strategy l) r\<rparr>)"
  by (cases "sl_strategy l") (auto simp: loop_fact_def)

lemma loop_fact_mono:
  "(\<And>h. wt_version (ws h) \<le> wt_version (ws' h)) \<Longrightarrow> loop_fact v0 ws c l \<Longrightarrow> loop_fact v0 ws' c l"
  by (cases "sl_strategy l") (auto simp: loop_fact_def intro: order_trans)

lemma loop_fact_schedule:
  "schedule s st = Ok l \<Longrightarrow> (\<And>h. wt_version (v0 h) \<le> wt_version (bg_watch s h)) \<Longrightarrow>
   sl_strategy l = st \<and> loop_fact v0 (bg_watch s) 0 l"
  by (cases st) (auto simp: loop_fact_def is_zero_def split: if_splits option.splits)

lemma moves_strategy: "l' \<in> set (moves s l) \<Longrightarrow> sl_strategy l' = sl_strategy l"
  by (auto simp: moves_def split: strategy.splits)

text \<open>
  Which loops there are: those of the strategies scheduled so far, in order. The enqueued tasks are
  theirs, and every loop has its \<open>loop_fact\<close>.
\<close>

definition loops_ok :: "strategy list \<Rightarrow> (nat \<Rightarrow> watch) \<Rightarrow> event list \<Rightarrow> background \<Rightarrow> bool" where
  "loops_ok sts v0 es s \<longleftrightarrow>
     (\<exists>rest. sts = map sl_strategy (bg_loops s) @ rest \<and> (bg_pending s = rest \<or> bg_pending s = [])) \<and>
     (bg_cancelled s \<longrightarrow> bg_pending s = []) \<and>
     (\<forall>i \<in> set (enqueues es). i < length (bg_loops s)) \<and>
     (\<forall>i < length (bg_loops s). loop_fact v0 (bg_watch s) (count_list (enqueues es) i) (bg_loops s ! i)) \<and>
     (\<forall>h. wt_version (v0 h) \<le> wt_version (bg_watch s h) \<and>
       wt_version (bg_watch s h) \<le> wt_version (v0 h) + length (filter ((=) (Triggered h)) es))"

lemma loops_okI:
  assumes "\<exists>rest. sts = map sl_strategy (bg_loops s) @ rest \<and> (bg_pending s = rest \<or> bg_pending s = [])"
    and "bg_cancelled s \<Longrightarrow> bg_pending s = []"
    and "\<And>i. i \<in> set (enqueues es) \<Longrightarrow> i < length (bg_loops s)"
    and "\<And>i. i < length (bg_loops s) \<Longrightarrow>
      loop_fact v0 (bg_watch s) (count_list (enqueues es) i) (bg_loops s ! i)"
    and "\<And>h. wt_version (v0 h) \<le> wt_version (bg_watch s h) \<and>
       wt_version (bg_watch s h) \<le> wt_version (v0 h) + length (filter ((=) (Triggered h)) es)"
  shows "loops_ok sts v0 es s"
  using assms unfolding loops_ok_def by blast

text \<open>Steps that enqueue nothing and leave the loops and the channels alone.\<close>

lemma loops_ok_frame:
  assumes "loops_ok sts v0 es s" "bg_loops s' = bg_loops s" "bg_watch s' = bg_watch s"
    and "bg_pending s' = bg_pending s \<or> bg_pending s' = []" "bg_cancelled s' \<Longrightarrow> bg_pending s' = []"
    and "enqueues (es @ [e]) = enqueues es"
  shows "loops_ok sts v0 (es @ [e]) s'"
  using assms unfolding loops_ok_def by (auto simp: add.commute intro: le_SucI)

lemma loops_ok_sent:
  assumes "loops_ok sts v0 es s" "i < length (bg_loops s)" "bg_loops s ! i = l" "sl_strategy l' = sl_strategy l"
    and "loop_fact v0 (bg_watch s) (count_list (enqueues (es @ [e])) i) l'"
    and "enqueues (es @ [e]) = enqueues es \<or> e = Enqueued i"
    and "bg_loops s' = (bg_loops s)[i := l']" "bg_watch s' = bg_watch s" "bg_pending s' = bg_pending s"
    and "bg_cancelled s' = bg_cancelled s" "\<And>h. e \<noteq> Triggered h"
  shows "loops_ok sts v0 (es @ [e]) s'"
proof (rule loops_okI)
  have m: "map sl_strategy (bg_loops s') = map sl_strategy (bg_loops s)"
    using assms(2-4,7) by (simp add: map_update list_update_same_conv)
  show "\<exists>rest. sts = map sl_strategy (bg_loops s') @ rest \<and> (bg_pending s' = rest \<or> bg_pending s' = [])"
    using assms(1,9) unfolding m loops_ok_def by simp
  show "bg_pending s' = []" if "bg_cancelled s'" using assms(1,9,10) that by (simp add: loops_ok_def)
  show "j < length (bg_loops s')" if "j \<in> set (enqueues (es @ [e]))" for j
    using assms(1,2,6,7) that by (auto simp: loops_ok_def)
  show "loop_fact v0 (bg_watch s') (count_list (enqueues (es @ [e])) j) (bg_loops s' ! j)"
    if "j < length (bg_loops s')" for j
  proof (cases "j = i")
    case True
    then show ?thesis using assms(2,5,7,8) by simp
  next
    case False
    then have "count_list (enqueues (es @ [e])) j = count_list (enqueues es) j" using assms(6) by auto
    then show ?thesis using assms(1,7,8) False that by (simp add: loops_ok_def)
  qed
  show "wt_version (v0 h) \<le> wt_version (bg_watch s' h) \<and>
      wt_version (bg_watch s' h) \<le> wt_version (v0 h) + length (filter ((=) (Triggered h)) (es @ [e]))" for h
    using assms(1,8,11) by (auto simp: loops_ok_def)
qed

lemma run_loops:
  assumes "background_run (background_start sts v0) es s"
  shows "loops_ok sts v0 es s"
  using assms
proof (induction rule: background_run.induct)
  case start
  then show ?case by (simp add: loops_ok_def background_start_def)
next
  case (step es s e s')
  note ok = step.IH [unfolded loops_ok_def]
  note f = loops_ok_frame [OF step.IH]
  from step.hyps(2) show ?case
  proof (cases rule: background_step.cases)
    case (spawn st rest l)
    have l: "sl_strategy l = st" "loop_fact v0 (bg_watch s) 0 l"
      using loop_fact_schedule [OF spawn(4)] ok by blast+
    have z: "count_list (enqueues es) (length (bg_loops s)) = 0"
      using ok by (auto simp: count_list_0_iff)
    show ?thesis
      using ok spawn l z by (intro loops_okI) (auto simp: nth_append less_Suc_eq)
  next
    case (manual h)
    have w: "wt_version (bg_watch s k) \<le> wt_version (bg_watch s' k)" for k
      using manual by (simp add: manual_trigger_def Let_def)
    show ?thesis
    proof (rule loops_okI)
      show "loop_fact v0 (bg_watch s') (count_list (enqueues (es @ [e])) i) (bg_loops s' ! i)"
        if "i < length (bg_loops s')" for i
      proof (rule loop_fact_mono [OF w])
        show "loop_fact v0 (bg_watch s) (count_list (enqueues (es @ [e])) i) (bg_loops s' ! i)"
          using ok manual that by simp
      qed
      show "wt_version (v0 k) \<le> wt_version (bg_watch s' k) \<and>
          wt_version (bg_watch s' k) \<le> wt_version (v0 k) + length (filter ((=) (Triggered k)) (es @ [e]))" for k
        using ok manual by (auto simp: manual_trigger_def Let_def intro: order_trans)
    qed (use ok manual in auto)
  next
    case (handle_drop h)
    have w: "wt_version (bg_watch s' k) = wt_version (bg_watch s k)" for k using handle_drop by simp
    show ?thesis
      by (rule loops_okI) (use ok handle_drop w loop_fact_mono [of "bg_watch s" "bg_watch s'"] in auto)
  next
    case (poll i l)
    show ?thesis
      using poll ok loop_fact_moves [OF poll(4)]
      by (intro loops_ok_sent [OF step.IH poll(3) refl moves_strategy [OF poll(4)]]) auto
  next
    case (send i l r t)
    have q: "enqueues (es @ [e]) = enqueues es @ (if r = Ok () then [i] else [])" using send(1) by simp
    have c: "count_list (enqueues (es @ [e])) i = count_list (enqueues es) i + of_bool (r = Ok ())"
      unfolding q by simp
    have t: "bg_loops t = bg_loops s" "bg_watch t = bg_watch s" "bg_pending t = bg_pending s"
        "bg_cancelled t = bg_cancelled s"
      using send(6) by (auto simp: trigger_Some)
    have "loop_fact v0 (bg_watch s) (count_list (enqueues es) i) l" using ok send(3,4) by auto
    from loop_fact_sent [OF send(5) this, of r] show ?thesis
      using send q t unfolding c [symmetric]
      by (intro loops_ok_sent [OF step.IH send(3,4)]) auto
  next
    case (try_send i l v c r)
    have q: "enqueues (es @ [e]) = enqueues es @ (if r = Ok () then [i] else [])" using try_send(1) by simp
    have t: "bg_loops s' = bg_loops s" "bg_watch s' = bg_watch s" "bg_pending s' = bg_pending s"
        "bg_cancelled s' = bg_cancelled s"
      using context_try_trigger_cases [OF try_send(7)] by auto
    have "loop_fact v0 (bg_watch s) n l" for n using try_send(4,5) by (simp add: loop_fact_def)
    then show ?thesis
      using try_send q t by (intro loops_ok_sent [OF step.IH try_send(2,3) refl]) auto
  next
    case work
    have "bg_loops s' = bg_loops s \<and> bg_watch s' = bg_watch s \<and> bg_pending s' = bg_pending s \<and>
        bg_cancelled s' = bg_cancelled s \<and> enqueues (es @ [e]) = enqueues es"
      using work by (auto simp: worker_moves_def split: worker.splits list.splits if_splits)
    then show ?thesis using ok by (intro f) simp_all
  qed (use ok in \<open>intro f; simp\<close>)+
qed

text \<open>A registration that is not scheduled yet has enqueued nothing.\<close>

lemma run_enqueued:
  assumes "loops_ok sts v0 es s" "i < length sts"
  shows "count_list (enqueues es) i = 0 \<or>
    (\<exists>l. sl_strategy l = sts ! i \<and> loop_fact v0 (bg_watch s) (count_list (enqueues es) i) l)"
proof (cases "i < length (bg_loops s)")
  case True
  then have "sl_strategy (bg_loops s ! i) = sts ! i" using assms(1) by (auto simp: loops_ok_def nth_append)
  then show ?thesis using assms(1) True by (auto simp: loops_ok_def)
next
  case False
  then have "i \<notin> set (enqueues es)" using assms(1) by (auto simp: loops_ok_def)
  then show ?thesis by (simp add: count_list_0_iff)
qed

section \<open>Manual triggers\<close>

text \<open>
  Where a request to the loop \<open>i\<close> stands: enqueued since, about to be sent, still to be noticed by the
  loop, or given up because of the shutdown.
\<close>

definition request_kept :: "nat \<Rightarrow> nat \<Rightarrow> event list \<Rightarrow> background \<Rightarrow> bool" where
  "request_kept h i es s \<longleftrightarrow>
     Enqueued i \<in> set es \<or> bg_cancelled s \<or> bg_worker s = Stopped \<or>
     sl_pc (bg_loops s ! i) = Sending \<or>
     (sl_pc (bg_loops s ! i) = AtSelect \<and> sl_seen (bg_loops s ! i) < wt_version (bg_watch s h))"

lemma manual_moves_kept:
  assumes "l' \<in> set (moves s l)" "sl_strategy l = Manual h" "\<not> bg_cancelled s"
    and "sl_pc l = Sending \<or> sl_pc l = AtSelect \<and> sl_seen l < wt_version (bg_watch s h)"
  shows "sl_pc l' = Sending"
  using assms by (cases "sl_pc l") (auto simp: moves_def split: if_splits)

lemma step_length_loops: "background_step s e s' \<Longrightarrow> length (bg_loops s) \<le> length (bg_loops s')"
  by (cases rule: background_step.cases)
    (auto simp: trigger_Some worker_moves_def dest: try_trigger_cases
      split: worker.splits list.splits if_splits)

lemma request_kept_step:
  assumes "background_step s e s'" "i < length (bg_loops s)" "sl_strategy (bg_loops s ! i) = Manual h"
    and "request_kept h i es s"
  shows "request_kept h i (es @ [e]) s' \<and> sl_strategy (bg_loops s' ! i) = Manual h"
proof (cases "Enqueued i \<in> set es \<or> bg_cancelled s \<or> bg_worker s = Stopped")
  case True
  have "sl_strategy (bg_loops s' ! i) = Manual h"
    using assms(1)
  proof (cases rule: background_step.cases)
    case (poll j l)
    then show ?thesis using assms(2,3) moves_strategy [of l s "bg_loops s ! j"] by (cases "j = i") auto
  next
    case (send j l r t)
    then show ?thesis using assms(2,3) by (cases "j = i") (auto simp: trigger_Some)
  next
    case (try_send j l v c r)
    then show ?thesis using assms(3) context_try_trigger_cases [OF try_send(7)] by auto
  next
    case work
    then show ?thesis using assms(3) by (auto simp: worker_moves_def split: worker.splits list.splits if_splits)
  qed (use assms(2,3) in \<open>auto simp: nth_append\<close>)
  moreover have "Enqueued i \<in> set (es @ [e]) \<or> bg_cancelled s' \<or> bg_worker s' = Stopped"
    using True step_flags [OF assms(1)] step_queue [OF assms(1)] by (cases e) auto
  ultimately show ?thesis unfolding request_kept_def by blast
next
  case False
  let ?l = "bg_loops s ! i"
  have k: "sl_pc ?l = Sending \<or> sl_pc ?l = AtSelect \<and> sl_seen ?l < wt_version (bg_watch s h)"
    using False assms(4) unfolding request_kept_def by blast
  from assms(1) show ?thesis
  proof (cases rule: background_step.cases)
    case (poll j l)
    then show ?thesis
      using assms(2,3) k False manual_moves_kept [of l s ?l h] moves_strategy [of l s ?l]
      by (cases "j = i") (auto simp: request_kept_def)
  next
    case (send j l r t)
    then show ?thesis using assms(2,3) k False by (cases "j = i") (auto simp: trigger_Some request_kept_def)
  next
    case (try_send j l v c r)
    then show ?thesis
      using assms(3) k context_try_trigger_cases [OF try_send(7)] by (auto simp: request_kept_def)
  next
    case work
    then show ?thesis
      using assms(3) k by (auto simp: worker_moves_def request_kept_def split: worker.splits list.splits if_splits)
  next
    case (manual g)
    then show ?thesis
      using assms(2,3) k by (auto simp: request_kept_def manual_trigger_def Let_def intro: less_SucI)
  qed (use assms(2,3) k in \<open>auto simp: request_kept_def nth_append\<close>)
qed

lemma request_kept_run:
  assumes "background_run s0 es s" "i < length (bg_loops s0)" "sl_strategy (bg_loops s0 ! i) = Manual h"
    and "request_kept h i [] s0"
  shows "request_kept h i es s \<and> i < length (bg_loops s) \<and> sl_strategy (bg_loops s ! i) = Manual h"
  using assms(1)
proof (induction rule: background_run.induct)
  case start
  then show ?case using assms(2-4) by simp
next
  case (step es s e s')
  then show ?case
    using request_kept_step [OF step.hyps(2)] step_length_loops [OF step.hyps(2)] by auto
qed

lemma trigger_requests:
  assumes "background_step s (Triggered h) s'" "loops_ok sts v0 es s" "i < length (bg_loops s)"
    and "sl_strategy (bg_loops s ! i) = Manual h" "sl_pc (bg_loops s ! i) \<noteq> Finished"
  shows "request_kept h i [] s' \<and> i < length (bg_loops s') \<and> sl_strategy (bg_loops s' ! i) = Manual h"
proof -
  let ?l = "bg_loops s ! i"
  have f: "sl_seen ?l \<le> wt_version (bg_watch s h)" "sl_pc ?l \<noteq> Woken"
    using assms(2-4) by (auto simp: loops_ok_def loop_fact_def dest!: spec [of _ i])
  have r: "has_receiver s h" using assms(3-5) nth_mem [OF assms(3)] unfolding has_receiver_def list_ex_iff by blast
  have p: "sl_pc ?l = Sending \<or> sl_pc ?l = AtSelect" using f(2) assms(5) by (cases "sl_pc ?l") auto
  have s': "s' = s\<lparr>bg_watch := (bg_watch s)(h := manual_trigger True (bg_watch s h))\<rparr>"
    using assms(1) r by (cases rule: background_step.cases) (auto simp: worker_moves_def
      split: worker.splits list.splits if_splits)
  show ?thesis using assms(3,4) f(1) p unfolding s' by (auto simp: request_kept_def manual_trigger_def Let_def)
qed

text \<open>A request that is still open can be moved on, by its loop or by the worker that makes room.\<close>

definition moves_request :: "nat \<Rightarrow> event \<Rightarrow> bool" where
  "moves_request i e \<longleftrightarrow>
     (case e of Enqueued j \<Rightarrow> j = i | Polled j \<Rightarrow> j = i | Began _ \<Rightarrow> True | Skipped _ \<Rightarrow> True
      | Completed _ \<Rightarrow> True | _ \<Rightarrow> False)"

lemma request_progress:
  assumes "i < length (bg_loops s)" "sl_strategy (bg_loops s ! i) = Manual h" "bg_worker s \<noteq> Stopped"
    and "sl_pc (bg_loops s ! i) = Sending \<or>
      sl_pc (bg_loops s ! i) = AtSelect \<and> sl_seen (bg_loops s ! i) < wt_version (bg_watch s h)"
  shows "\<exists>e t. background_step s e t \<and> moves_request i e"
proof (cases "sl_pc (bg_loops s ! i) = Sending")
  case True
  show ?thesis
  proof (cases "length (bg_queue s) < QUEUE_SLOTS")
    case room: True
    have "trigger i s = Some (Ok (), s\<lparr>bg_queue := bg_queue s @ [i]\<rparr>)" using room assms(3) by (simp add: trigger_def)
    from send_trigger [OF assms(1) refl True this] show ?thesis by (auto simp: moves_request_def)
  next
    case False
    then obtain j q where q: "bg_queue s = j # q" by (cases "bg_queue s") (auto simp: QUEUE_SLOTS_def)
    have "\<exists>e t. (e, t) \<in> set (worker_moves s) \<and> moves_request i e"
      using assms(3) q by (cases "bg_worker s") (auto simp: worker_moves_def moves_request_def)
    then show ?thesis using work by blast
  qed
next
  case False
  let ?l = "(bg_loops s ! i)\<lparr>sl_pc := Sending, sl_seen := wt_version (bg_watch s h)\<rparr>"
  have "?l \<in> set (moves s (bg_loops s ! i))" using assms(2,4) False by (auto simp: moves_def)
  from poll [OF assms(1) this] show ?thesis by (auto simp: moves_request_def)
qed

section \<open>Shutdown\<close>

text \<open>
  How many more steps a loop, the queue and the worker can make after the cancellation. A value that a
  \<open>Manual\<close> loop has not noticed can send it round once more.
\<close>

definition loop_weight :: "(nat \<Rightarrow> watch) \<Rightarrow> scheduling_loop \<Rightarrow> nat" where
  "loop_weight ws l =
     (case sl_strategy l of
        Manual h \<Rightarrow> if sl_pc l \<noteq> Finished \<and> sl_seen l \<noteq> wt_version (ws h) then 4 else 0
      | _ \<Rightarrow> 0) +
     (case sl_pc l of Finished \<Rightarrow> 0 | Woken \<Rightarrow> 1 | AtSelect \<Rightarrow> 2 | Sending \<Rightarrow> 5)"

definition shutdown_measure :: "background \<Rightarrow> nat" where
  "shutdown_measure s =
     sum_list (map (loop_weight (bg_watch s)) (bg_loops s)) + 2 * length (bg_queue s) +
     (case bg_worker s of Stopped \<Rightarrow> 0 | Receiving \<Rightarrow> 1 | Busy _ \<Rightarrow> 2) +
     (if bg_released s then 0 else 1)"

lemma loop_weight_le: "loop_weight ws l \<le> 9"
  by (simp add: loop_weight_def split: strategy.splits pc.splits)

lemma sum_list_update_nat:
  fixes f :: "'a \<Rightarrow> nat"
  shows "i < length ls \<Longrightarrow> sum_list (map f (ls[i := l])) + f (ls ! i) = sum_list (map f ls) + f l"
  by (induction ls arbitrary: i) (auto split: nat.splits)

lemma sum_list_le_bound:
  fixes f :: "'a \<Rightarrow> nat"
  shows "(\<And>x. f x \<le> g x + c) \<Longrightarrow> sum_list (map f xs) \<le> sum_list (map g xs) + c * length xs"
  by (induction xs) (auto simp: add_mono algebra_simps intro: order_trans [OF add_mono])

lemma loop_weight_moves:
  "bg_cancelled s \<Longrightarrow> l' \<in> set (moves s l) \<Longrightarrow> loop_weight (bg_watch s) l' < loop_weight (bg_watch s) l"
  by (cases "sl_strategy l"; cases "sl_pc l") (auto simp: moves_def loop_weight_def split: if_splits)

lemma loop_weight_sent:
  "sl_pc l = Sending \<Longrightarrow>
   loop_weight ws (l\<lparr>sl_pc := sent (sl_strategy l) r\<rparr>) + 3 \<le> loop_weight ws l"
  by (cases "sl_strategy l") (auto simp: loop_weight_def)

definition from_outside :: "event \<Rightarrow> bool" where
  "from_outside e \<longleftrightarrow> (case e of Triggered _ \<Rightarrow> True | HandleDropped _ \<Rightarrow> True | _ \<Rightarrow> False)"

lemma shutdown_step:
  assumes "background_step s e s'" "bg_cancelled s" "bg_pending s = []"
  shows "bg_cancelled s' \<and> bg_pending s' = [] \<and> length (bg_loops s') = length (bg_loops s) \<and>
    (if \<not> from_outside e then shutdown_measure s' < shutdown_measure s
     else shutdown_measure s' \<le> shutdown_measure s +
       (case e of Triggered _ \<Rightarrow> 4 * length (bg_loops s) | _ \<Rightarrow> 0))"
  using assms(1)
proof (cases rule: background_step.cases)
  case (manual h)
  have "loop_weight (bg_watch s') l \<le> loop_weight (bg_watch s) l + 4" for l
    by (simp add: loop_weight_def split: strategy.splits pc.splits)
  from sum_list_le_bound [OF this, where xs = "bg_loops s"] show ?thesis
    using manual assms(2,3) by (simp add: shutdown_measure_def from_outside_def)
next
  case (handle_drop h)
  have "loop_weight (bg_watch s') = loop_weight (bg_watch s)"
    by (rule ext) (simp add: handle_drop(2) loop_weight_def split: strategy.splits)
  then show ?thesis using handle_drop assms(2,3) by (simp add: shutdown_measure_def from_outside_def)
next
  case (poll i l)
  show ?thesis
    using poll assms(2,3) loop_weight_moves [OF assms(2) poll(4)]
      sum_list_update_nat [OF poll(3), of "loop_weight (bg_watch s)" l]
    by (simp add: shutdown_measure_def from_outside_def)
next
  case (send i l r t)
  let ?ls = "(bg_loops s)[i := l\<lparr>sl_pc := sent (sl_strategy l) r\<rparr>]"
  have w: "sum_list (map (loop_weight (bg_watch s)) ?ls) + 3 \<le> sum_list (map (loop_weight (bg_watch s)) (bg_loops s))"
    using loop_weight_sent [OF send(5), of "bg_watch s" r]
      sum_list_update_nat [OF send(3), of "loop_weight (bg_watch s)" "l\<lparr>sl_pc := sent (sl_strategy l) r\<rparr>"]
    unfolding send(4) by linarith
  from send(6) [unfolded context_trigger_def trigger_Some] show ?thesis
  proof (elim disjE conjE)
    assume "r = Err (InvalidInput ''maintenance queue shut down'')" "t = s"
    then show ?thesis using w send(1,2) assms(2,3) by (simp add: shutdown_measure_def from_outside_def)
  next
    assume "r = Ok ()" "t = s\<lparr>bg_queue := bg_queue s @ [i]\<rparr>"
    then show ?thesis using w send(1,2) assms(2,3) by (simp add: shutdown_measure_def from_outside_def)
  qed
next
  case work
  then show ?thesis
    using assms(2,3)
    by (cases "bg_worker s"; cases "bg_queue s")
      (auto simp: shutdown_measure_def worker_moves_def from_outside_def split: if_splits)
qed (use assms(2,3) in \<open>auto simp: shutdown_measure_def from_outside_def\<close>)

lemma shutdown_run:
  assumes "background_run s0 es s" "bg_cancelled s0" "bg_pending s0 = []"
  shows "bg_cancelled s \<and> bg_pending s = [] \<and> length (bg_loops s) = length (bg_loops s0) \<and>
    length (filter (\<lambda>e. \<not> from_outside e) es) + shutdown_measure s \<le>
      shutdown_measure s0 + 4 * length (bg_loops s0) * length (filter from_outside es)"
  using assms(1)
proof (induction rule: background_run.induct)
  case start
  then show ?case using assms(2,3) by simp
next
  case (step es s e s')
  then show ?case
    using shutdown_step [OF step.hyps(2)] by (cases e) (auto simp: from_outside_def algebra_simps)
qed

lemma shutdown_bound:
  assumes "length (bg_queue s) \<le> QUEUE_SLOTS"
  shows "shutdown_measure s \<le> 9 * length (bg_loops s) + 35"
proof -
  have "sum_list (map (loop_weight (bg_watch s)) (bg_loops s)) \<le>
      sum_list (map (\<lambda>_. 0) (bg_loops s)) + 9 * length (bg_loops s)"
    by (rule sum_list_le_bound) (simp add: loop_weight_le)
  then show ?thesis
    using assms by (auto simp: shutdown_measure_def QUEUE_SLOTS_def split: worker.splits)
qed

text \<open>No deadlock: once cancelled, something can move until everything has ended.\<close>

definition all_ended :: "background \<Rightarrow> bool" where
  "all_ended s \<longleftrightarrow> bg_worker s = Stopped \<and> bg_released s \<and> list_all (\<lambda>l. sl_pc l = Finished) (bg_loops s)"

lemma shutdown_progress:
  assumes "bg_cancelled s" "loops_ok sts v0 es s" "\<not> all_ended s"
  shows "\<exists>e s'. background_step s e s' \<and> \<not> from_outside e"
proof -
  consider "\<not> bg_released s" | "bg_worker s = Receiving" | i where "bg_worker s = Busy i"
    | l where "l \<in> set (bg_loops s)" "sl_pc l \<noteq> Finished" "bg_worker s = Stopped"
    using assms(3) by (cases "bg_worker s") (auto simp: all_ended_def list_all_iff)
  then show ?thesis
  proof cases
    case 1
    then show ?thesis using release [OF assms(1)] by (auto simp: from_outside_def)
  next
    case 2
    then have "(WorkerEnded, s\<lparr>bg_worker := Stopped, bg_queue := []\<rparr>) \<in> set (worker_moves s)"
      using assms(1) by (simp add: worker_moves_def)
    from work [OF this] show ?thesis by (auto simp: from_outside_def)
  next
    case 3
    then have "(Completed i, s\<lparr>bg_worker := Receiving\<rparr>) \<in> set (worker_moves s)"
      by (simp add: worker_moves_def)
    from work [OF this] show ?thesis by (auto simp: from_outside_def)
  next
    case (4 l)
    then obtain i where i: "i < length (bg_loops s)" "bg_loops s ! i = l" by (auto simp: in_set_conv_nth)
    show ?thesis
    proof (cases "sl_pc l = Sending")
      case True
      have "trigger i s = Some (Err (InvalidInput ''maintenance queue shut down''), s)"
        using 4 by (simp add: trigger_def)
      from send_trigger [OF i True this] show ?thesis by (auto simp: from_outside_def)
    next
      case False
      have "loop_fact v0 (bg_watch s) (count_list (enqueues es) i) l" using assms(2) i by (auto simp: loops_ok_def)
      then have "moves s l \<noteq> []"
        using False 4(2) assms(1)
        by (cases "sl_strategy l"; cases "sl_pc l") (auto simp: loop_fact_def moves_def)
      then obtain l' where "l' \<in> set (moves s (bg_loops s ! i))" using i by (cases "moves s l") auto
      from poll [OF i(1) this] show ?thesis by (auto simp: from_outside_def)
    qed
  qed
qed

section \<open>Steps by evaluation\<close>

text \<open>The states after an event, as a list; \<open>replay\<close> runs a list of events with a choice for each.\<close>

definition send_states :: "bool \<Rightarrow> nat \<Rightarrow> background \<Rightarrow> background list" where
  "send_states fine i s =
     (if i < length (bg_loops s) then
        (let l = bg_loops s ! i in
         (if sl_pc l = Sending then
            (case trigger i s of
               Some (r, t) \<Rightarrow>
                 if (r = Ok ()) = fine
                 then [t\<lparr>bg_loops := (bg_loops t)[i := l\<lparr>sl_pc := sent (sl_strategy l) r\<rparr>]\<rparr>] else []
             | None \<Rightarrow> [])
          else []) @
         (case sl_strategy l of
            OtherStrategy _ _ \<Rightarrow>
              (case try_trigger i s of (r, t) \<Rightarrow>
                 if sl_pc l = AtSelect \<and> \<not> bg_cancelled s \<and> (r = Ok ()) = fine then [t] else [])
          | _ \<Rightarrow> []))
      else [])"

definition next_states :: "event \<Rightarrow> background \<Rightarrow> background list" where
  "next_states e s =
     (case e of
        Spawned \<Rightarrow>
          (case bg_pending s of
             st # rest \<Rightarrow>
               (case schedule s st of
                  Ok l \<Rightarrow> [s\<lparr>bg_pending := rest, bg_loops := bg_loops s @ [l]\<rparr>] | _ \<Rightarrow> [])
           | [] \<Rightarrow> [])
      | SpawnFailed \<Rightarrow>
          (case bg_pending s of
             st # rest \<Rightarrow>
               (case schedule s st of Err e \<Rightarrow> [guard_drop (s\<lparr>bg_pending := []\<rparr>)] | _ \<Rightarrow> [])
           | [] \<Rightarrow> [])
      | Dropped \<Rightarrow>
          if bg_pending s = [] \<and> \<not> bg_cancelled s then [guard_drop s] else []
      | Released \<Rightarrow>
          if bg_cancelled s \<and> \<not> bg_released s then [s\<lparr>bg_released := True\<rparr>] else []
      | Triggered h \<Rightarrow>
          if wt_closed (bg_watch s h) then []
          else [s\<lparr>bg_watch := (bg_watch s)(h := manual_trigger (has_receiver s h) (bg_watch s h))\<rparr>]
      | HandleDropped h \<Rightarrow>
          if Manual h \<in> set (bg_pending s) \<or> wt_closed (bg_watch s h) then []
          else [s\<lparr>bg_watch := (bg_watch s)(h := (bg_watch s h)\<lparr>wt_closed := True\<rparr>)\<rparr>]
      | Polled i \<Rightarrow>
          (if i < length (bg_loops s)
           then map (\<lambda>l. s\<lparr>bg_loops := (bg_loops s)[i := l]\<rparr>) (moves s (bg_loops s ! i)) else []) @
          send_states False i s
      | Enqueued i \<Rightarrow> send_states True i s
      | _ \<Rightarrow> map snd (filter (\<lambda>(f, _). f = e) (worker_moves s)))"

lemma send_states_cases:
  assumes "t \<in> set (send_states fine i s)" "i < length (bg_loops s)" "bg_loops s ! i = l"
  shows "(\<exists>r u. sl_pc l = Sending \<and> trigger i s = Some (r, u) \<and> (r = Ok ()) = fine \<and>
        t = u\<lparr>bg_loops := (bg_loops u)[i := l\<lparr>sl_pc := sent (sl_strategy l) r\<rparr>]\<rparr>) \<or>
     (\<exists>r v c. sl_pc l = AtSelect \<and> sl_strategy l = OtherStrategy v c \<and> \<not> bg_cancelled s \<and>
        try_trigger i s = (r, t) \<and> (r = Ok ()) = fine)"
proof (cases "sl_pc l = Sending")
  case True
  have "\<exists>r u. trigger i s = Some (r, u) \<and> (r = Ok ()) = fine \<and>
      t = u\<lparr>bg_loops := (bg_loops u)[i := l\<lparr>sl_pc := sent (sl_strategy l) r\<rparr>]\<rparr>"
  proof (cases "trigger i s")
    case None
    then show ?thesis using assms True by (auto simp: send_states_def Let_def split: strategy.splits if_splits)
  next
    case (Some p)
    then show ?thesis
      using assms True by (cases p) (auto simp: send_states_def Let_def split: strategy.splits if_splits)
  qed
  then show ?thesis using True by blast
next
  case False
  obtain r u where q: "try_trigger i s = (r, u)" by (metis surj_pair)
  show ?thesis
  proof (cases "sl_strategy l")
    case (OtherStrategy v c)
    then show ?thesis using assms False q by (auto simp: send_states_def Let_def split: if_splits)
  qed (use assms False in \<open>auto simp: send_states_def Let_def split: if_splits\<close>)
qed

lemma send_states_step:
  assumes "t \<in> set (send_states fine i s)"
  shows "background_step s (if fine then Enqueued i else Polled i) t"
proof -
  let ?l = "bg_loops s ! i"
  have i: "i < length (bg_loops s)" using assms by (auto simp: send_states_def split: if_splits)
  from send_states_cases [OF assms i refl] show ?thesis
  proof (elim disjE exE conjE)
    fix r u
    assume a: "sl_pc ?l = Sending" "trigger i s = Some (r, u)" "(r = Ok ()) = fine"
      "t = u\<lparr>bg_loops := (bg_loops u)[i := ?l\<lparr>sl_pc := sent (sl_strategy ?l) r\<rparr>]\<rparr>"
    from send_trigger [OF i refl a(1,2)] show ?thesis unfolding a(3) a(4) .
  next
    fix r v c
    assume a: "sl_pc ?l = AtSelect" "sl_strategy ?l = OtherStrategy v c" "\<not> bg_cancelled s"
      "try_trigger i s = (r, t)" "(r = Ok ()) = fine"
    from try_send_trigger [OF i refl a(1-4)] show ?thesis unfolding a(5) .
  qed
qed

lemma next_states_step: "t \<in> set (next_states e s) \<Longrightarrow> background_step s e t"
  using send_states_step [of t True _ s] send_states_step [of t False _ s]
  by (cases e)
    (auto simp: next_states_def intro: background_step.intros spawn [OF sym sym] spawn_fails [OF sym sym]
      split: list.splits result.splits if_splits simp del: guard_drop_def)

fun replay :: "(event \<times> nat) list \<Rightarrow> background \<Rightarrow> background option" where
  "replay [] s = Some s"
| "replay ((e, n) # es) s =
     (let ts = next_states e s in if n < length ts then replay es (ts ! n) else None)"

lemma replay_run: "replay es s = Some t \<Longrightarrow> background_run s (map fst es) t"
proof (induction es s rule: replay.induct)
  case (1 s)
  then show ?case by (simp add: background_run.start)
next
  case (2 e n es s)
  let ?u = "next_states e s ! n"
  have n: "n < length (next_states e s)" "replay es ?u = Some t"
    using 2(2) by (auto simp: Let_def split: if_splits)
  have "background_step s e ?u" by (rule next_states_step) (simp add: n)
  then have "background_run s [e] ?u" using background_run.step [OF background_run.start] by fastforce
  from run_trans [OF 2(1) [OF refl n] this] show ?case by simp
qed

end
