(* ===== verification/Built_Store.thy ===== *)
theory Built_Store
  imports Builder_Facts Maintenance_Facts
begin

text \<open>
  A built store and its background together: what the maintenance tasks that a build hands out do to
  the blobs that the user sees through all the layers, and the runs in which the tasks and the user's
  calls interleave.
\<close>

section \<open>Backends that maintenance can walk\<close>

text \<open>
  \<open>visits all\<close>: the store's \<open>visit\<close> follows the loop rule, for \<open>all\<close> visitors or only for those that
  remove no key they have not been handed (S3, which reads a page ahead). \<open>overwrites\<close>: a blob that is
  stored can be written again.
\<close>

definition visits :: "bool \<Rightarrow> ('w, 'v) blob_store \<Rightarrow> 'w view \<Rightarrow> bool" where
  "visits all st c \<longleftrightarrow>
     steady_contract st (vw_inv c) (vw_blobs c) (vw_ok c) (vw_text c) (vw_filter c) \<and>
     (all \<longrightarrow> blob_contract st (vw_inv c) (vw_blobs c) (vw_ok c) (vw_text c) (vw_filter c))"

definition overwrites :: "('w, 'v) blob_store \<Rightarrow> 'w view \<Rightarrow> bool" where
  "overwrites st c \<longleftrightarrow>
     (\<forall>w k (rd :: reader) n. vw_inv c w \<longrightarrow> vw_ok c k \<longrightarrow> vw_blobs c w k \<noteq> None \<longrightarrow> rd_end rd = Eof \<longrightarrow>
        (\<exists>res w'. bs_put st [blob_input_with_size k rd n] w = (Ok res, w'))) \<and>
     (\<forall>w k. vw_inv c w \<longrightarrow> vw_blobs c w k \<noteq> None \<longrightarrow> vw_text c k)"

context prefix_visit_layer
begin

lemma prefix_visits_all:
  "blob_contract (prefix_store st p) inv (prefix_blobs p blobs) (prefix_ok p ok) (\<lambda>k. text_ok (p @ k))
     (prefix_filter_ok p filter_ok)"
  by (rule pre.blob_contract_axioms)

end

context prefix_steady_layer
begin

lemma prefix_visits_steadily:
  "steady_contract (prefix_store st p) inv (prefix_blobs p blobs) (prefix_ok p ok) (\<lambda>k. text_ok (p @ k))
     (prefix_filter_ok p filter_ok)"
  by (rule pre.steady_contract_axioms)

end

context encryption_visit_layer
begin

lemma encryption_visits:
  "blob_contract (enc_store this_enc) good plain (enc_ok suf) (\<lambda>k. text_ok k \<and> text_ok (k @ suf)) (\<lambda>_. True)"
  by (rule es.blob_contract_axioms)

end

lemma prefix_visits:
  assumes "visits all st c"
  shows "visits all (prefix_store st p) (layer_view opens (Prefix p :: ('w, 'u) layer_kind) c)"
proof -
  note s = conjunct1 [OF assms [unfolded visits_def]]
  note l = prefix_layer.intro [OF steady_contract.axioms(1) [OF s]]
  have "blob_contract (prefix_store st p) (vw_inv c) (prefix_blobs p (vw_blobs c)) (prefix_ok p (vw_ok c))
      (\<lambda>k. vw_text c (p @ k)) (prefix_filter_ok p (vw_filter c))" if all
    using prefix_visit_layer.prefix_visits_all [OF prefix_visit_layer.intro [OF l]] assms that
    unfolding visits_def by blast
  then show ?thesis
    using prefix_steady_layer.prefix_visits_steadily [OF prefix_steady_layer.intro [OF l s]]
    unfolding visits_def by simp
qed

lemma prefix_overwrites:
  assumes "overwrites st c" "serves st c"
  shows "overwrites (prefix_store st p) (layer_view opens (Prefix p :: ('w, 'u) layer_kind) c)"
  unfolding overwrites_def
proof (intro conjI allI impI)
  fix w k n and rd :: reader
  assume a: "vw_inv (layer_view opens (Prefix p :: ('w, 'u) layer_kind) c) w"
    "vw_ok (layer_view opens (Prefix p :: ('w, 'u) layer_kind) c) k"
    "vw_blobs (layer_view opens (Prefix p :: ('w, 'u) layer_kind) c) w k \<noteq> None" "rd_end rd = Eof"
  have k: "vw_inv c w" "valid_key k" "vw_ok c (p @ k)" "vw_blobs c w (p @ k) \<noteq> None"
    using a by (simp_all add: prefix_ok_def prefix_blobs_def)
  have v: "prefixed p k = Ok (p @ k)"
    using k(2,3) blob_ops.ok_valid [OF assms(2)] by (simp add: prefixed_Ok)
  obtain res w' where "bs_put st [blob_input_with_size (p @ k) rd n] w = (Ok res, w')"
    using assms(1) k a(4) unfolding overwrites_def by blast
  then show "\<exists>res w'. bs_put (prefix_store st p) [blob_input_with_size k rd n] w = (Ok res, w')"
    using v by (simp add: prefix_put_def blob_input_with_size_def io_bind_eq)
qed (use assms(1) in \<open>auto simp: overwrites_def prefix_blobs_def\<close>)

lemma encryption_visits_through:
  assumes "serves_robustly st c" "visits True st c" "\<forall>k. valid_key k \<longrightarrow> vw_ok c k"
    and "vw_filter c (suffix_filter [])" "provider_ok (vw_inv c) (vw_blobs c) provider (opens provider)"
  shows "visits all (enc_store (encrypted_new st provider))
    (layer_view opens (Encryption provider sg :: ('w, 'u) layer_kind) c)"
proof -
  note e = below_encryption [OF assms(1,3,4,5)]
  have "encryption_visit_layer st (vw_inv c) (vw_blobs c) (vw_ok c) (vw_text c) (vw_filter c) provider
      (opens provider)"
    using e assms(2) unfolding visits_def by (intro encryption_visit_layer.intro) auto
  note b = encryption_visit_layer.encryption_visits [OF this]
  from b blob_contract.is_steady [OF b] show ?thesis
    unfolding visits_def by (simp add: encrypted_new_def)
qed

section \<open>What the tasks do to a view\<close>

text \<open>
  The keys that some cleanup task may remove, as they are seen through the layers above it: under a
  prefix the stripped key, over encryption the key of a pair of which either half is removed.
\<close>

fun layer_cleans :: "('w, 'u) layer_kind \<Rightarrow> (key \<Rightarrow> bool) \<Rightarrow> key \<Rightarrow> bool" where
  "layer_cleans (Prefix p) C k \<longleftrightarrow> C (p @ k)"
| "layer_cleans (Encryption _ _) C k \<longleftrightarrow> C k \<or> C (k @ DEFAULT_HEADER_SUFFIX)"
| "layer_cleans (Cleanup pred _ st) C k \<longleftrightarrow> C k \<or> st \<noteq> None \<and> (\<exists>m. bm_key m = k \<and> pred k m)"
| "layer_cleans (CustomLayer _) C k \<longleftrightarrow> C k"

definition stack_cleans :: "('w, 'u) layer_kind list \<Rightarrow> (key \<Rightarrow> bool) \<Rightarrow> key \<Rightarrow> bool" where
  "stack_cleans layers C = foldl (\<lambda>C layer. layer_cleans layer C) C layers"

text \<open>A task that keeps the view's invariant and removes nothing but keys in \<open>C\<close>, whatever it returns.\<close>

definition task_within :: "'w view \<Rightarrow> (key \<Rightarrow> bool) \<Rightarrow> 'w maintenance_task \<Rightarrow> bool" where
  "task_within c C task \<longleftrightarrow>
     (\<forall>alive w r w'. vw_inv c w \<longrightarrow> mt_factory task alive w = (r, w') \<longrightarrow>
        vw_inv c w' \<and> (\<forall>k. vw_blobs c w' k = vw_blobs c w k \<or> C k \<and> vw_blobs c w' k = None))"

lemma task_withinD:
  assumes "task_within c C task" "vw_inv c w" "mt_factory task alive w = (r, w')"
  shows "vw_inv c w'" "vw_blobs c w' k = vw_blobs c w k \<or> C k \<and> vw_blobs c w' k = None"
  using assms unfolding task_within_def by metis+

lemma task_within_prefix:
  "task_within c C task \<Longrightarrow>
   task_within (layer_view opens (Prefix p :: ('w, 'u) layer_kind) c) (\<lambda>k. C (p @ k)) task"
  unfolding task_within_def by (simp add: prefix_blobs_def)

lemma task_within_encryption:
  assumes "task_within c C task"
  shows "task_within (layer_view opens (Encryption provider sg :: ('w, 'u) layer_kind) c)
    (\<lambda>k. C k \<or> C (k @ DEFAULT_HEADER_SUFFIX)) task"
  unfolding task_within_def
proof (intro allI impI)
  let ?suf = DEFAULT_HEADER_SUFFIX
  let ?v = "layer_view opens (Encryption provider sg :: ('w, 'u) layer_kind) c"
  fix alive w r w'
  assume i: "vw_inv ?v w" and t: "mt_factory task alive w = (r, w')"
  have g: "vw_inv c w" "vw_blobs c w k \<noteq> None \<Longrightarrow> valid_key k"
    "\<not> ends_with k ?suf \<Longrightarrow> vw_blobs c w k = Some ct \<Longrightarrow> vw_blobs c w (k @ ?suf) = Some h \<Longrightarrow>
      opens provider ct h \<noteq> None" for k ct h
    using i by (auto simp: enc_inv_def)
  note d = task_withinD [OF assms g(1) t]
  have keep: "vw_blobs c w' k = Some x \<Longrightarrow> vw_blobs c w k = Some x" for k x
    using d(2) [of k] by auto
  have "vw_inv ?v w'"
    unfolding layer_view.simps view.simps enc_inv_def
  proof (intro conjI allI impI)
    show "valid_key k" if "vw_blobs c w' k \<noteq> None" for k using that keep g(2) by blast
    show "opens provider ct h \<noteq> None"
      if "\<not> ends_with k ?suf" "vw_blobs c w' k = Some ct" "vw_blobs c w' (k @ ?suf) = Some h" for k ct h
      using g(3) [OF that(1)] keep that(2,3) by blast
  qed (rule d(1))
  moreover have "vw_blobs ?v w' k = vw_blobs ?v w k \<or> (C k \<or> C (k @ ?suf)) \<and> vw_blobs ?v w' k = None" for k
    using d(2) [of k] d(2) [of "k @ ?suf"] by (auto simp: enc_blobs_def split: option.split)
  ultimately show "vw_inv ?v w' \<and> (\<forall>k. vw_blobs ?v w' k = vw_blobs ?v w k \<or>
      (C k \<or> C (k @ ?suf)) \<and> vw_blobs ?v w' k = None)" by blast
qed

lemma task_within_mono: "task_within c C task \<Longrightarrow> (\<And>k. C k \<Longrightarrow> D k) \<Longrightarrow> task_within c D task"
  unfolding task_within_def by metis

lemma task_within_layer:
  assumes "task_within c C task"
  shows "task_within (layer_view opens layer c) (layer_cleans layer C) task"
proof (cases layer)
  case (Prefix p)
  show ?thesis unfolding Prefix by (rule task_within_mono [OF task_within_prefix [OF assms]]) simp
next
  case (Encryption provider sg)
  show ?thesis unfolding Encryption by (rule task_within_mono [OF task_within_encryption [OF assms]]) simp
qed (auto intro: task_within_mono [OF assms])

lemma stack_Cons:
  "stack_view opens (layer # layers) c = stack_view opens layers (layer_view opens layer c)"
  "stack_cleans (layer # layers) C = stack_cleans layers (layer_cleans layer C)"
  by (simp_all add: stack_view_def stack_cleans_def)

lemma task_within_stack:
  "task_within c C task \<Longrightarrow> task_within (stack_view opens layers c) (stack_cleans layers C) task"
  by (induction layers arbitrary: c C) (simp_all add: stack_view_def stack_cleans_def task_within_layer)

section \<open>The tasks of a build\<close>

type_synonym 'w rekeyer = "'w encryption_provider \<Rightarrow> bytes \<Rightarrow> bytes option"

text \<open>
  What the layers with a strategy need besides \<open>stack_ok\<close>: a provider that is asked for new headers
  makes ones that open what the old did, the tasks can list their blobs, and a layer above encryption
  that has a strategy can walk the store with any visitor.
\<close>

fun maintained ::
  "'w opener \<Rightarrow> 'w rekeyer \<Rightarrow> bool \<Rightarrow> ('w, 'u) layer_kind list \<Rightarrow> 'w view \<Rightarrow> bool"
where
  "maintained opens newh all [] c \<longleftrightarrow> True"
| "maintained opens newh all (Prefix p # layers) c \<longleftrightarrow>
     maintained opens newh all layers (layer_view opens (Prefix p :: ('w, 'u) layer_kind) c)"
| "maintained opens newh all (Encryption provider st # layers) c \<longleftrightarrow>
     (st \<noteq> None \<longrightarrow> rekey_ok (vw_inv c) (vw_blobs c) provider (opens provider) (newh provider) \<and>
        vw_filter c (suffix_filter DEFAULT_HEADER_SUFFIX)) \<and>
     (all \<or> (\<forall>layer \<in> set layers. layer_strategy layer = None)) \<and>
     maintained opens newh all layers (layer_view opens (Encryption provider st :: ('w, 'u) layer_kind) c)"
| "maintained opens newh all (Cleanup pred n st # layers) c \<longleftrightarrow>
     (st \<noteq> None \<longrightarrow> vw_filter c (prefix_filter [])) \<and> maintained opens newh all layers c"
| "maintained opens newh all (CustomLayer f # layers) c \<longleftrightarrow> maintained opens newh all layers c"

definition has_strategy :: "('w, 'u) layer_kind list \<Rightarrow> bool" where
  "has_strategy layers \<longleftrightarrow> (\<exists>layer \<in> set layers. layer_strategy layer \<noteq> None)"

definition has_rekey :: "('w, 'u) layer_kind list \<Rightarrow> bool" where
  "has_rekey layers \<longleftrightarrow> (\<exists>provider st. Encryption provider (Some st) \<in> set layers)"

text \<open>What the store below some layers gives their tasks.\<close>

definition walked :: "bool \<Rightarrow> bool \<Rightarrow> ('w, 'u) layer_kind list \<Rightarrow> ('w, 'u) dyn_store \<Rightarrow> 'w view \<Rightarrow> bool" where
  "walked all robust layers store c \<longleftrightarrow>
     (has_strategy layers \<longrightarrow> visits all (ds_cleanup store) c) \<and>
     (robust \<longrightarrow> serves_robustly (ds_cleanup store) c \<and> serves_robustly (ds_rekey store) c \<and>
        visits all (ds_rekey store) c \<and> (has_rekey layers \<longrightarrow> overwrites (ds_rekey store) c))"

lemma has_simps [simp]:
  "has_strategy [] \<longleftrightarrow> False"
  "has_strategy (layer # layers) \<longleftrightarrow> layer_strategy layer \<noteq> None \<or> has_strategy layers"
  "has_rekey [] \<longleftrightarrow> False"
  "has_rekey (Prefix p # layers) \<longleftrightarrow> has_rekey layers"
  "has_rekey (Cleanup pred n st # layers) \<longleftrightarrow> has_rekey layers"
  "has_rekey (Encryption provider st # layers) \<longleftrightarrow> st \<noteq> None \<or> has_rekey layers"
  by (auto simp: has_strategy_def has_rekey_def)

lemma task_quiet: "io_catch m (\<lambda>_. io_ret ()) (\<lambda>_. io_ret ()) w = (r, w') \<Longrightarrow> \<exists>x. m w = (x, w')"
  by (cases "m w"; cases "fst (m w)") (auto simp: io_catch_def io_ret_def)

lemma cleanup_task_within:
  assumes "visits all st c" "vw_filter c (prefix_filter [])"
  shows "task_within c (\<lambda>k. \<exists>m. bm_key m = k \<and> pred k m)
    \<lparr>mt_factory = cleanup_task now (with_batch_size n (cleanup_new st pred)), mt_strategy = sg\<rparr>"
  unfolding task_within_def
proof (intro allI impI)
  fix alive w r w'
  assume i: "vw_inv c w" and t: "mt_factory \<lparr>mt_factory = cleanup_task now (with_batch_size n (cleanup_new st pred)),
    mt_strategy = sg\<rparr> alive w = (r, w')"
  have l: "cleanup_layer st (vw_inv c) (vw_blobs c) (vw_ok c) (vw_text c) (vw_filter c)"
    using assms unfolding visits_def by (intro cleanup_layer.intro cleanup_layer_axioms.intro) auto
  show "vw_inv c w' \<and> (\<forall>k. vw_blobs c w' k = vw_blobs c w k \<or> (\<exists>m. bm_key m = k \<and> pred k m) \<and> vw_blobs c w' k = None)"
  proof (cases alive)
    case True
    then obtain x where "cleanup now (with_batch_size n (cleanup_new st pred)) w = (x, w')"
      using t task_quiet by (fastforce simp: cleanup_task_def)
    then have "cleanup now \<lparr>bc_inner = st, bc_predicate = pred, bc_batch_size = n\<rparr> w = (x, w')"
      by (simp add: with_batch_size_def cleanup_new_def)
    from cleanup_layer.cleanup_only [OF l i this] show ?thesis .
  qed (use t i in \<open>simp add: cleanup_task_def io_ret_def\<close>)
qed

lemma rekey_task_within:
  assumes "serves_robustly st c" "visits all st c" "overwrites st c" "\<forall>k. valid_key k \<longrightarrow> vw_ok c k"
    and "vw_filter c (suffix_filter [])" "vw_filter c (suffix_filter DEFAULT_HEADER_SUFFIX)"
    and "provider_ok (vw_inv c) (vw_blobs c) provider (opens provider)"
    and "rekey_ok (vw_inv c) (vw_blobs c) provider (opens provider) newh"
  shows "task_within (layer_view opens (Encryption provider st' :: ('w, 'u) layer_kind) c) (\<lambda>_. False)
    \<lparr>mt_factory = rekey_task (encrypted_new st provider), mt_strategy = sg\<rparr>"
  unfolding task_within_def
proof (intro allI impI)
  let ?v = "layer_view opens (Encryption provider st' :: ('w, 'u) layer_kind) c"
  fix alive w r w'
  assume i: "vw_inv ?v w"
    and t: "mt_factory \<lparr>mt_factory = rekey_task (encrypted_new st provider), mt_strategy = sg\<rparr> alive w = (r, w')"
  note rb = assms(1) [unfolded serves_robustly_def]
  have l: "rekey_layer st (vw_inv c) (vw_blobs c) (vw_ok c) (vw_text c) (vw_filter c) provider
      DEFAULT_HEADER_SUFFIX (opens provider) newh"
  proof (intro rekey_layer.intro rekey_layer_axioms.intro)
    show "encryption_layer st (vw_inv c) (vw_blobs c) (vw_ok c) (vw_text c) (vw_filter c) provider (opens provider)"
      by (rule below_encryption [OF assms(1,4,5,7)])
    show "steady_contract st (vw_inv c) (vw_blobs c) (vw_ok c) (vw_text c) (vw_filter c)"
      using assms(2) by (simp add: visits_def)
    show "\<exists>res w'. bs_put st [blob_input_with_size k rd n] w = (Ok res, w')"
      if "vw_inv c w" "vw_ok c k" "vw_blobs c w k \<noteq> None" "rd_end rd = Eof" for w k n and rd :: reader
      using assms(3) that unfolding overwrites_def by metis
    show "vw_text c k" if "vw_inv c w" "vw_blobs c w k \<noteq> None" for w k
      using assms(3) that unfolding overwrites_def by metis
  qed (rule assms(8) assms(6))+
  show "vw_inv ?v w' \<and> (\<forall>k. vw_blobs ?v w' k = vw_blobs ?v w k \<or> False \<and> vw_blobs ?v w' k = None)"
  proof (cases alive)
    case True
    then obtain x where "enc_rekey (encrypted_new st provider) w = (x, w')"
      using t task_quiet by (fastforce simp: rekey_task_def)
    from rekey_layer.rekey_effect [OF l _ this [unfolded encrypted_new_def]] i show ?thesis by simp
  qed (use t i in \<open>simp add: rekey_task_def io_ret_def\<close>)
qed

lemma wrap_all_task_list:
  "snd (wrap_all rt layers store tasks) = tasks @ snd (wrap_all rt layers store [])"
proof (induction layers arbitrary: store tasks)
  case (Cons layer layers)
  obtain new ts where w: "wrap rt layer store = (new, ts)" by (metis surj_pair)
  then show ?case
    using Cons.IH [of new "tasks @ ts"] Cons.IH [of new ts] by (simp add: wrap_all.simps)
qed (simp add: wrap_all.simps)

lemma wrap_all_tasks_step:
  "snd (wrap_all rt (layer # layers) store []) =
     snd (wrap rt layer store) @ snd (wrap_all rt layers (fst (wrap rt layer store)) [])"
  using wrap_all_task_list [of rt layers "fst (wrap rt layer store)" "snd (wrap rt layer store)"]
  by (cases "wrap rt layer store") (simp add: wrap_all.simps)

text \<open>Every task of a build stays within what the cleanup predicates select.\<close>

lemma tasks_within:
  fixes layers :: "('w, 'u) layer_kind list"
  assumes "stack_ok opens robust layers c" "maintained opens newh all layers c" "walked all robust layers store c"
    and "task \<in> set (snd (wrap_all rt layers store []))"
  shows "task_within (stack_view opens layers c) (stack_cleans layers C) task"
  using assms
proof (induction opens robust layers c arbitrary: store C rule: stack_ok.induct)
  case (1 opens robust c)
  then show ?case by (simp add: wrap_all.simps)
next
  case (2 opens robust p layers c)
  let ?l = "Prefix p :: ('w, 'u) layer_kind"
  have "walked all robust layers (fst (wrap rt ?l store)) (layer_view opens ?l c)"
    unfolding walked_def wrap.simps fst_conv prefix_dyn_def dyn_store.simps
  proof (intro conjI impI)
    show "visits all (prefix_store (ds_cleanup store) p) (layer_view opens ?l c)" if "has_strategy layers"
      by (rule prefix_visits) (use 2(4) that in \<open>simp add: walked_def\<close>)
    assume robust
    then have r: "serves_robustly (ds_cleanup store) c" "serves_robustly (ds_rekey store) c"
        "visits all (ds_rekey store) c" "has_rekey layers \<Longrightarrow> overwrites (ds_rekey store) c"
      using 2(4) by (simp_all add: walked_def)
    show "serves_robustly (prefix_store (ds_cleanup store) p) (layer_view opens ?l c)"
      by (rule prefix_serves_robustly [OF r(1)])
    show "serves_robustly (prefix_store (ds_rekey store) p) (layer_view opens ?l c)"
      by (rule prefix_serves_robustly [OF r(2)])
    show "visits all (prefix_store (ds_rekey store) p) (layer_view opens ?l c)" by (rule prefix_visits [OF r(3)])
    show "overwrites (prefix_store (ds_rekey store) p) (layer_view opens ?l c)" if "has_rekey layers"
      by (rule prefix_overwrites [OF r(4) [OF that] serves_robustly_serves [OF r(2)]])
  qed
  from 2(1) [OF _ _ this, of "layer_cleans ?l C"] show ?case
    using 2(2,3,5) by (simp add: wrap_all_tasks_step stack_Cons del: layer_cleans.simps)
next
  case (3 opens robust provider sg layers c)
  let ?l = "Encryption provider sg :: ('w, 'u) layer_kind"
  have r: "robust" "\<forall>k. valid_key k \<longrightarrow> vw_ok c k" "vw_filter c (suffix_filter [])"
      "provider_ok (vw_inv c) (vw_blobs c) provider (opens provider)"
    using 3(2) by simp_all
  have s: "serves_robustly (ds_cleanup store) c" "serves_robustly (ds_rekey store) c" "visits all (ds_rekey store) c"
    using 3(4) r(1) unfolding walked_def by simp_all
  have "visits all (ds_cleanup (enc_dyn store provider)) (layer_view opens ?l c)" if "has_strategy layers"
  proof -
    have "visits True (ds_cleanup store) c"
      using 3(3,4) that unfolding walked_def has_strategy_def by auto
    from encryption_visits_through [where opens = opens, OF s(1) this r(2-4)] show ?thesis
      by (simp add: enc_dyn_def)
  qed
  then have w: "walked all False layers (fst (wrap rt ?l store)) (layer_view opens ?l c)"
    by (simp add: walked_def)
  show ?case
  proof (cases "task \<in> set (snd (wrap rt ?l store))")
    case True
    then obtain st where st: "sg = Some st"
        "task = \<lparr>mt_factory = rekey_task (encrypted_new (ds_rekey store) provider), mt_strategy = st\<rparr>"
      by (cases sg) auto
    have "overwrites (ds_rekey store) c" using 3(4) r(1) st(1) unfolding walked_def by simp
    from rekey_task_within [where opens = opens and sg = st, OF s(2,3) this r(2,3) _ r(4)] 3(3) st
    have "task_within (layer_view opens ?l c) (\<lambda>_. False) task" by auto
    then have "task_within (layer_view opens ?l c) (layer_cleans ?l C) task"
      by (rule task_within_mono) simp
    from task_within_stack [OF this] show ?thesis by (simp add: stack_Cons del: layer_cleans.simps)
  next
    case False
    then have "task \<in> set (snd (wrap_all rt layers (fst (wrap rt ?l store)) []))"
      using 3(5) by (auto simp: wrap_all_tasks_step)
    from 3(1) [OF _ _ w this] 3(2,3) show ?thesis by (simp add: stack_Cons del: layer_cleans.simps)
  qed
next
  case (4 opens robust pred n sg layers c)
  let ?l = "Cleanup pred n sg :: ('w, 'u) layer_kind"
  have w: "walked all robust layers (fst (wrap rt ?l store)) c" using 4(4) by (auto simp: walked_def)
  show ?case
  proof (cases "task \<in> set (snd (wrap rt ?l store))")
    case True
    then obtain st where st: "sg = Some st"
        "task = \<lparr>mt_factory = cleanup_task (rt_now rt) (with_batch_size n (cleanup_new (ds_cleanup store) pred)),
          mt_strategy = st\<rparr>"
      by (cases sg) auto
    have "visits all (ds_cleanup store) c" "vw_filter c (prefix_filter [])"
      using 4(3,4) st(1) by (simp_all add: walked_def)
    from cleanup_task_within [OF this] have "task_within c (\<lambda>k. \<exists>m. bm_key m = k \<and> pred k m) task"
      unfolding st(2) .
    then have "task_within c (layer_cleans ?l C) task" by (rule task_within_mono) (simp add: st(1))
    from task_within_stack [OF this, of opens layers] show ?thesis by (simp add: stack_Cons del: layer_cleans.simps)
  next
    case False
    then have "task \<in> set (snd (wrap_all rt layers (fst (wrap rt ?l store)) []))"
      using 4(5) by (auto simp: wrap_all_tasks_step)
    from 4(1) [OF _ _ w this] 4(2,3) show ?thesis by (simp add: stack_Cons del: layer_cleans.simps)
  qed
qed simp

section \<open>Maintenance and the user, interleaved\<close>

text \<open>
  The number of a queued task is its place in the list that the build handed to the background.
\<close>

lemma run_busy: "background_run s0 es s \<Longrightarrow> bg_worker s0 = Receiving \<Longrightarrow> bg_worker s = Busy i \<Longrightarrow> i \<in> set (taken es)"
proof (induction rule: background_run.induct)
  case (step es s e s')
  then show ?case using step_queue [OF step.hyps(2)] by (cases e) (auto split: if_splits)
qed simp

lemma run_task_index:
  assumes "background_run (background_start sts ws) es s"
  shows "bg_worker s = Busy i \<Longrightarrow> i < length sts" "i \<in> set (bg_queue s) \<Longrightarrow> i < length sts"
proof -
  have n: "j < length sts" if "j \<in> set (enqueues es)" for j
    using run_loops [OF assms] that by (fastforce simp: loops_ok_def)
  obtain gone where e: "enqueues es = taken es @ bg_queue s @ gone" using run_queue [OF assms] by blast
  show "bg_worker s = Busy i \<Longrightarrow> i < length sts"
    using run_busy [OF assms] n [of i] e by (simp add: background_start_def)
  show "i \<in> set (bg_queue s) \<Longrightarrow> i < length sts" using n [of i] e by simp
qed

text \<open>
  A run of the whole. The worker runs a task in one piece, between \<open>Began\<close> and \<open>Completed\<close>: the event
  that ends the task carries its effect on the world. It completes when the factory's future returns,
  and panics when that does not; a task whose layer is gone is skipped. The user's writes happen while
  the store has not been dropped; its reads leave the world as it is and are left out.
\<close>

datatype system_event = Background event | UserPut "blob_input list" "put_result res" | UserDelete "key list" "unit res"

fun runs :: "event \<Rightarrow> (nat \<times> bool \<times> unit res) option" where
  "runs (Completed i) = Some (i, True, Ok ())"
| "runs (Panicked i) = Some (i, True, Hang)"
| "runs (Skipped i) = Some (i, False, Ok ())"
| "runs _ = None"

inductive built_run ::
  "('w, 'u) dyn_store \<Rightarrow> 'w maintenance_task list \<Rightarrow> background \<times> 'w \<Rightarrow> system_event list \<Rightarrow>
   background \<times> 'w \<Rightarrow> bool"
  for store tasks start
where
  start: "built_run store tasks start [] start"
| quiet: "built_run store tasks start es (s, w) \<Longrightarrow> background_step s e s' \<Longrightarrow> runs e = None \<Longrightarrow>
     built_run store tasks start (es @ [Background e]) (s', w)"
| task: "built_run store tasks start es (s, w) \<Longrightarrow> background_step s e s' \<Longrightarrow>
     runs e = Some (i, alive, r) \<Longrightarrow> mt_factory (tasks ! i) alive w = (r, w') \<Longrightarrow>
     built_run store tasks start (es @ [Background e]) (s', w')"
| put: "built_run store tasks start es (s, w) \<Longrightarrow> bg_pending s = [] \<Longrightarrow> \<not> bg_cancelled s \<Longrightarrow>
     bs_put (ds_user store) bs w = (pr, w') \<Longrightarrow>
     built_run store tasks start (es @ [UserPut bs pr]) (s, w')"
| delete: "built_run store tasks start es (s, w) \<Longrightarrow> bg_pending s = [] \<Longrightarrow> \<not> bg_cancelled s \<Longrightarrow>
     bs_delete (ds_user store) ks w = (dr, w') \<Longrightarrow>
     built_run store tasks start (es @ [UserDelete ks dr]) (s, w')"

definition background_events :: "system_event list \<Rightarrow> event list" where
  "background_events es = List.map_filter (\<lambda>e. case e of Background b \<Rightarrow> Some b | _ \<Rightarrow> None) es"

lemma background_events_simps [simp]:
  "background_events [] = []" "background_events (es @ [Background e]) = background_events es @ [e]"
  "background_events (es @ [UserPut bs pr]) = background_events es"
  "background_events (es @ [UserDelete ks dr]) = background_events es"
  by (simp_all add: background_events_def map_filter_def)

text \<open>The run without the world and the user is a run of the background.\<close>

lemma built_run_background:
  "built_run store tasks start es sw \<Longrightarrow> background_run (fst start) (background_events es) (fst sw)"
  by (induction rule: built_run.induct) (auto intro: background_run.intros)

text \<open>
  The blobs as the user's own calls leave them, and the keys of deletions that failed, of which the
  user cannot know.
\<close>

fun user_call :: "(key \<Rightarrow> bytes option) \<Rightarrow> system_event \<Rightarrow> key \<Rightarrow> bytes option" where
  "user_call m (UserPut bs (Ok _)) = put_blobs bs m"
| "user_call m (UserDelete ks (Ok _)) = m |` (- set ks)"
| "user_call m _ = m"

definition user_blobs :: "system_event list \<Rightarrow> (key \<Rightarrow> bytes option) \<Rightarrow> key \<Rightarrow> bytes option" where
  "user_blobs es m = foldl user_call m es"

definition unsure :: "system_event list \<Rightarrow> key set" where
  "unsure es = (\<Union>e \<in> set es. case e of UserDelete ks dr \<Rightarrow> if dr = Ok () then {} else set ks | _ \<Rightarrow> {})"

definition puts_ok :: "'w view \<Rightarrow> system_event list \<Rightarrow> bool" where
  "puts_ok c es \<longleftrightarrow> (\<forall>bs pr. UserPut bs pr \<in> set es \<longrightarrow> (\<exists>res. pr = Ok res) \<and> (\<forall>x \<in> set bs. vw_text c (bi_key x)))"

text \<open>Maintenance costs no blob that no cleanup predicate selects.\<close>

lemma built_run_view:
  assumes "built_run store tasks (background_start (map mt_strategy tasks) ws, w0) es (s, w)"
    and "serves (ds_user store) c" "\<forall>task \<in> set tasks. task_within c C task" "vw_inv c w0" "puts_ok c es"
  shows "vw_inv c w \<and> (\<forall>k. k \<notin> unsure es \<longrightarrow>
    vw_blobs c w k = user_blobs es (vw_blobs c w0) k \<or> C k \<and> vw_blobs c w k = None)"
  using assms(1,5)
proof (induction es "(s, w)" arbitrary: s w rule: built_run.induct)
  case start
  then show ?case using assms(4) by (simp add: user_blobs_def)
next
  case (quiet es s w e s')
  then show ?case by (simp add: puts_ok_def unsure_def user_blobs_def)
next
  case (task es s w e s' i alive r w')
  have IH: "vw_inv c w" "k \<notin> unsure es \<Longrightarrow>
      vw_blobs c w k = user_blobs es (vw_blobs c w0) k \<or> C k \<and> vw_blobs c w k = None" for k
    using task.hyps(2) task.prems by (auto simp: puts_ok_def)
  have i: "i < length tasks"
  proof -
    note run = built_run_background [OF task.hyps(1), simplified]
    show ?thesis
      using step_queue [OF task.hyps(3)] task.hyps(4) run_task_index [OF run, of i] by (cases e) auto
  qed
  then have t: "task_within c C (tasks ! i)" using assms(3) by simp
  note d = task_withinD [OF t IH(1) task.hyps(5)]
  have "vw_blobs c w' k = user_blobs es (vw_blobs c w0) k \<or> C k \<and> vw_blobs c w' k = None" if "k \<notin> unsure es" for k
    using IH(2) [OF that] d(2) [of k] by metis
  then show ?case using d(1) by (simp add: unsure_def user_blobs_def)
next
  case (put es s w bs pr w')
  have IH: "vw_inv c w" "k \<notin> unsure es \<Longrightarrow>
      vw_blobs c w k = user_blobs es (vw_blobs c w0) k \<or> C k \<and> vw_blobs c w k = None" for k
    using put.hyps(2) put.prems by (auto simp: puts_ok_def)
  obtain res where r: "pr = Ok res" "\<forall>x \<in> set bs. vw_text c (bi_key x)" using put.prems by (auto simp: puts_ok_def)
  have d: "vw_inv c w'" "vw_blobs c w' = put_blobs bs (vw_blobs c w)"
    using blob_ops.put_done [OF assms(2) IH(1) r(2)] put.hyps(5) r(1) by auto
  have "vw_blobs c w' k = put_blobs bs (user_blobs es (vw_blobs c w0)) k \<or> C k \<and> vw_blobs c w' k = None"
    if "k \<notin> unsure es" for k
    using IH(2) [OF that] put_blobs_cong [of "vw_blobs c w" k "user_blobs es (vw_blobs c w0)" bs]
      put_blobs_missing [of "vw_blobs c w" k bs "user_blobs es (vw_blobs c w0)"] unfolding d(2) by blast
  then show ?case using d(1) r(1) by (simp add: unsure_def user_blobs_def)
next
  case (delete es s w ks dr w')
  have IH: "vw_inv c w" "k \<notin> unsure es \<Longrightarrow>
      vw_blobs c w k = user_blobs es (vw_blobs c w0) k \<or> C k \<and> vw_blobs c w k = None" for k
    using delete.hyps(2) delete.prems by (auto simp: puts_ok_def)
  note f = blob_ops.delete_frame [OF assms(2) IH(1) delete.hyps(5)]
  show ?case
  proof (cases "dr = Ok ()")
    case True
    have "vw_blobs c w' = (vw_blobs c w) |` (- set ks)"
      using blob_ops.delete_done [OF assms(2) IH(1)] delete.hyps(5) True by simp
    then show ?thesis using f IH(2) True by (auto simp: unsure_def user_blobs_def restrict_map_def)
  next
    case False
    then have "user_call m (UserDelete ks dr) = m" for m by (cases dr) auto
    moreover have "vw_blobs c w' k = user_blobs es (vw_blobs c w0) k \<or> C k \<and> vw_blobs c w' k = None"
      if "k \<notin> unsure es" "k \<notin> set ks" for k
      using IH(2) [OF that(1)] f that(2) by metis
    ultimately show ?thesis using f False by (auto simp: unsure_def user_blobs_def)
  qed
qed

section \<open>The two backends\<close>

lemma fs_visits: "visits True (fs_store fuel self) (fs_view self)"
  unfolding visits_def fs_view_def using fs.blob_contract_axioms fs.steady.steady_contract_axioms by auto

lemma fs_overwrites: "overwrites (fs_store fuel self) (fs_view self)"
  unfolding overwrites_def fs_view_def view.simps
proof (intro conjI allI impI)
  fix w k assume "fs_inv self w" "fs_blobs self w k \<noteq> None"
  then show "utf8 k"
    using fs_invD(5) [of self w "key_parts k"] by (simp add: fs_blobs_None key_place_def)
qed (use fs_overwrite in simp)

lemma fs_walked: "walked True robust layers (fs_dyn fuel self) (fs_view self)"
  by (simp add: walked_def fs_dyn_def fs_visits fs_serves fs_overwrites)

context s3_layer
begin

lemma s3_steady: "steady_contract (s3_store fuel self) good objs valid_key (\<lambda>_. True) hint_sound"
  by (rule s3.steady_contract_axioms)

end

definition s3_view :: "('w \<Rightarrow> bool) \<Rightarrow> ('w \<Rightarrow> key \<Rightarrow> bytes option) \<Rightarrow> 'w view" where
  "s3_view good objs = \<lparr>vw_inv = good, vw_blobs = objs, vw_ok = valid_key, vw_text = (\<lambda>_. True), vw_filter = hint_sound\<rparr>"

text \<open>
  A service may refuse to store an object again, so over S3 a rekey strategy is not covered: the
  visitor drops the refusal.
\<close>

lemma s3_visits:
  "s3_layer self good objs ups pos \<Longrightarrow> visits False (s3_store fuel self) (s3_view good objs)"
  using s3_layer.s3_steady by (auto simp: visits_def s3_view_def)

lemma s3_walked:
  assumes "s3_layer self good objs ups pos" "\<not> has_rekey layers"
  shows "walked False robust layers (s3_dyn fuel self) (s3_view good objs)"
  using assms(2)
  by (simp add: walked_def s3_dyn_def s3_visits [OF assms(1)] s3_serves [OF assms(1), folded s3_view_def])

end
