(* ===== verification/Builder_Properties.thy ===== *)
theory Builder_Properties
  imports Builder_Facts Maintenance_Facts Examples
begin

text \<open>
  The properties of the builder and of the background that it starts. A run of the background is any
  interleaving of its parts with the user's calls; the witnesses replay concrete ones.
\<close>

section \<open>The builder\<close>

text \<open>
  C35: the typestate keeps its promise. After any sequence of calls that the types allow, the backend
  is of the kind that the marker names, with a part size that S3 accepts; \<open>build\<close>, which exists once
  a backend is chosen, never panics; and a zero period anywhere in the layers is refused with nothing
  touched.
\<close>
theorem builder_typestate:
  assumes "in_state m b" "m \<noteq> NoBackend"
  shows "backend_for m (bb_backend b) \<and> fst (build rt b w) \<noteq> Hang \<and>
    ((\<exists>layer \<in> set (bb_layers b). layer_strategy layer = Some (Periodic 0)) \<longrightarrow>
      (\<exists>e. validate_strategies b = Err e \<and> build rt b w = (Err e, w)))"
  unfolding build_def
proof (intro conjI impI)
  show f: "backend_for m (bb_backend b)" by (rule in_state_backend [OF assms(1)])
  obtain backend where b: "bb_backend b = Some backend" "backend \<noteq> NoneBackend"
    using f assms(2) by (cases m; cases "bb_backend b"; cases "the (bb_backend b)") auto
  show "fst (do_build rt b w) \<noteq> Hang" by (rule do_build_not_Hang [OF b])
  assume "\<exists>layer \<in> set (bb_layers b). layer_strategy layer = Some (Periodic 0)"
  then obtain e where "validate_strategies b = Err e" using validate_zero_period by blast
  then show "\<exists>e. validate_strategies b = Err e \<and> do_build rt b w = (Err e, w)" by (simp add: do_build_def)
qed

definition demo_runtime :: "fsys runtime" where
  "demo_runtime = \<lparr>rt_fuel = 9, rt_from_timestamp = fbs_from_timestamp demo_store,
     rt_s3_from_timestamp = (\<lambda>s n. Some s), rt_now = (\<lambda>_. 0), rt_watches = (\<lambda>_. manual_new)\<rparr>"

theorem builder_typestate_witness:
  "fst (build demo_runtime (with_clean (\<lambda>k m. True) (Periodic 0) (with_fs ''/new'' builder_new)
     :: (fsys, unit) blob_store_builder) demo_fs) = Err (InvalidInput ''Periodic duration must be non-zero'') \<and>
   snd (build demo_runtime (with_clean (\<lambda>k m. True) (Periodic 0) (with_fs ''/new'' builder_new)
     :: (fsys, unit) blob_store_builder) demo_fs) = demo_fs"
proof -
  let ?b = "with_clean (\<lambda>k m. True) (Periodic 0) (with_fs ''/new'' builder_new) :: (fsys, unit) blob_store_builder"
  have "in_state FsChosen ?b" by (intro in_state.intros)
  from builder_typestate [OF this, of demo_runtime demo_fs] show ?thesis
    by (auto simp: with_clean_def with_fs_def builder_new_def validate_strategies_def is_zero_def)
qed

text \<open>
  C36: layers are applied in the order of the calls, and what comes out is a store, with one maintenance
  task for each strategy of the layers. Over a backend that
  keeps the trait's contract, a build with any prefix and cleanup layers and at most one encryption
  layer gives a store that acts as a map on the blobs seen through all its layers, the first added at
  the bottom: put, get, delete and list have the effects that the trait documents, whatever the layers
  between.
\<close>
theorem build_stack:
  assumes "bb_backend b = Some backend" "build_raw_arc rt backend w = (Ok raw, w1)"
    and "serves_robustly (ds_user raw) base" "stack_ok opens True (bb_layers b) base"
    and "do_build rt b w = (Ok (store, tasks), w')" "view = stack_view opens (bb_layers b) base"
  shows "w' = w1 \<and> map mt_strategy tasks = List.map_filter layer_strategy (bb_layers b) \<and>
    (vw_inv base w' \<and> vw_blobs base w' = Map.empty \<longrightarrow> vw_inv view w' \<and> vw_blobs view w' = Map.empty) \<and>
    (\<forall>u bs res u'. vw_inv view u \<longrightarrow> (\<forall>x \<in> set bs. vw_text view (bi_key x)) \<longrightarrow>
       bs_put (ds_user store) bs u = (Ok res, u') \<longrightarrow>
       vw_inv view u' \<and> vw_blobs view u' = put_blobs bs (vw_blobs view u)) \<and>
    (\<forall>u k d r u'. vw_inv view u \<longrightarrow> vw_ok view k \<longrightarrow> vw_blobs view u k = Some d \<longrightarrow>
       bs_get (ds_user store) k u = (r, u') \<longrightarrow> (\<exists>rd. r = Ok rd \<and> read_all rd = Ok d)) \<and>
    (\<forall>u ks u'. vw_inv view u \<longrightarrow> bs_delete (ds_user store) ks u = (Ok (), u') \<longrightarrow>
       vw_inv view u' \<and> vw_blobs view u' = (vw_blobs view u) |` (- set ks)) \<and>
    (\<forall>u f ks u'. vw_inv view u \<longrightarrow> vw_filter view f \<longrightarrow> bs_list (ds_user store) f u = (Ok ks, u') \<longrightarrow>
       sorted ks \<and> distinct ks \<and> set ks = {k \<in> dom (vw_blobs view u). matches f k None})"
proof -
  obtain st ts where wr: "wrap_all rt (bb_layers b) raw [] = (st, ts)" by (metis surj_pair)
  have s: "store = st" "w' = w1" "tasks = ts"
    using assms(1,2,5) wr by (auto simp: do_build_def elim!: io_bind_OkE split: if_splits)
  have serves: "serves (ds_user store) view"
    using stack_serves [OF assms(4) serves_robustly_serves [OF assms(3)], of rt] assms(3,6) wr s(1) by simp
  show ?thesis
  proof (intro conjI allI impI)
    show "w' = w1" by (rule s(2))
    show "map mt_strategy tasks = List.map_filter layer_strategy (bb_layers b)"
      using wrap_all_strategies [of rt "bb_layers b" raw "[]"] wr s(3) by simp
    show "vw_inv view w'" "vw_blobs view w' = Map.empty" if "vw_inv base w' \<and> vw_blobs base w' = Map.empty"
      using stack_view_empty [of base w' opens "bb_layers b"] that assms(6) by simp_all
  next
    fix u bs res u'
    assume a: "vw_inv view u" "\<forall>x \<in> set bs. vw_text view (bi_key x)" "bs_put (ds_user store) bs u = (Ok res, u')"
    show "vw_inv view u'" "vw_blobs view u' = put_blobs bs (vw_blobs view u)"
      using blob_ops.put_done [OF serves a] by simp_all
  next
    fix u k d r u'
    assume a: "vw_inv view u" "vw_ok view k" "vw_blobs view u k = Some d" "bs_get (ds_user store) k u = (r, u')"
    show "\<exists>rd. r = Ok rd \<and> read_all rd = Ok d" by (rule blob_ops.get_found [OF serves a])
  next
    fix u ks u' assume a: "vw_inv view u" "bs_delete (ds_user store) ks u = (Ok (), u')"
    show "vw_inv view u'" "vw_blobs view u' = (vw_blobs view u) |` (- set ks)"
      using blob_ops.delete_frame [OF serves a] blob_ops.delete_done [OF serves a] by simp_all
  next
    fix u f ks u'
    assume a: "vw_inv view u" "vw_filter view f" "bs_list (ds_user store) f u = (Ok ks, u')"
    show "sorted ks" "distinct ks" "set ks = {k \<in> dom (vw_blobs view u). matches f k None}"
      using blob_ops.list_done [OF serves a] by simp_all
  qed
qed

text \<open>Files, a prefix, encryption, and a cleanup layer on top, over one sealed blob.\<close>

definition demo_sealed :: fsys where
  "demo_sealed = demo_fs\<lparr>fs_nodes := [([''d''], DirN), ([''d'', ''app''], DirN),
     ([''d'', ''app'', ''n''], FileN [6, 5] (Some 5)), ([''d'', ''app'', ''n.enc-header''], FileN [1, 6] (Some 5))]\<rparr>"

definition demo_builder :: "(fsys, unit) blob_store_builder" where
  "demo_builder = with_clean (\<lambda>k m. False) OnStart
     (with_encryption (envelope_encryption (\<lambda>v. v) 1 7) (with_prefix ''app/'' (with_fs ''/d'' builder_new)))"

lemma demo_builder_simps:
  "bb_backend demo_builder = Some (Fs ''/d'')"
  "bb_layers demo_builder =
     [Prefix ''app/'', Encryption (envelope_encryption (\<lambda>v. v) 1 7) None, Cleanup (\<lambda>k m. False) 1000 (Some OnStart)]"
  by (simp_all add: demo_builder_def with_clean_def with_encryption_def with_prefix_def with_fs_def builder_new_def)

lemma demo_paths: "normalise_root ''/d'' = ''/d/''" "path_comps ''/d/'' = [''d'']" "is_absolute ''/d/''"
  by code_simp+

lemma demo_raw:
  "build_raw_arc demo_runtime (Fs ''/d'' :: (fsys, unit) backend_kind) demo_sealed =
     (Ok (fs_dyn 9 demo_store), demo_sealed)"
proof -
  have "create_dir_all (normalise_root ''/d'') demo_sealed = (Ok (), demo_sealed)"
    using demo_paths by (simp add: create_dir_all_def target_def demo_sealed_def node_at_def io_ret_def)
  then show ?thesis
    using demo_paths by (simp add: fs_new_def Let_def io_map_err_eq demo_store_def demo_runtime_def)
qed

lemma demo_build:
  "\<exists>tasks. do_build demo_runtime demo_builder demo_sealed =
     (Ok (enc_dyn (prefix_dyn (fs_dyn 9 demo_store) ''app/'') (envelope_encryption (\<lambda>v. v) 1 7), tasks), demo_sealed)"
  by (simp add: do_build_def demo_builder_simps demo_raw validate_strategies_def wrap_all.simps spawn_tasks_def
      io_bind_eq del: build_raw_arc.simps)

abbreviation demo_opens :: "fsys opener" where
  "demo_opens \<equiv> (\<lambda>_. envelope_opens (\<lambda>v. v))"

lemma app_parts: "key_parts (''app/'' @ k) = ''app'' # key_parts k"
  using split_on_append [of KEY_SEPARATOR "''app''" k] by (simp add: KEY_SEPARATOR_def)

lemma demo_stack_ok: "stack_ok demo_opens True (bb_layers demo_builder) (fs_view demo_store)"
proof -
  have v: "prefix_ok ''app/'' valid_key k" if "valid_key k" for k
    using that app_parts [of k]
    by (simp add: prefix_ok_def valid_key_def good_component_def KEY_SEPARATOR_def backslash_def)
  have f: "prefix_filter_ok ''app/'' fs_filter_ok (suffix_filter [])"
  proof -
    have "combined_full ''app/'' (suffix_filter []) = ''app/'' @ []"
      by (simp add: combined_full_eq suffix_filter_def default_prefix_hint_def)
    then have "hint_dir (combined_prefix_filter ''app/'' (suffix_filter [])) = [''app'']"
      using app_parts [of "[]"] by (simp add: hint_dir_def combined_matches)
    then show ?thesis
      by (simp add: prefix_filter_ok_def fs_filter_ok_def combined_sound hint_clean_def good_component_def)
  qed
  show ?thesis using v f by (simp add: demo_builder_simps fs_view_def envelope_ok)
qed

definition demo_view :: "fsys view" where
  "demo_view = stack_view demo_opens (bb_layers demo_builder) (fs_view demo_store)"

lemma demo_sealed_inv: "fs_inv demo_store demo_sealed"
proof -
  have "fs_wf demo_sealed"
    by (auto simp: fs_wf_def demo_sealed_def node_at_def name_ok_def good_component_def KEY_SEPARATOR_def
        split: if_splits)
  moreover have "root_ok ''/d/''" using fs_invD(1) [OF demo_inv] by (simp add: demo_store_def)
  moreover have "utf8 ''app/n''" "utf8 ''app/n.enc-header''" by code_simp+
  ultimately show ?thesis
    using demo_paths by (auto simp: fs_inv_def demo_store_def demo_sealed_def demo_fs_def fault_free_def node_at_def
        is_file_def KEY_SEPARATOR_def split: if_splits)
qed

lemma demo_app:
  "prefix_blobs ''app/'' (fs_blobs demo_store) demo_sealed k =
     (if k = ''n'' then Some [6, 5] else if k = ''n.enc-header'' then Some [1, 6] else None)"
proof -
  have "key_place demo_store (''app/'' @ k) = [''d'', ''app''] @ key_parts k"
    unfolding key_place_def app_parts using demo_paths by (simp add: demo_store_def)
  moreover have "key_parts ''n'' = [''n'']" "key_parts ''n.enc-header'' = [''n.enc-header'']" by code_simp+
  then have "key_parts k = [''n''] \<longleftrightarrow> k = ''n''" "key_parts k = [''n.enc-header''] \<longleftrightarrow> k = ''n.enc-header''"
    using split_on_inj [of KEY_SEPARATOR k "''n''"] split_on_inj [of KEY_SEPARATOR k "''n.enc-header''"] by metis+
  ultimately show ?thesis
    unfolding prefix_blobs_def fs_blobs_def by (auto simp: node_at_def demo_sealed_def)
qed

lemma demo_view_start:
  "vw_inv demo_view demo_sealed" "vw_blobs demo_view demo_sealed ''n'' = Some [1, 2]" "vw_ok demo_view ''n''"
proof -
  let ?app = "prefix_blobs ''app/'' (fs_blobs demo_store)"
  have v: "vw_inv demo_view = enc_inv DEFAULT_HEADER_SUFFIX (envelope_opens (\<lambda>v. v)) (fs_inv demo_store) ?app"
    "vw_blobs demo_view = enc_blobs DEFAULT_HEADER_SUFFIX (envelope_opens (\<lambda>v. v)) ?app"
    "vw_ok demo_view = enc_ok DEFAULT_HEADER_SUFFIX"
    by (simp_all add: demo_view_def stack_view_def demo_builder_simps fs_view_def)
  have k: "valid_key ''n''" "valid_key ''n.enc-header''" "enc_ok DEFAULT_HEADER_SUFFIX ''n''"
      "ends_with ''n.enc-header'' DEFAULT_HEADER_SUFFIX" "\<not> ends_with ''n'' DEFAULT_HEADER_SUFFIX"
    by code_simp+
  have o: "envelope_opens (\<lambda>v. v) [6, 5] [1, 6] = Some [1, 2]" by code_simp
  show "vw_inv demo_view demo_sealed"
    unfolding v enc_inv_def demo_app using demo_sealed_inv k o by (auto simp: DEFAULT_HEADER_SUFFIX_def)
  show "vw_blobs demo_view demo_sealed ''n'' = Some [1, 2]"
    unfolding v enc_blobs_def demo_app using k o by (simp add: DEFAULT_HEADER_SUFFIX_def)
  show "vw_ok demo_view ''n''" unfolding v by (rule k)
qed

theorem build_stack_witness:
  "\<exists>store tasks rd w. do_build demo_runtime demo_builder demo_sealed = (Ok (store, tasks), demo_sealed) \<and>
     bs_get (ds_user store) ''n'' demo_sealed = (Ok rd, w) \<and> read_all rd = Ok [1, 2]"
proof -
  let ?store = "enc_dyn (prefix_dyn (fs_dyn 9 demo_store) ''app/'') (envelope_encryption (\<lambda>v. v) 1 7)
    :: (fsys, unit) dyn_store"
  obtain tasks where d: "do_build demo_runtime demo_builder demo_sealed = (Ok (?store, tasks), demo_sealed)"
    using demo_build by blast
  have s: "serves_robustly (ds_user (fs_dyn 9 demo_store :: (fsys, unit) dyn_store)) (fs_view demo_store)"
    by (simp add: fs_dyn_def fs_serves)
  note effect = conjunct2 [OF conjunct2 [OF conjunct2 [OF
    build_stack [OF demo_builder_simps(1) demo_raw s demo_stack_ok d demo_view_def]]]]
  obtain r w where g: "bs_get (ds_user ?store) ''n'' demo_sealed = (r, w)" by (metis surj_pair)
  obtain rd where "r = Ok rd" "read_all rd = Ok [1, 2]"
    using conjunct1 [OF conjunct2 [OF effect], rule_format, OF demo_view_start(1,3,2) g] by blast
  then show ?thesis using d g by blast
qed

section \<open>The background\<close>

text \<open>
  C38: the queue. At every moment at most 16 tasks wait, they have been taken in the order in which
  they were enqueued (what the worker's end drops is the rest), one task runs at a time, no maintenance
  begins once the layers have been released or any task has panicked, and a strategy that runs on
  start enqueues at most one task.
\<close>
theorem background_queue:
  assumes "background_run (background_start sts ws) es s"
  shows "length (bg_queue s) \<le> QUEUE_SLOTS \<and>
    (\<exists>gone. enqueues es = taken es @ bg_queue s @ gone \<and> (bg_worker s \<noteq> Stopped \<longrightarrow> gone = [])) \<and>
    one_at_a_time es \<and>
    (\<forall>xs ys i. es = xs @ Released # ys \<longrightarrow> Began i \<notin> set ys) \<and>
    (\<forall>xs j ys i. es = xs @ Panicked j # ys \<longrightarrow> Began i \<notin> set ys) \<and>
    (\<forall>i < length sts. sts ! i = OnStart \<longrightarrow> count_list (enqueues es) i \<le> 1)"
proof (intro conjI allI impI)
  note q = run_queue [OF assms]
  show "length (bg_queue s) \<le> QUEUE_SLOTS" by (rule conjunct1 [OF q])
  show "\<exists>gone. enqueues es = taken es @ bg_queue s @ gone \<and> (bg_worker s \<noteq> Stopped \<longrightarrow> gone = [])"
    using q by (elim conjE)
  show "one_at_a_time es" using q by (simp add: one_at_a_time_def)
  show "Began i \<notin> set ys" if "es = xs @ Released # ys" for xs ys i using run_released [OF assms] that by blast
  show "Began i \<notin> set ys" if "es = xs @ Panicked j # ys" for xs j ys i using run_panicked [OF assms] that by blast
  fix i assume i: "i < length sts" "sts ! i = OnStart"
  show "count_list (enqueues es) i \<le> 1"
    using run_enqueued [OF run_loops [OF assms] i(1)] i(2) by (auto simp: loop_fact_def)
qed

theorem background_queue_witness:
  "\<exists>s. background_run (background_start [OnStart, Periodic 5] (\<lambda>_. manual_new))
     [Spawned, Spawned, Polled 0, Enqueued 0, Began 0, Enqueued 1, Dropped, Completed 0, Released, Skipped 1] s \<and>
     length (bg_queue s) \<le> 16 \<and> bg_worker s = Receiving \<and>
     one_at_a_time [Spawned, Spawned, Polled 0, Enqueued 0, Began 0, Enqueued 1, Dropped, Completed 0, Released, Skipped 1]"
proof -
  let ?s0 = "background_start [OnStart, Periodic 5] (\<lambda>_. manual_new)"
  let ?es = "[Spawned, Spawned, Polled 0, Enqueued 0, Began 0, Enqueued 1, Dropped, Completed 0, Released, Skipped 1]"
  have "(case replay (map (\<lambda>e. (e, 0)) ?es) ?s0 of Some t \<Rightarrow> bg_worker t = Receiving | None \<Rightarrow> False)"
    by code_simp
  then obtain s where r: "replay (map (\<lambda>e. (e, 0)) ?es) ?s0 = Some s" "bg_worker s = Receiving"
    by (auto split: option.splits)
  have "background_run ?s0 ?es s" using replay_run [OF r(1)] by (simp add: comp_def)
  then show ?thesis using background_queue [of _ _ ?es s] r(2) unfolding QUEUE_SLOTS_def by blast
qed

text \<open>
  C39: shutdown. Once the background is cancelled it comes to its end: whatever the interleaving, at
  most 9 more steps for each scheduling loop, 35 for the queue and the worker, and 4 for each loop and
  each use of a \<open>Manual\<close> handle in between are made; and it is not stuck before that, when nothing is
  left to do every loop has finished, the queue is empty, the worker has stopped and the layers are
  released. (A task that has begun is taken to return or panic.)
\<close>
theorem background_shutdown:
  assumes "background_run (background_start sts ws) es s" "bg_cancelled s" "background_run s fs u"
  shows "length (filter (\<lambda>e. \<not> from_outside e) fs) \<le>
      9 * length sts + 35 + 4 * length sts * length (filter from_outside fs) \<and>
    ((\<forall>e v. background_step u e v \<longrightarrow> from_outside e) \<longrightarrow> all_ended u \<and> bg_queue u = [])"
proof (intro conjI impI)
  note ok = run_loops [OF assms(1)]
  have p: "bg_pending s = []" "length (bg_loops s) \<le> length sts"
    using ok assms(2) by (auto simp: loops_ok_def)
  note r = shutdown_run [OF assms(3,2) p(1)]
  have "shutdown_measure s \<le> 9 * length (bg_loops s) + 35"
    by (rule shutdown_bound) (use run_queue [OF assms(1)] in \<open>elim conjE\<close>)
  then show "length (filter (\<lambda>e. \<not> from_outside e) fs) \<le>
      9 * length sts + 35 + 4 * length sts * length (filter from_outside fs)"
    using r p(2) mult_le_mono1 [of "4 * length (bg_loops s)" "4 * length sts" "length (filter from_outside fs)"]
    by linarith
  note run = run_trans [OF assms(3,1)]
  assume "\<forall>e v. background_step u e v \<longrightarrow> from_outside e"
  then have "all_ended u" using shutdown_progress [OF conjunct1 [OF r] run_loops [OF run]] by blast
  then show "all_ended u" "bg_queue u = []" using run_queue [OF run] by (auto simp: all_ended_def)
qed

theorem background_shutdown_witness:
  "\<exists>s u. background_run (background_start [Periodic 5] (\<lambda>_. manual_new)) [Spawned, Enqueued 0, Dropped] s \<and>
     background_run s [Released, WorkerEnded, Polled 0, Polled 0] u \<and>
     length (filter (\<lambda>e. \<not> from_outside e) [Released, WorkerEnded, Polled 0, Polled 0]) \<le> 44"
proof -
  let ?s0 = "background_start [Periodic 5] (\<lambda>_. manual_new)"
  let ?es = "[Spawned, Enqueued 0, Dropped]" and ?fs = "[Released, WorkerEnded, Polled 0, Polled 0]"
  have "(case replay (map (\<lambda>e. (e, 0)) ?es) ?s0 of
      Some s \<Rightarrow> bg_cancelled s \<and> (case replay (map (\<lambda>e. (e, 0)) ?fs) s of Some u \<Rightarrow> True | None \<Rightarrow> False)
    | None \<Rightarrow> False)"
    by code_simp
  then obtain s u where r: "replay (map (\<lambda>e. (e, 0)) ?es) ?s0 = Some s" "bg_cancelled s"
      "replay (map (\<lambda>e. (e, 0)) ?fs) s = Some u"
    by (auto split: option.splits)
  have "background_run ?s0 ?es s" "background_run s ?fs u"
    using replay_run [OF r(1)] replay_run [OF r(3)] by (simp_all add: comp_def)
  from this(1,2) background_shutdown [OF this(1) r(2) this(2)] show ?thesis
    by (intro exI [of _ s] exI [of _ u]) (simp add: from_outside_def)
qed



end
