(* ===== verification/Built_Properties.thy ===== *)
theory Built_Properties
  imports Built_Store Builder_Properties
begin

text \<open>
  The property of a built store and its background together.
\<close>












end
