(* ===== verification/Spec2Isabelle.thy ===== *)
theory Spec2Isabelle
  imports Fs_Properties Encrypt_Properties Cleanup_Properties S3_Properties
    Built_Properties
begin

text \<open>
  A verification development for the \<open>xtax-blob-storage\<close> crate: a \<open>BlobStore\<close> trait, the backends that
  implement it, the layers that wrap a store in another store, and the builder that puts them together
  and runs their maintenance.

  \<^bold>\<open>The program.\<close> A blob is a stream of bytes under a key, a \<open>/\<close>-separated path. \<open>validate.rs\<close> decides
  which keys are accepted. \<open>fs.rs\<close>, \<open>fs/store.rs\<close> store blobs as files below a root directory; \<open>s3.rs\<close>
  and the files under \<open>s3/\<close> store them as objects of a bucket; \<open>prefix.rs\<close> shows the part of a store
  under a prefix as a store of its own; \<open>encrypt/store.rs\<close> keeps each blob as a pair of ciphertext and
  header; \<open>cleanup.rs\<close> deletes the blobs a predicate selects. A layer calls the store below it, and
  its visitors call back into the store that is being walked. \<open>builder.rs\<close> stacks the layers on a
  backend; \<open>builder/strategies.rs\<close> and \<open>builder/maintenance.rs\<close> decide when cleanup and rekey run, on
  one worker behind a bounded queue, until the store is dropped.

  \<^bold>\<open>Shared vocabulary.\<close> \<open>Prelude\<close>: results with a third value \<open>Hang\<close> (an \<open>await\<close> that never completes,
  or a panic), state-passing computations, \<open>str\<close> operations on UTF-8 bytes. \<open>Errors\<close>: \<open>error.rs\<close> and
  the errors of \<open>xtax-encryption\<close>. \<open>Types\<close>: \<open>types.rs\<close>, and streams as chunk lists with an end.
  \<open>Validate\<close>, \<open>List_Filter\<close>: \<open>validate.rs\<close>, \<open>list_filter.rs\<close>. \<open>Blob_Store\<close>: the trait as a record of
  methods over a world, its default methods, and its documented promises as locales: \<open>blob_ops\<close> (all
  but \<open>visit\<close>), \<open>steady_contract\<close> and \<open>blob_contract\<close> (with the two strengths of \<open>visit\<close>: what a walk
  may assume of the keys it has read ahead), \<open>robust_ops\<close> (a failing put keeps the invariant).

  \<^bold>\<open>The filesystem.\<close> \<open>Fs_Os\<close>: what the code uses of \<open>std::path\<close> and \<open>std::fs\<close>, as functions on a
  tree, where any system call can be made to fail. \<open>Fs_Store\<close>: \<open>FsBlobStore\<close>, method by method.
  \<open>Fs_Paths\<close> to \<open>Fs_Walk\<close>: the map from keys to places is injective and stays below the root; every
  operation keeps the invariant \<open>fs_inv\<close> and has its documented effect; the breadth-first walk hands
  out each file once; the backend meets the contract. \<open>Fs_Progress\<close>: when operations succeed.

  \<^bold>\<open>S3.\<close> \<open>S3_Store\<close>: \<open>S3BlobStore\<close>, with the SDK client as a record of the requests that the code
  sends. \<open>S3_Contract\<close>: what the code relies on, as the locale \<open>s3_service\<close> (objects, uploads in
  progress, continuation tokens; any request that writes or lists may fail with any error), and the
  effect of each operation on it; the backend meets \<open>steady_contract\<close>, because a page is read before
  its keys are handed out. \<open>S3_Memory\<close>: a service in memory that keeps these laws, with faults to
  order. \<open>S3_Layers\<close>: the layers over it.

  \<^bold>\<open>The layers.\<close> \<open>Prefix\<close>, \<open>Encrypt\<close>, \<open>Cleanup\<close> hold the definitions. \<open>Prefix\<close>, \<open>Encrypt_Contract\<close>,
  \<open>Rekey\<close>, \<open>Cleanup\<close> prove, inside a locale over the store below, that each layer meets the contract or
  does what it promises; \<open>Prefix_Fs\<close>, \<open>Encrypt_Fs\<close>, \<open>Cleanup_Fs\<close> interpret those locales on the
  filesystem backend, \<open>S3_Layers\<close> on the S3 backend.

  \<^bold>\<open>The builder and its background.\<close> \<open>Builder\<close>: the builder's methods, \<open>LayerKind::wrap\<close>, \<open>do_build\<close>;
  the typestate is the relation \<open>in_state\<close>. \<open>Builder_Facts\<close>: a stack of layers over a backend that
  meets the contract meets it, each layer for its view of the blobs. \<open>Maintenance\<close>: the scheduling
  loops, the queue and the worker as a step relation whose events are what happened; each loop's
  choices and the worker's are executable functions. \<open>Maintenance_Facts\<close>: invariants by rule induction
  over runs, the measure that falls after the cancellation, and \<open>replay\<close>, which evaluates a run.
  \<open>Built_Store\<close> puts the two together: \<open>task_within\<close> bounds what each task that a build hands out can
  remove, as seen through the layers above it, and \<open>built_run\<close> interleaves the background, the tasks'
  effects and the user's writes; its backends are the filesystem and, for cleanup, S3.

  \<^bold>\<open>The properties\<close> are C1 to C14 in \<open>Fs_Properties\<close>, C15 to C22 in \<open>Encrypt_Properties\<close>, C23 to C26 in
  \<open>Cleanup_Properties\<close>, C27 to C34 in \<open>S3_Properties\<close>, C35, C36 and C38 to C40 in
  \<open>Builder_Properties\<close> and C37 in \<open>Built_Properties\<close>.
  \<open>Examples\<close> holds the file tree on which the witnesses run.

  \<^bold>\<open>Fuel.\<close> The directory walk takes a number of rounds; one round per node of the tree is enough
  (\<open>fs_list_terminates\<close>). The page loop of the S3 listings takes a number of pages; one per object and
  one more is enough, since a page that is not the last has an object (\<open>s3_list_terminates\<close>). Running
  out is \<open>Hang\<close>, never a result. Every other loop of the code is a terminating function here: the
  upload loop because each part takes a byte from the stream.

  \<^bold>\<open>Granularity.\<close> An operation of a store is one computation on the world: the interleaving of two
  operations of one store at their \<open>await\<close>s is not modelled. The background is: its loops, its worker
  and the user's triggers interleave step by step; in \<open>built_run\<close> a task changes the store in one
  piece, at the step that ends it, and the user's calls fall between tasks.

  \<^bold>\<open>Not modelled.\<close> \<open>lib.rs\<close> of both crates (re-exports and documentation). The \<open>tracing\<close> calls. Time:
  sleeps and time-outs end at some point. The fairness of the runtime's scheduler and of the waiting
  senders. The SDK client, encryption providers, custom backends, custom layers and custom strategies,
  which are code outside the crate and parameters here. The \<open>Debug\<close> and \<open>Default\<close> instances. An
  overflow of the part number after \<open>2\<^bsup>31\<^esup>\<close> parts.
\<close>

end
